(* ===== verification/Prelude.thy ===== *)
theory Prelude
  imports Main "HOL-Library.Word" "HOL-Library.AList"
begin

text \<open>
  Shared vocabulary of the development: the widths of Go's unsigned integers, byte strings,
  the outcome of a Go call (a value, an error value or a run-time panic), slices and
  buffers, the big-endian fields of \<^verbatim>\<open>encoding/binary\<close>, and the contract of a queue of
  bounded chunks that two components of the program implement.

  Go's \<^verbatim>\<open>int\<close> is taken to be 64 bits wide. Lengths and positions are \<open>nat\<close>, budgets and
  capacities that the code compares before it subtracts are \<open>int\<close>, and every counter
  that the protocol lets wrap is a word of its width.
\<close>

section \<open>Types\<close>

type_synonym u8 = "8 word"
type_synonym u16 = "16 word"
type_synonym u32 = "32 word"
type_synonym u64 = "64 word"
type_synonym bytes = "u8 list"

named_theorems byte_simps \<open>lengths and field reads of byte strings\<close>
named_theorems chunk_simps \<open>payload of chunked queues\<close>

section \<open>Outcomes of Go calls\<close>

text \<open>
  A call returns a value, returns an error, or panics (an index or a slice out of range).
  The panic is a value of the model, so that a theorem can state that it never happens.
\<close>

datatype ('e, 'a) outcome = Ok 'a | Fail 'e | Panic

fun and_then :: "('e, 'a) outcome \<Rightarrow> ('a \<Rightarrow> ('e, 'b) outcome) \<Rightarrow> ('e, 'b) outcome" where
  "and_then (Ok x) f = f x"
| "and_then (Fail e) f = Fail e"
| "and_then Panic f = Panic"

lemma and_then_cong [fundef_cong]:
  assumes "m = m'" and "\<And>x. m' = Ok x \<Longrightarrow> f x = g x"
  shows "and_then m f = and_then m' g"
  using assms by (cases m') auto

lemma and_then_Ok_iff:
  "and_then m f = Ok y \<longleftrightarrow> (\<exists>x. m = Ok x \<and> f x = Ok y)"
  by (cases m) auto

lemma and_then_Panic_iff:
  "and_then m f = Panic \<longleftrightarrow> m = Panic \<or> (\<exists>x. m = Ok x \<and> f x = Panic)"
  by (cases m) auto

text \<open>The same for a call that also changes a state: the state is kept on an error.\<close>

fun then_st ::
  "'s \<times> ('e, 'a) outcome \<Rightarrow> ('s \<Rightarrow> 'a \<Rightarrow> 's \<times> ('e, 'b) outcome) \<Rightarrow> 's \<times> ('e, 'b) outcome" where
  "then_st (s, Ok x) f = f s x"
| "then_st (s, Fail e) f = (s, Fail e)"
| "then_st (s, Panic) f = (s, Panic)"

lemma then_st_cong [fundef_cong]:
  assumes "m = m'" and "\<And>s x. m' = (s, Ok x) \<Longrightarrow> f s x = g s x"
  shows "then_st m f = then_st m' g"
  using assms by (cases "(m', f)" rule: then_st.cases) auto

lemma snd_then_st_Ok:
  "snd (then_st m f) = Ok y \<longleftrightarrow> (\<exists>s x. m = (s, Ok x) \<and> snd (f s x) = Ok y)"
  by (cases "(m, f)" rule: then_st.cases) auto

lemma then_st_Ok:
  "then_st m f = (t, Ok y) \<longleftrightarrow> (\<exists>s x. m = (s, Ok x) \<and> f s x = (t, Ok y))"
  by (cases "(m, f)" rule: then_st.cases) auto

text \<open>Conversion of an \<^verbatim>\<open>int\<close> to \<^verbatim>\<open>uint64\<close>.\<close>

definition as_uint64 :: "int \<Rightarrow> int" where
  "as_uint64 x = x mod 2 ^ 64"

lemma as_uint64_id [simp]: "0 \<le> x \<Longrightarrow> x < 2 ^ 64 \<Longrightarrow> as_uint64 x = x"
  by (simp add: as_uint64_def)

section \<open>Slices and buffers\<close>

text \<open>
  \<^verbatim>\<open>b[i:j]\<close> and \<^verbatim>\<open>b[i]\<close>. Go checks a slice against the capacity of the array behind it;
  the model checks it against the length, which panics at least as often.
\<close>

definition slice :: "bytes \<Rightarrow> nat \<Rightarrow> nat \<Rightarrow> ('e, bytes) outcome" where
  "slice b i j = (if i \<le> j \<and> j \<le> length b then Ok (take (j - i) (drop i b)) else Panic)"

definition byte_at :: "bytes \<Rightarrow> nat \<Rightarrow> ('e, u8) outcome" where
  "byte_at b i = (if i < length b then Ok (b ! i) else Panic)"

lemma slice_in_range [simp]:
  "i \<le> j \<Longrightarrow> j \<le> length b \<Longrightarrow> slice b i j = Ok (take (j - i) (drop i b))"
  by (simp add: slice_def)

lemma byte_at_in_range [simp]: "i < length b \<Longrightarrow> byte_at b i = Ok (b ! i)"
  by (simp add: byte_at_def)

text \<open>\<^verbatim>\<open>copy(buf[pos:], src)\<close>: as many bytes as fit behind \<open>pos\<close>.\<close>

definition copy_at :: "bytes \<Rightarrow> nat \<Rightarrow> bytes \<Rightarrow> bytes" where
  "copy_at buf pos src =
     take pos buf @ take (length buf - pos) src @ drop (pos + length src) buf"

lemma length_copy_at [byte_simps]:
  "pos \<le> length buf \<Longrightarrow> length (copy_at buf pos src) = length buf"
  by (simp add: copy_at_def)

lemma copy_at_prefix:
  assumes "length old = length new"
  shows "copy_at (pre @ old @ rest) (length pre) new = pre @ new @ rest"
  using assms by (simp add: copy_at_def)

section \<open>Big-endian fields\<close>

text \<open>\<^verbatim>\<open>binary.BigEndian.PutUint\<close> and \<^verbatim>\<open>Uint\<close> on a field of \<open>n\<close> bytes.\<close>

fun be_put :: "nat \<Rightarrow> nat \<Rightarrow> bytes" where
  "be_put 0 v = []"
| "be_put (Suc n) v = be_put n (v div 256) @ [of_nat v]"

definition be_get :: "bytes \<Rightarrow> nat" where
  "be_get bs = foldl (\<lambda>a b. a * 256 + unat b) 0 bs"

lemma length_be_put [simp, byte_simps]: "length (be_put n v) = n"
  by (induction n arbitrary: v) simp_all

lemma be_get_Nil [simp]: "be_get [] = 0"
  by (simp add: be_get_def)

lemma be_get_snoc: "be_get (bs @ [b]) = be_get bs * 256 + unat b"
  by (simp add: be_get_def)

lemma unat_bound: "unat (w :: 'a::len word) < 2 ^ LENGTH('a)"
  by (rule unsigned_less)

lemma unat_of_nat_small: "n < 2 ^ LENGTH('a) \<Longrightarrow> unat (of_nat n :: 'a::len word) = n"
  by (simp add: unat_of_nat)

lemma word_less_Suc:
  fixes w :: "'a::len word"
  assumes "w \<noteq> - 1"
  shows "w < w + 1"
proof -
  have "w + 1 \<noteq> 0" using assms by (simp add: eq_neg_iff_add_eq_0)
  then have "unat (w + 1) = unat w + 1" using unatSuc [of w] by (simp add: add.commute)
  then show ?thesis by (simp add: word_less_nat_alt)
qed

lemma of_nat_word_inject:
  "m < 2 ^ LENGTH('a) \<Longrightarrow> n < 2 ^ LENGTH('a) \<Longrightarrow> (of_nat m :: 'a::len word) = of_nat n \<Longrightarrow> m = n"
  by (metis unat_of_nat_small)

lemma unat_of_nat_byte: "unat (of_nat v :: u8) = v mod 256"
  by (simp add: unat_of_nat)

lemma be_get_be_put: "be_get (be_put n v) = v mod 256 ^ n"
proof (induction n arbitrary: v)
  case 0
  then show ?case by simp
next
  case (Suc n)
  have "be_get (be_put (Suc n) v) = (v div 256 mod 256 ^ n) * 256 + v mod 256"
    by (simp only: be_put.simps be_get_snoc Suc.IH unat_of_nat_byte)
  also have "\<dots> = v mod 256 ^ Suc n"
    using mod_mult2_eq [of v 256 "256 ^ n"] by simp
  finally show ?case .
qed

lemma be_get_less: "be_get bs < 256 ^ length bs"
proof (induction bs rule: rev_induct)
  case Nil
  then show ?case by simp
next
  case (snoc b bs)
  have "unat b < 256" using unat_bound [of b] by simp
  with snoc show ?case by (simp add: be_get_snoc)
qed

lemma be_put_be_get: "be_put (length bs) (be_get bs) = bs"
proof (induction bs rule: rev_induct)
  case Nil
  then show ?case by simp
next
  case (snoc b bs)
  have b: "unat b < 256" using unat_bound [of b] by simp
  have "(be_get bs * 256 + unat b) div 256 = be_get bs" using b by simp
  moreover have "(of_nat (be_get bs * 256 + unat b) :: u8) = b"
  proof -
    have "(of_nat (be_get bs * 256 + unat b) :: u8) = of_nat (be_get bs) * of_nat 256 + b"
      by simp
    also have "(of_nat 256 :: u8) = 0" by simp
    finally show ?thesis by simp
  qed
  ultimately show ?case using snoc by (simp add: be_get_snoc)
qed

text \<open>Words of the widths the wire uses.\<close>

definition put_u32 :: "u32 \<Rightarrow> bytes" where "put_u32 w = be_put 4 (unat w)"
definition put_u16 :: "u16 \<Rightarrow> bytes" where "put_u16 w = be_put 2 (unat w)"
definition put_u64 :: "u64 \<Rightarrow> bytes" where "put_u64 w = be_put 8 (unat w)"
definition get_u32 :: "bytes \<Rightarrow> u32" where "get_u32 bs = of_nat (be_get bs)"
definition get_u16 :: "bytes \<Rightarrow> u16" where "get_u16 bs = of_nat (be_get bs)"
definition get_u64 :: "bytes \<Rightarrow> u64" where "get_u64 bs = of_nat (be_get bs)"

lemma length_put_words [simp, byte_simps]:
  "length (put_u32 w) = 4" "length (put_u16 x) = 2" "length (put_u64 y) = 8"
  by (simp_all add: put_u32_def put_u16_def put_u64_def)

lemma get_put_words [simp]:
  "get_u32 (put_u32 w) = w" "get_u16 (put_u16 x) = x" "get_u64 (put_u64 y) = y"
  using unat_bound [of w] unat_bound [of x] unat_bound [of y]
  by (simp_all add: get_u32_def put_u32_def get_u16_def put_u16_def get_u64_def put_u64_def
      be_get_be_put)

lemma unat_get_u32: "length bs = 4 \<Longrightarrow> unat (get_u32 bs) = be_get bs"
  using be_get_less [of bs] by (simp add: get_u32_def unat_of_nat)

lemma unat_get_u16: "length bs = 2 \<Longrightarrow> unat (get_u16 bs) = be_get bs"
  using be_get_less [of bs] by (simp add: get_u16_def unat_of_nat)

lemma put_get_u32: "length bs = 4 \<Longrightarrow> put_u32 (get_u32 bs) = bs"
  using be_put_be_get [of bs] by (simp add: put_u32_def unat_get_u32)

lemma put_get_u16: "length bs = 2 \<Longrightarrow> put_u16 (get_u16 bs) = bs"
  using be_put_be_get [of bs] by (simp add: put_u16_def unat_get_u16)

lemma put_words_inject [simp]:
  "put_u32 v = put_u32 w \<longleftrightarrow> v = w" "put_u64 x = put_u64 y \<longleftrightarrow> x = y"
  by (metis get_put_words(1)) (metis get_put_words(3))

text \<open>ASCII text as bytes, and back.\<close>

definition to_bytes :: "string \<Rightarrow> bytes" where
  "to_bytes s = map of_char s"

definition to_string :: "bytes \<Rightarrow> string" where
  "to_string bs = map (\<lambda>b. char_of (unat b)) bs"

lemma length_to_bytes [simp]: "length (to_bytes s) = length s"
  by (simp add: to_bytes_def)

section \<open>Association lists\<close>

text \<open>A Go map whose entries the code counts or walks over is an association list.\<close>

lemma map_of_update [simp]: "map_of (AList.update k v al) = (map_of al)(k \<mapsto> v)"
  by (rule update_conv')

lemma map_of_delete [simp]: "map_of (AList.delete k al) = (map_of al)(k := None)"
  by (rule delete_conv')

section \<open>Queues of bounded chunks\<close>

text \<open>
  Two components copy incoming bytes into chunks of at most \<open>k\<close> bytes: the input queue of a
  multiplexed stream and the input of the packet connection. A queue is \<open>chunked\<close> when no
  chunk is empty or too long and only the last may be partly filled.
\<close>

definition chunked :: "nat \<Rightarrow> bytes list \<Rightarrow> bool" where
  "chunked k cs \<longleftrightarrow> list_all (\<lambda>c. c \<noteq> [] \<and> length c \<le> k) cs
     \<and> list_all (\<lambda>c. length c = k) (butlast cs)"

lemma chunked_Nil [simp]: "chunked k []"
  by (simp add: chunked_def)

lemma chunked_ConsD: "chunked k (c # cs) \<Longrightarrow> chunked k cs \<and> c \<noteq> [] \<and> length c \<le> k"
  by (auto simp: chunked_def split: if_splits)

lemma chunked_snoc:
  assumes "chunked k cs" and "cs = [] \<or> length (last cs) = k" and "c \<noteq> []" and "length c \<le> k"
  shows "chunked k (cs @ [c])"
proof (cases cs rule: rev_cases)
  case Nil
  with assms show ?thesis by (simp add: chunked_def)
next
  case (snoc ds d)
  with assms show ?thesis by (simp add: chunked_def butlast_append)
qed

lemma chunked_grow:
  assumes "chunked k cs" and "cs \<noteq> []" and "length (last cs) + length d \<le> k"
  shows "chunked k (butlast cs @ [last cs @ d])"
proof -
  obtain bs c where "cs = bs @ [c]" using assms(2) by (cases cs rule: rev_cases) auto
  with assms show ?thesis by (auto simp: chunked_def list_all_iff)
qed

lemma chunked_full_length: "list_all (\<lambda>c. length c = k) cs \<Longrightarrow> length (concat cs) = length cs * k"
  by (induction cs) auto

lemma chunked_count:
  assumes "chunked k cs" and "0 < k"
  shows "length cs * k < length (concat cs) + k"
proof (cases cs rule: rev_cases)
  case Nil
  with assms show ?thesis by simp
next
  case (snoc bs c)
  with assms have "length (concat bs) = length bs * k" "c \<noteq> []"
    by (auto simp: chunked_def intro: chunked_full_length)
  then show ?thesis by (cases c) (simp_all add: snoc)
qed

text \<open>The contract of a chunked queue, and what its users may conclude from it.\<close>

locale chunk_queue =
  fixes k :: nat
    and chunks :: "'q \<Rightarrow> bytes list"
    and put :: "'q \<Rightarrow> 'x \<Rightarrow> ('e, 'q) outcome"
    and data :: "'x \<Rightarrow> bytes"
  assumes k_pos: "0 < k"
    and put_spec: "chunked k (chunks q) \<Longrightarrow>
      \<exists>q'. put q x = Ok q' \<and> concat (chunks q') = concat (chunks q) @ data x
        \<and> chunked k (chunks q')"
begin

lemma put_no_panic: "chunked k (chunks q) \<Longrightarrow> put q x \<noteq> Panic \<and> put q x \<noteq> Fail e"
  using put_spec [of q x] by auto

lemma put_appends:
  "chunked k (chunks q) \<Longrightarrow> put q x = Ok q' \<Longrightarrow>
     concat (chunks q') = concat (chunks q) @ data x \<and> chunked k (chunks q')"
  using put_spec [of q x] by auto

lemma put_count:
  assumes "chunked k (chunks q)" and "put q x = Ok q'"
    and "length (concat (chunks q)) + length (data x) \<le> n * k"
  shows "length (chunks q') \<le> n"
proof -
  have "length (chunks q') * k < length (concat (chunks q')) + k"
    using put_appends [OF assms(1,2)] k_pos by (intro chunked_count) auto
  also have "\<dots> \<le> (n + 1) * k" using assms put_appends [OF assms(1,2)] by simp
  finally show ?thesis using k_pos by (simp del: mult_Suc)
qed

end

section \<open>Invariants of a step relation\<close>

text \<open>
  A component is a start state and a step relation; an invariant that the start has and
  every step keeps holds in every state a run can reach.
\<close>

locale step_system =
  fixes start :: "'s \<Rightarrow> bool"
    and step :: "'s \<Rightarrow> 's \<Rightarrow> bool"
    and inv :: "'s \<Rightarrow> bool"
  assumes start_inv: "start s \<Longrightarrow> inv s"
    and step_inv: "inv s \<Longrightarrow> step s t \<Longrightarrow> inv t"
begin

lemma run_inv: "step\<^sup>*\<^sup>* s t \<Longrightarrow> inv s \<Longrightarrow> inv t"
  by (induction rule: rtranclp_induct) (auto intro: step_inv)

lemma reachable_inv: "start s \<Longrightarrow> step\<^sup>*\<^sup>* s t \<Longrightarrow> inv t"
  by (blast intro: run_inv start_inv)

end

end
