(* ===== verification/Cell.thy ===== *)
theory Cell
  imports Prelude
begin

text \<open>
  The carrier cell of \<^verbatim>\<open>internal/cell/cell.go\<close>: a fixed-capacity body that starts with a
  16-byte header, continues with complete frames and ends with random filler. \<open>Encode\<close>
  writes into a buffer the way the source does; \<open>Decode\<close> reads hostile bytes with every
  index and slice checked. The theorems: \<open>Encode\<close> produces the documented layout,
  \<open>Decode\<close> inverts it, accepts nothing else, and never panics.
\<close>

section \<open>Constants and frames\<close>

definition Header :: nat where [simp]: "Header = 16"
definition FrameHeader :: nat where [simp]: "FrameHeader = 16"
definition MaxCell :: nat where [simp]: "MaxCell = 256 * 1024"
definition Window :: u32 where [simp]: "Window = 512 * 1024"
definition HTTP3Window :: u32 where [simp]: "HTTP3Window = 1024 * 1024"
definition PacketWindow :: u32 where [simp]: "PacketWindow = 4 * 1024 * 1024"
definition MaxStreams :: nat where [simp]: "MaxStreams = 32"
definition OpenK :: u8 where [simp]: "OpenK = 1"
definition DataK :: u8 where [simp]: "DataK = 2"
definition FinK :: u8 where [simp]: "FinK = 3"
definition ResetK :: u8 where [simp]: "ResetK = 4"
definition CreditK :: u8 where [simp]: "CreditK = 5"
definition AuthK :: u8 where [simp]: "AuthK = 6"
definition OpenedK :: u8 where [simp]: "OpenedK = 7"
definition AckK :: u8 where [simp]: "AckK = 8"
definition HelloK :: u8 where [simp]: "HelloK = 9"

record frame =
  Kind :: u8
  Stream :: u32
  Sequence :: u32
  Body :: bytes

definition Size :: "frame \<Rightarrow> nat" where
  "Size f = FrameHeader + length (Body f)"

definition kind_ok :: "u8 \<Rightarrow> bool" where
  "kind_ok k \<longleftrightarrow> OpenK \<le> k \<and> k \<le> HelloK"

lemma kind_ok_iff: "kind_ok k \<longleftrightarrow> k \<noteq> 0 \<and> \<not> 9 < k"
  by (simp add: kind_ok_def linorder_not_less [symmetric])

section \<open>Encode\<close>

text \<open>The sizing loop: \<open>None\<close> is the early error return.\<close>

fun encode_used :: "int \<Rightarrow> int \<Rightarrow> frame list \<Rightarrow> int option" where
  "encode_used capacity used [] = Some used"
| "encode_used capacity used (f # fs) =
     (if Kind f < OpenK \<or> Kind f > HelloK \<or> capacity - used < int FrameHeader
         \<or> int (length (Body f)) > capacity - used - int FrameHeader
      then None else encode_used capacity (used + int (Size f)) fs)"

definition put_frame :: "bytes \<Rightarrow> nat \<Rightarrow> frame \<Rightarrow> bytes" where
  "put_frame body pos f =
     (let body = copy_at body pos [Kind f, 0, 0, 0];
          body = copy_at body (pos + 4) (put_u32 (Stream f));
          body = copy_at body (pos + 8) (put_u32 (Sequence f));
          body = copy_at body (pos + 12) (put_u32 (of_nat (length (Body f))))
      in copy_at body (pos + FrameHeader) (Body f))"

fun put_frames :: "bytes \<Rightarrow> nat \<Rightarrow> frame list \<Rightarrow> bytes" where
  "put_frames body pos [] = body"
| "put_frames body pos (f # fs) = put_frames (put_frame body pos f) (pos + Size f) fs"

text \<open>
  \<open>rand\<close> stands for \<^verbatim>\<open>crypto/rand.Read\<close> on a slice of the given length: the bytes it
  fills in, or \<open>None\<close> for its error.
\<close>

definition Encode ::
  "(nat \<Rightarrow> bytes option) \<Rightarrow> u32 \<Rightarrow> int \<Rightarrow> frame list \<Rightarrow> (string, bytes) outcome" where
  "Encode rand sequence capacity frames =
     (if capacity < int Header \<or> capacity > int MaxCell \<or> length frames > 4096
      then Fail ''invalid cell capacity''
      else case encode_used capacity (int Header) frames of
        None \<Rightarrow> Fail ''invalid frame or cell overflow''
      | Some used \<Rightarrow>
          if used > capacity then Fail ''cell overflow''
          else
            (case rand (nat capacity - nat used) of
               None \<Rightarrow> Fail ''rand''
             | Some filler \<Rightarrow>
                 let body = replicate (nat capacity) 0;
                     body = copy_at body (nat used) filler;
                     body = copy_at body 0 (to_bytes ''NFOX'');
                     body = copy_at body 4 (put_u32 sequence);
                     body = copy_at body 8 (put_u32 (of_int used));
                     body = copy_at body 12 (put_u16 (of_nat (length frames)));
                     body = copy_at body 14 [0, 0]
                 in Ok (put_frames body Header frames)))"

section \<open>Decode\<close>

definition decode_frame :: "bytes \<Rightarrow> nat \<Rightarrow> nat \<Rightarrow> (string, frame) outcome" where
  "decode_frame body used pos =
     (if pos + FrameHeader > used then Fail ''invalid carrier cell'' else
      and_then (slice body (pos + 12) (pos + 16)) (\<lambda>lb.
      let len = unat (get_u32 lb) in
      and_then (byte_at body pos) (\<lambda>k.
      and_then (byte_at body (pos + 1)) (\<lambda>r1.
      and_then (byte_at body (pos + 2)) (\<lambda>r2.
      and_then (byte_at body (pos + 3)) (\<lambda>r3.
      if len > used - pos - FrameHeader \<or> k < OpenK \<or> k > HelloK
         \<or> r1 \<noteq> 0 \<or> r2 \<noteq> 0 \<or> r3 \<noteq> 0
      then Fail ''invalid carrier cell'' else
      and_then (slice body (pos + 4) (pos + 8)) (\<lambda>sb.
      and_then (slice body (pos + 8) (pos + 12)) (\<lambda>qb.
      and_then (slice body (pos + FrameHeader) (pos + FrameHeader + len)) (\<lambda>payload.
      Ok \<lparr>Kind = k, Stream = get_u32 sb, Sequence = get_u32 qb, Body = payload\<rparr>)))))))))"

fun decode_frames ::
  "bytes \<Rightarrow> nat \<Rightarrow> nat \<Rightarrow> nat \<Rightarrow> (string, frame list \<times> nat) outcome" where
  "decode_frames body used pos 0 = Ok ([], pos)"
| "decode_frames body used pos (Suc count) =
     and_then (decode_frame body used pos) (\<lambda>f.
     and_then (decode_frames body used (pos + Size f) count) (\<lambda>(fs, pos').
     Ok (f # fs, pos')))"

definition Decode :: "bytes \<Rightarrow> (string, u32 \<times> frame list \<times> nat) outcome" where
  "Decode body =
     (if length body < Header \<or> length body > MaxCell then Fail ''invalid carrier cell'' else
      and_then (slice body 0 4) (\<lambda>magic.
      and_then (byte_at body 15) (\<lambda>r15.
      and_then (byte_at body 14) (\<lambda>r14.
      if magic \<noteq> to_bytes ''NFOX'' \<or> r15 \<noteq> 0 \<or> r14 \<noteq> 0 then Fail ''invalid carrier cell'' else
      and_then (slice body 4 8) (\<lambda>seqb.
      and_then (slice body 8 12) (\<lambda>usedb.
      and_then (slice body 12 14) (\<lambda>countb.
      let seq = get_u32 seqb; used = unat (get_u32 usedb); count = unat (get_u16 countb) in
      if used < Header \<or> used > length body \<or> count > 4096
         \<or> count > (used - Header) div FrameHeader
      then Fail ''invalid carrier cell'' else
      and_then (decode_frames body used Header count) (\<lambda>(frames, pos).
      if pos \<noteq> used then Fail ''invalid carrier cell''
      else Ok (seq, frames, length body - used)))))))))"

definition Uint32 :: "u32 \<Rightarrow> bytes" where
  "Uint32 n = copy_at (replicate 4 0) 0 (put_u32 n)"

section \<open>The documented layout\<close>

definition frame_bytes :: "frame \<Rightarrow> bytes" where
  "frame_bytes f = [Kind f, 0, 0, 0] @ put_u32 (Stream f) @ put_u32 (Sequence f)
     @ put_u32 (of_nat (length (Body f))) @ Body f"

definition total_size :: "frame list \<Rightarrow> nat" where
  "total_size fs = sum_list (map Size fs)"

definition cell_header :: "u32 \<Rightarrow> nat \<Rightarrow> nat \<Rightarrow> bytes" where
  "cell_header seq used count =
     to_bytes ''NFOX'' @ put_u32 seq @ put_u32 (of_nat used) @ put_u16 (of_nat count) @ [0, 0]"

definition layout :: "u32 \<Rightarrow> frame list \<Rightarrow> bytes \<Rightarrow> bytes" where
  "layout seq fs filler =
     cell_header seq (Header + total_size fs) (length fs) @ concat (map frame_bytes fs) @ filler"

text \<open>What the encoder accepts: the frames fit the capacity and have known kinds.\<close>

definition encodable :: "int \<Rightarrow> frame list \<Rightarrow> bool" where
  "encodable capacity fs \<longleftrightarrow>
     int Header + int (total_size fs) \<le> capacity \<and> capacity \<le> int MaxCell
     \<and> length fs \<le> 4096 \<and> list_all (\<lambda>f. kind_ok (Kind f)) fs"

text \<open>The contract of \<^verbatim>\<open>crypto/rand.Read\<close>: it fills the whole slice or fails.\<close>

definition fills :: "(nat \<Rightarrow> bytes option) \<Rightarrow> bool" where
  "fills rand \<longleftrightarrow> (\<forall>n bs. rand n = Some bs \<longrightarrow> length bs = n)"

lemma total_size_simps [simp]:
  "total_size [] = 0" "total_size (f # fs) = Size f + total_size fs"
  "total_size (fs @ gs) = total_size fs + total_size gs"
  by (simp_all add: total_size_def)

lemma length_frame_bytes [simp]: "length (frame_bytes f) = Size f"
  by (simp add: frame_bytes_def Size_def)

lemma length_concat_frames [simp]: "length (concat (map frame_bytes fs)) = total_size fs"
  by (induction fs) simp_all

lemma length_cell_header [simp]: "length (cell_header seq used count) = 16"
  by (simp add: cell_header_def)

lemma length_layout [simp]:
  "length (layout seq fs filler) = 16 + total_size fs + length filler"
  by (simp add: layout_def)

lemma total_size_ge_length: "16 * length fs \<le> total_size fs"
  by (induction fs) (simp_all add: Size_def)

lemma total_size_member: "f \<in> set fs \<Longrightarrow> Size f \<le> total_size fs"
  by (induction fs) auto

section \<open>Encode produces the layout\<close>

lemma encode_used_eq:
  assumes "used \<le> capacity"
  shows "encode_used capacity used fs =
    (if list_all (\<lambda>f. kind_ok (Kind f)) fs \<and> used + int (total_size fs) \<le> capacity
     then Some (used + int (total_size fs)) else None)"
  using assms
proof (induction fs arbitrary: used)
  case Nil
  then show ?case by simp
next
  case (Cons f fs)
  show ?case
  proof (cases "kind_ok (Kind f) \<and> used + int (Size f) \<le> capacity")
    case True
    with Cons.IH [of "used + int (Size f)"] show ?thesis
      by (auto simp: kind_ok_iff Size_def)
  next
    case False
    then show ?thesis by (auto simp: kind_ok_iff Size_def)
  qed
qed

lemma copy_at_split:
  assumes "length old = length new" and "n = length pre"
  shows "copy_at (pre @ old @ rest) n new = pre @ new @ rest"
  using copy_at_prefix [OF assms(1)] assms(2) by simp

lemma split_lengths:
  assumes "length xs = m + n"
  obtains ys zs where "xs = ys @ zs" "length ys = m" "length zs = n"
proof
  show "xs = take m xs @ drop m xs" by simp
qed (use assms in simp_all)

lemma put_frame_layout:
  assumes "length old = Size f"
  shows "put_frame (pre @ old @ rest) (length pre) f = pre @ frame_bytes f @ rest"
proof -
  have "length old = 4 + (4 + (4 + (4 + length (Body f))))"
    using assms by (simp add: Size_def)
  then obtain a b c d e where old: "old = a @ b @ c @ d @ e"
    and len: "length a = 4" "length b = 4" "length c = 4" "length d = 4"
      "length e = length (Body f)"
    by (metis split_lengths)
  let ?k = "[Kind f, 0, 0, 0]" and ?s = "put_u32 (Stream f)" and ?q = "put_u32 (Sequence f)"
    and ?n = "put_u32 (of_nat (length (Body f)))"
  have 1: "copy_at (pre @ a @ b @ c @ d @ e @ rest) (length pre) ?k = pre @ ?k @ b @ c @ d @ e @ rest"
    by (rule copy_at_split) (simp_all add: len)
  have 2: "copy_at (pre @ ?k @ b @ c @ d @ e @ rest) (length pre + 4) ?s
      = pre @ ?k @ ?s @ c @ d @ e @ rest"
    using copy_at_split [of b ?s "length pre + 4" "pre @ ?k" "c @ d @ e @ rest"] by (simp add: len)
  have 3: "copy_at (pre @ ?k @ ?s @ c @ d @ e @ rest) (length pre + 8) ?q
      = pre @ ?k @ ?s @ ?q @ d @ e @ rest"
    using copy_at_split [of c ?q "length pre + 8" "pre @ ?k @ ?s" "d @ e @ rest"] by (simp add: len)
  have 4: "copy_at (pre @ ?k @ ?s @ ?q @ d @ e @ rest) (length pre + 12) ?n
      = pre @ ?k @ ?s @ ?q @ ?n @ e @ rest"
    using copy_at_split [of d ?n "length pre + 12" "pre @ ?k @ ?s @ ?q" "e @ rest"] by (simp add: len)
  have 5: "copy_at (pre @ ?k @ ?s @ ?q @ ?n @ e @ rest) (length pre + 16) (Body f)
      = pre @ ?k @ ?s @ ?q @ ?n @ Body f @ rest"
    using copy_at_split [of e "Body f" "length pre + 16" "pre @ ?k @ ?s @ ?q @ ?n" rest]
    by (simp add: len)
  show ?thesis
    unfolding put_frame_def Let_def old FrameHeader_def
    using 1 2 3 4 5 by (simp add: frame_bytes_def)
qed

lemma put_frames_layout:
  assumes "length old = total_size fs"
  shows "put_frames (pre @ old @ rest) (length pre) fs = pre @ concat (map frame_bytes fs) @ rest"
  using assms
proof (induction fs arbitrary: pre old)
  case Nil
  then show ?case by simp
next
  case (Cons f fs)
  then obtain a b where old: "old = a @ b" and len: "length a = Size f" "length b = total_size fs"
    by (metis split_lengths total_size_simps(2))
  have "put_frame (pre @ a @ b @ rest) (length pre) f = pre @ frame_bytes f @ b @ rest"
    using put_frame_layout [OF len(1), of pre "b @ rest"] by simp
  then show ?case
    using Cons.IH [OF len(2), of "pre @ frame_bytes f"] by (simp add: old)
qed

lemma header_writes:
  assumes "length hb = 16"
  shows "copy_at (copy_at (copy_at (copy_at (copy_at (hb @ rest) 0 (to_bytes ''NFOX'')) 4
      (put_u32 seq)) 8 (put_u32 u)) 12 (put_u16 c)) 14 [0, 0]
    = to_bytes ''NFOX'' @ put_u32 seq @ put_u32 u @ put_u16 c @ [0, 0] @ rest"
proof -
  have "length hb = 4 + (4 + (4 + (2 + 2)))" using assms by simp
  then obtain a b c' d e where hd: "hb = a @ b @ c' @ d @ e"
    and len: "length a = 4" "length b = 4" "length c' = 4" "length d = 2" "length e = 2"
    by (metis split_lengths)
  let ?m = "to_bytes ''NFOX''"
  have 1: "copy_at (a @ b @ c' @ d @ e @ rest) 0 ?m = ?m @ b @ c' @ d @ e @ rest"
    using copy_at_split [of a ?m 0 "[]"] by (simp add: len)
  have 2: "copy_at (?m @ b @ c' @ d @ e @ rest) 4 (put_u32 seq)
      = ?m @ put_u32 seq @ c' @ d @ e @ rest"
    by (rule copy_at_split) (simp_all add: len)
  have 3: "copy_at (?m @ put_u32 seq @ c' @ d @ e @ rest) 8 (put_u32 u)
      = ?m @ put_u32 seq @ put_u32 u @ d @ e @ rest"
    using copy_at_split [of c' "put_u32 u" 8 "?m @ put_u32 seq"] by (simp add: len)
  have 4: "copy_at (?m @ put_u32 seq @ put_u32 u @ d @ e @ rest) 12 (put_u16 c)
      = ?m @ put_u32 seq @ put_u32 u @ put_u16 c @ e @ rest"
    using copy_at_split [of d "put_u16 c" 12 "?m @ put_u32 seq @ put_u32 u"] by (simp add: len)
  have 5: "copy_at (?m @ put_u32 seq @ put_u32 u @ put_u16 c @ e @ rest) 14 [0, 0]
      = ?m @ put_u32 seq @ put_u32 u @ put_u16 c @ [0, 0] @ rest"
    using copy_at_split [of e "[0, 0]" 14 "?m @ put_u32 seq @ put_u32 u @ put_u16 c"]
    by (simp add: len)
  show ?thesis unfolding hd using 1 2 3 4 5 by simp
qed

lemma encode_buffer:
  assumes "length filler = n"
  shows "put_frames (copy_at (copy_at (copy_at (copy_at (copy_at
      (copy_at (replicate (16 + total_size fs + n) 0) (16 + total_size fs) filler)
      0 (to_bytes ''NFOX'')) 4 (put_u32 seq)) 8 (put_u32 (of_nat (16 + total_size fs))))
      12 (put_u16 (of_nat (length fs)))) 14 [0, 0]) 16 fs
    = layout seq fs filler"
proof -
  let ?t = "total_size fs"
  have "copy_at (replicate (16 + ?t + n) 0) (16 + ?t) filler
      = replicate 16 0 @ replicate ?t 0 @ filler"
    using copy_at_split [of "replicate n 0" filler "16 + ?t" "replicate 16 0 @ replicate ?t 0" "[]"]
      assms by (simp add: replicate_add)
  moreover have "length (replicate 16 (0 :: u8)) = 16" by simp
  ultimately show ?thesis
    using header_writes [of "replicate 16 0" "replicate ?t 0 @ filler" seq
        "of_nat (16 + ?t)" "of_nat (length fs)"]
      put_frames_layout [of "replicate ?t 0" fs
        "cell_header seq (16 + ?t) (length fs)" filler]
    by (simp add: layout_def cell_header_def)
qed

lemma Encode_eq:
  assumes "fills rand"
  shows "Encode rand seq capacity fs =
    (if encodable capacity fs then
       (case rand (nat capacity - (Header + total_size fs)) of
          None \<Rightarrow> Fail ''rand'' | Some filler \<Rightarrow> Ok (layout seq fs filler))
     else if capacity < int Header \<or> capacity > int MaxCell \<or> length fs > 4096
       then Fail ''invalid cell capacity'' else Fail ''invalid frame or cell overflow'')"
proof (cases "encodable capacity fs")
  case True
  then have bounds: "16 + int (total_size fs) \<le> capacity" "capacity \<le> 262144" "length fs \<le> 4096"
    "list_all (\<lambda>f. kind_ok (Kind f)) fs"
    by (auto simp: encodable_def)
  then have used: "encode_used capacity 16 fs = Some (16 + int (total_size fs))"
    by (subst encode_used_eq) auto
  have nat_used: "nat (16 + int (total_size fs)) = 16 + total_size fs" by simp
  have of_used: "(of_int (16 + int (total_size fs)) :: u32) = of_nat (16 + total_size fs)" by simp
  show ?thesis
  proof (cases "rand (nat capacity - (16 + total_size fs))")
    case None
    with True bounds used nat_used show ?thesis by (simp add: Encode_def)
  next
    case (Some filler)
    with assms have len: "length filler = nat capacity - (16 + total_size fs)"
      by (simp add: fills_def)
    moreover have "nat capacity = 16 + total_size fs + length filler"
      using len bounds(1) by simp
    ultimately show ?thesis
      using True bounds Some used nat_used of_used encode_buffer [OF refl, of fs filler seq]
      by (simp add: Encode_def Let_def del: of_int_add)
  qed
next
  case False
  then show ?thesis
    by (auto simp: Encode_def encode_used_eq encodable_def)
qed

section \<open>Decode inverts the layout\<close>

lemma nth_append_at: "(xs @ ys) ! (length xs + i) = ys ! i"
  by (simp add: nth_append)

lemma decode_frame_layout:
  assumes "kind_ok (Kind f)" and "length pre + Size f \<le> used" and "length (Body f) < 2 ^ 32"
  shows "decode_frame (pre @ frame_bytes f @ rest) used (length pre) = Ok f"
proof -
  let ?b = "pre @ frame_bytes f @ rest" and ?p = "length pre"
  have len: "Size f = 16 + length (Body f)" by (simp add: Size_def)
  have slice_eq: "slice ?b (?p + i) (?p + j) = Ok (take (j - i) (drop i (frame_bytes f)))"
    if "i \<le> j" "j \<le> Size f" for i j
    using that by (simp add: len)
  have at_eq: "byte_at ?b (?p + i) = Ok (frame_bytes f ! i)" if "i < Size f" for i
    using that by (simp add: nth_append)
  have fields: "take 4 (drop 12 (frame_bytes f)) = put_u32 (of_nat (length (Body f)))"
    "take 4 (drop 4 (frame_bytes f)) = put_u32 (Stream f)"
    "take 4 (drop 8 (frame_bytes f)) = put_u32 (Sequence f)"
    "take (length (Body f)) (drop 16 (frame_bytes f)) = Body f"
    by (simp_all add: frame_bytes_def)
  have heads: "frame_bytes f ! 0 = Kind f" "frame_bytes f ! 1 = 0" "frame_bytes f ! 2 = 0"
    "frame_bytes f ! 3 = 0"
    by (simp_all add: frame_bytes_def)
  have n: "unat (of_nat (length (Body f)) :: u32) = length (Body f)"
    using assms(3) by (simp add: unat_of_nat)
  have s: "slice ?b (?p + 12) (?p + 16) = Ok (put_u32 (of_nat (length (Body f))))"
    "slice ?b (?p + 4) (?p + 8) = Ok (put_u32 (Stream f))"
    "slice ?b (?p + 8) (?p + 12) = Ok (put_u32 (Sequence f))"
    "slice ?b (?p + 16) (?p + 16 + length (Body f)) = Ok (Body f)"
    using slice_eq [of 12 16] slice_eq [of 4 8] slice_eq [of 8 12]
      slice_eq [of 16 "16 + length (Body f)"] fields
    by (simp_all add: len add.assoc)
  have h: "byte_at ?b ?p = Ok (Kind f)" "byte_at ?b (?p + 1) = Ok 0" "byte_at ?b (?p + 2) = Ok 0"
    "byte_at ?b (?p + 3) = Ok 0"
    using at_eq [of 0] at_eq [of 1] at_eq [of 2] at_eq [of 3] heads by (simp_all add: len)
  show ?thesis
    unfolding decode_frame_def FrameHeader_def s h and_then.simps Let_def get_put_words n
    using assms(1,2) by (auto simp: kind_ok_iff len s)
qed

lemma decode_frames_layout:
  assumes "list_all (\<lambda>f. kind_ok (Kind f)) fs" and "length pre + total_size fs \<le> used"
    and "used < 2 ^ 32"
  shows "decode_frames (pre @ concat (map frame_bytes fs) @ rest) used (length pre) (length fs)
    = Ok (fs, length pre + total_size fs)"
  using assms
proof (induction fs arbitrary: pre)
  case Nil
  then show ?case by simp
next
  case (Cons f fs)
  have "length (Body f) < 2 ^ 32"
    using Cons.prems(2,3) by (simp add: Size_def)
  then have f: "decode_frame (pre @ frame_bytes f @ concat (map frame_bytes fs) @ rest) used
      (length pre) = Ok f"
    using Cons.prems by (intro decode_frame_layout) auto
  show ?case
    using Cons.IH [of "pre @ frame_bytes f"] Cons.prems f by (simp add: add.assoc)
qed

lemma cell_header_fields:
  "take 4 (cell_header seq used count) = to_bytes ''NFOX''"
  "take 4 (drop 4 (cell_header seq used count)) = put_u32 seq"
  "take 4 (drop 8 (cell_header seq used count)) = put_u32 (of_nat used)"
  "take 2 (drop 12 (cell_header seq used count)) = put_u16 (of_nat count)"
  "cell_header seq used count ! 14 = 0" "cell_header seq used count ! 15 = 0"
  by (simp_all add: cell_header_def nth_append to_bytes_def)

lemma Decode_layout:
  assumes "list_all (\<lambda>f. kind_ok (Kind f)) fs" and "length fs \<le> 4096"
    and "16 + total_size fs + length filler \<le> MaxCell"
  shows "Decode (layout seq fs filler) = Ok (seq, fs, length filler)"
proof -
  let ?used = "16 + total_size fs" and ?b = "layout seq fs filler"
  let ?h = "cell_header seq ?used (length fs)"
  have b: "?b = ?h @ concat (map frame_bytes fs) @ filler" by (simp add: layout_def)
  have sl: "slice ?b i j = Ok (take (j - i) (drop i ?h))" if "i \<le> j" "j \<le> 16" for i j
    using that by (simp add: b)
  have at: "byte_at ?b i = Ok (?h ! i)" if "i < 16" for i
    using that by (simp add: b nth_append)
  have reads: "slice ?b 0 4 = Ok (to_bytes ''NFOX'')" "slice ?b 4 8 = Ok (put_u32 seq)"
    "slice ?b 8 12 = Ok (put_u32 (of_nat ?used))" "slice ?b 12 14 = Ok (put_u16 (of_nat (length fs)))"
    "byte_at ?b 14 = Ok 0" "byte_at ?b 15 = Ok 0"
    using sl [of 0 4] sl [of 4 8] sl [of 8 12] sl [of 12 14] at [of 14] at [of 15]
    by (simp_all add: cell_header_fields)
  have nums: "unat (of_nat ?used :: u32) = ?used" "unat (of_nat (length fs) :: u16) = length fs"
    using assms(2,3) by (simp_all add: unat_of_nat_small del: of_nat_add)
  have frames: "decode_frames ?b ?used 16 (length fs) = Ok (fs, ?used)"
    using decode_frames_layout [OF assms(1), of ?h ?used filler] assms(3) by (simp add: b)
  have count: "length fs \<le> total_size fs div 16"
    using total_size_ge_length [of fs] by simp
  show ?thesis
    unfolding Decode_def Header_def FrameHeader_def reads and_then.simps Let_def get_put_words nums
      frames
    using assms count by simp
qed

section \<open>Decode accepts nothing else\<close>

text \<open>A cell that was encoded has the requested size and reads back.\<close>

lemma encode_Ok:
  assumes "fills rand" and "Encode rand seq capacity fs = Ok body"
  shows "length body = nat capacity \<and> Decode body = Ok (seq, fs, nat capacity - (Header + total_size fs))"
proof -
  from assms obtain filler where rand: "rand (nat capacity - (Header + total_size fs)) = Some filler"
    and body: "body = layout seq fs filler" and enc: "encodable capacity fs"
    by (auto simp: Encode_eq split: if_splits option.splits)
  have len: "length filler = nat capacity - (Header + total_size fs)"
    using assms(1) rand by (simp add: fills_def)
  have fit: "16 + total_size fs \<le> nat capacity" "nat capacity \<le> MaxCell"
    using enc by (auto simp: encodable_def)
  with len have "16 + total_size fs + length filler \<le> MaxCell" by simp
  then show ?thesis
    using enc len body fit by (simp add: Decode_layout encodable_def)
qed

text \<open>Encoding frames that fit cannot fail, and the cell has the requested size and reads back.\<close>

lemma encode_encodable:
  assumes "encodable capacity fs" and "fills rand" and "\<And>n. rand n \<noteq> None"
  shows "\<exists>body. Encode rand seq capacity fs = Ok body \<and> length body = nat capacity
    \<and> Decode body = Ok (seq, fs, nat capacity - (Header + total_size fs))"
proof -
  obtain filler where "rand (nat capacity - (Header + total_size fs)) = Some filler"
    using assms(3) by auto
  then have "Encode rand seq capacity fs = Ok (layout seq fs filler)"
    using assms(1,2) by (simp add: Encode_eq)
  then show ?thesis using encode_Ok [OF assms(2)] by blast
qed

lemma take4_eq: "4 \<le> length xs \<Longrightarrow> take 4 xs = [xs ! 0, xs ! 1, xs ! 2, xs ! 3]"
  by (rule nth_equalityI) (auto simp: less_Suc_eq numeral_eq_Suc)

lemma take2_eq: "2 \<le> length xs \<Longrightarrow> take 2 xs = [xs ! 0, xs ! 1]"
  by (rule nth_equalityI) (auto simp: less_Suc_eq numeral_eq_Suc)

lemma drop_slice: "j = i + n \<Longrightarrow> drop i xs = take n (drop i xs) @ drop j xs"
  by (metis add.commute append_take_drop_id drop_drop)

lemma decode_frame_Ok:
  assumes "decode_frame body used pos = Ok f" and "used \<le> length body"
  shows "drop pos body = frame_bytes f @ drop (pos + Size f) body"
    and "pos + Size f \<le> used" and "kind_ok (Kind f)"
proof -
  define len where "len = unat (get_u32 (take 4 (drop (pos + 12) body)))"
  have room: "pos + 16 \<le> used"
    using assms(1) by (auto simp: decode_frame_def split: if_splits)
  then have in_range: "pos + 16 \<le> length body" using assms(2) by simp
  have ok: "len \<le> used - pos - 16" "kind_ok (body ! pos)"
    "body ! (pos + 1) = 0" "body ! (pos + 2) = 0" "body ! (pos + 3) = 0"
    and f: "f = \<lparr>Kind = body ! pos, Stream = get_u32 (take 4 (drop (pos + 4) body)),
      Sequence = get_u32 (take 4 (drop (pos + 8) body)), Body = take len (drop (pos + 16) body)\<rparr>"
    using assms room in_range
    by (auto simp: decode_frame_def kind_ok_iff len_def Let_def split: if_splits)
  have len_le: "pos + 16 + len \<le> length body" "pos + 16 + len \<le> used"
    using ok(1) room in_range assms(2) by auto
  have size: "Size f = 16 + len" using len_le by (simp add: f Size_def)
  have len_word: "put_u32 (of_nat len) = take 4 (drop (pos + 12) body)"
    using in_range by (simp add: len_def put_get_u32)
  have first: "take 4 (drop pos body) = [body ! pos, 0, 0, 0]"
    using ok in_range take4_eq [of "drop pos body"] by simp
  have "drop pos body = take 4 (drop pos body) @ take 4 (drop (pos + 4) body)
      @ take 4 (drop (pos + 8) body) @ take 4 (drop (pos + 12) body)
      @ take len (drop (pos + 16) body) @ drop (pos + 16 + len) body"
    by (subst drop_slice [of "pos + 4" pos 4], simp, subst drop_slice [of "pos + 8" "pos + 4" 4], simp,
        subst drop_slice [of "pos + 12" "pos + 8" 4], simp,
        subst drop_slice [of "pos + 16" "pos + 12" 4], simp,
        subst drop_slice [of "pos + 16 + len" "pos + 16" len], simp, simp only: append_assoc)
  then show "drop pos body = frame_bytes f @ drop (pos + Size f) body"
    using first len_word in_range len_le size
    by (simp add: frame_bytes_def f put_get_u32 add.assoc)
  show "pos + Size f \<le> used" using len_le size by simp
  show "kind_ok (Kind f)" using ok by (simp add: f)
qed

lemma decode_frames_Ok:
  assumes "decode_frames body used pos count = Ok (fs, pos')" and "used \<le> length body"
    and "pos \<le> used"
  shows "drop pos body = concat (map frame_bytes fs) @ drop pos' body"
    and "pos' = pos + total_size fs" and "pos' \<le> used" and "length fs = count"
    and "list_all (\<lambda>f. kind_ok (Kind f)) fs"
proof -
  have "drop pos body = concat (map frame_bytes fs) @ drop pos' body
     \<and> pos' = pos + total_size fs \<and> pos' \<le> used \<and> length fs = count
     \<and> list_all (\<lambda>f. kind_ok (Kind f)) fs"
    using assms
  proof (induction count arbitrary: pos fs)
    case 0
    then show ?case by simp
  next
    case (Suc count)
    then obtain f gs where f: "decode_frame body used pos = Ok f" and fs: "fs = f # gs"
      and gs: "decode_frames body used (pos + Size f) count = Ok (gs, pos')"
      by (auto simp: and_then_Ok_iff)
    note one = decode_frame_Ok [OF f Suc.prems(2)]
    from Suc.IH [OF gs Suc.prems(2) one(2)] one show ?case by (simp add: fs)
  qed
  then show "drop pos body = concat (map frame_bytes fs) @ drop pos' body"
    and "pos' = pos + total_size fs" and "pos' \<le> used" and "length fs = count"
    and "list_all (\<lambda>f. kind_ok (Kind f)) fs"
    by blast+
qed

lemma Decode_header:
  assumes "Decode body = Ok (seq, fs, n)"
  shows "\<exists>used. used \<le> length body \<and> n = length body - used \<and> length fs \<le> 4096
    \<and> length body \<le> MaxCell \<and> take 16 body = cell_header seq used (length fs)
    \<and> decode_frames body used 16 (length fs) = Ok (fs, used) \<and> 16 \<le> used"
proof -
  define used where "used = unat (get_u32 (take 4 (drop 8 body)))"
  define count where "count = unat (get_u16 (take 2 (drop 12 body)))"
  have len: "16 \<le> length body" "length body \<le> MaxCell"
    using assms by (auto simp: Decode_def split: if_splits)
  have magic: "take 4 body = to_bytes ''NFOX''" "body ! 14 = 0" "body ! 15 = 0"
    and seq: "seq = get_u32 (take 4 (drop 4 body))"
    and used_ok: "16 \<le> used" "used \<le> length body" "count \<le> 4096"
    and n: "n = length body - used"
    and frames: "decode_frames body used 16 count = Ok (fs, used)"
    using assms len
    by (auto simp: Decode_def used_def count_def Let_def and_then_Ok_iff split: if_splits prod.splits)
  have count: "length fs = count"
    using decode_frames_Ok(4) [OF frames used_ok(2,1)] .
  have two: "take 2 (drop 14 body) = [0, 0]"
    using len magic take2_eq [of "drop 14 body"] by simp
  have "take 16 body = take 4 body @ take 4 (drop 4 body) @ take 4 (drop 8 body)
      @ take 2 (drop 12 body) @ take 2 (drop 14 body)"
    using take_add [of 4 12 body] take_add [of 4 8 "drop 4 body"] take_add [of 4 4 "drop 8 body"]
      take_add [of 2 2 "drop 12 body"] by simp
  then have "take 16 body = cell_header seq used (length fs)"
    using magic seq count len two
    by (simp add: cell_header_def used_def count_def put_get_u32 put_get_u16)
  with used_ok n frames count len show ?thesis by auto
qed

lemma Decode_sound:
  assumes "Decode body = Ok (seq, fs, n)"
  shows "\<exists>filler. length filler = n \<and> body = layout seq fs filler"
    and "encodable (int (length body)) fs"
proof -
  obtain used where used: "used \<le> length body" "n = length body - used" "16 \<le> used"
    and h: "take 16 body = cell_header seq used (length fs)"
    and frames: "decode_frames body used 16 (length fs) = Ok (fs, used)"
    and len: "length fs \<le> 4096" "length body \<le> MaxCell"
    using Decode_header [OF assms] by blast
  note fr = decode_frames_Ok [OF frames used(1,3)]
  have "body = take 16 body @ drop 16 body" by simp
  then have "body = layout seq fs (drop used body)"
    using h fr(1,2) by (simp add: layout_def)
  then show "\<exists>filler. length filler = n \<and> body = layout seq fs filler"
    using used(2) by (intro exI [of _ "drop used body"]) simp
  show "encodable (int (length body)) fs"
    using fr(2,3,5) used len by (simp add: encodable_def)
qed

section \<open>Properties\<close>

text \<open>
  C1. \<open>Decode\<close> accepts exactly the documented layout: a body decodes to sequence \<open>seq\<close>,
  frames \<open>fs\<close> and \<open>n\<close> bytes of filler if and only if it is the cell header, the frames and
  \<open>n\<close> arbitrary filler bytes, within the size and count limits and with known frame kinds.
\<close>

theorem Decode_iff_layout:
  "Decode body = Ok (seq, fs, n) \<longleftrightarrow>
     (\<exists>filler. length filler = n \<and> body = layout seq fs filler)
     \<and> encodable (int (length body)) fs"
proof
  assume "Decode body = Ok (seq, fs, n)"
  then show "(\<exists>filler. length filler = n \<and> body = layout seq fs filler)
     \<and> encodable (int (length body)) fs"
    using Decode_sound by blast
next
  assume "(\<exists>filler. length filler = n \<and> body = layout seq fs filler)
     \<and> encodable (int (length body)) fs"
  then show "Decode body = Ok (seq, fs, n)"
    using Decode_layout by (auto simp: encodable_def)
qed

text \<open>
  C2. Round trip: what \<open>Encode\<close> produces, \<open>Decode\<close> reads back, with the filler counted
  exactly, for every capacity and every list of frames the encoder accepts.
\<close>

theorem Decode_Encode:
  assumes "fills rand" and "Encode rand seq capacity fs = Ok body"
  shows "Decode body = Ok (seq, fs, nat capacity - (Header + total_size fs))"
  using encode_Ok [OF assms] by simp

theorem Decode_Encode_witness:
  "Decode (layout 7 [\<lparr>Kind = 2, Stream = 1, Sequence = 0, Body = [65, 66]\<rparr>] (replicate 478 0))
     = Ok (7, [\<lparr>Kind = 2, Stream = 1, Sequence = 0, Body = [65, 66]\<rparr>], 478)"
proof -
  let ?fs = "[\<lparr>Kind = 2, Stream = 1, Sequence = 0, Body = [65, 66]\<rparr>] :: frame list"
  let ?rand = "\<lambda>n. Some (replicate n (0 :: u8))"
  have fills: "fills ?rand" by (simp add: fills_def)
  have enc: "encodable 512 ?fs" by (simp add: encodable_def kind_ok_iff Size_def)
  have "Encode ?rand 7 512 ?fs = Ok (layout 7 ?fs (replicate 478 0))"
    by (simp add: Encode_eq [OF fills] enc Size_def)
  from Decode_Encode [OF fills this] show ?thesis
    by (simp add: Size_def)
qed

text \<open>
  C3. \<open>Decode\<close> is total on hostile input: for no byte string does it index or slice out of
  range.
\<close>

lemma decode_frame_no_panic: "used \<le> length body \<Longrightarrow> decode_frame body used pos \<noteq> Panic"
  by (auto simp: decode_frame_def Let_def)

lemma decode_frames_no_panic:
  "used \<le> length body \<Longrightarrow> decode_frames body used pos count \<noteq> Panic"
  by (induction count arbitrary: pos)
    (auto simp: and_then_Panic_iff decode_frame_no_panic split: prod.splits)

theorem Decode_no_panic: "Decode body \<noteq> Panic"
  by (auto simp: Decode_def Let_def and_then_Panic_iff decode_frames_no_panic split: prod.splits)

text \<open>
  C4. What \<open>Encode\<close> returns on every branch: with a working random source it succeeds
  exactly on frames that fit the capacity, and otherwise names which limit was exceeded.
\<close>

theorem Encode_outcome:
  assumes "fills rand" and "rand (nat capacity - (Header + total_size fs)) = Some filler"
  shows "Encode rand seq capacity fs =
    (if encodable capacity fs then Ok (layout seq fs filler)
     else if capacity < int Header \<or> capacity > int MaxCell \<or> length fs > 4096
       then Fail ''invalid cell capacity'' else Fail ''invalid frame or cell overflow'')"
  using assms by (simp add: Encode_eq)

theorem Encode_outcome_witness:
  "Encode (\<lambda>n. Some (replicate n 0)) 3 32 [\<lparr>Kind = 2, Stream = 1, Sequence = 0, Body = [9]\<rparr>]
     = Fail ''invalid frame or cell overflow''"
proof -
  have fills: "fills (\<lambda>n. Some (replicate n (0 :: u8)))" by (simp add: fills_def)
  show ?thesis
    using Encode_outcome [OF fills refl, where seq = 3 and capacity = 32
        and fs = "[\<lparr>Kind = 2, Stream = 1, Sequence = 0, Body = [9]\<rparr>]"]
    by (simp add: encodable_def Size_def)
qed

end
