(* ===== verification/Stream_Decoder.thy ===== *)
theory Stream_Decoder
  imports Cell
begin

text \<open>
  The incremental decoder of \<^verbatim>\<open>internal/cell/stream.go\<close>. It receives the used prefix of a
  cell in arbitrary pieces and returns each frame as soon as it is complete. The main
  theorem: whatever the pieces, the frames are those of the one-shot \<open>Decode\<close>.
\<close>

section \<open>State\<close>

record StreamDecoder =
  d_sequence :: u32
  d_body :: bytes
  d_used :: nat
  d_count :: nat
  d_offset :: nat
  d_parsed :: nat
  d_ended :: bool

definition NewStreamDecoder :: "u32 \<Rightarrow> StreamDecoder" where
  "NewStreamDecoder sequence = \<lparr>d_sequence = sequence, d_body = [], d_used = 0, d_count = 0,
     d_offset = 0, d_parsed = 0, d_ended = False\<rparr>"

abbreviation bad_incremental :: string where
  "bad_incremental \<equiv> ''invalid incremental carrier cell''"

section \<open>Push\<close>

text \<open>Once sixteen bytes have arrived, the header is checked and its counters are kept.\<close>

definition push_header :: "StreamDecoder \<Rightarrow> StreamDecoder \<times> (string, unit) outcome" where
  "push_header d =
     (if d_used d = 0 \<and> length (d_body d) \<ge> Header then
        let b = d_body d in
        then_st (d, slice b 8 12) (\<lambda>d ub.
        let d = d\<lparr>d_used := unat (get_u32 ub)\<rparr> in
        then_st (d, slice b 12 14) (\<lambda>d cb.
        let d = d\<lparr>d_count := unat (get_u16 cb)\<rparr> in
        then_st (d, slice b 0 4) (\<lambda>d magic.
        then_st (d, slice b 4 8) (\<lambda>d sb.
        then_st (d, byte_at b 14) (\<lambda>d r14.
        then_st (d, byte_at b 15) (\<lambda>d r15.
        if magic \<noteq> to_bytes ''NFOX'' \<or> get_u32 sb \<noteq> d_sequence d \<or> r14 \<noteq> 0 \<or> r15 \<noteq> 0
           \<or> d_used d < Header \<or> d_used d > MaxCell \<or> d_count d > 4096
        then (d, Fail bad_incremental)
        else (d\<lparr>d_offset := Header\<rparr>, Ok ())))))))
      else (d, Ok ()))"

text \<open>One turn of the frame loop: \<open>None\<close> is the \<^verbatim>\<open>break\<close> that waits for more bytes.\<close>

definition push_frame :: "StreamDecoder \<Rightarrow> (string, frame option) outcome" where
  "push_frame d =
     and_then (slice (d_body d) (d_offset d) (length (d_body d))) (\<lambda>b.
     and_then (slice b 12 16) (\<lambda>lb.
     let n = unat (get_u32 lb) in
     and_then (byte_at b 0) (\<lambda>k.
     and_then (byte_at b 1) (\<lambda>r1.
     and_then (byte_at b 2) (\<lambda>r2.
     and_then (byte_at b 3) (\<lambda>r3.
     if int n > as_uint64 (int (d_used d) - int (d_offset d) - int FrameHeader)
        \<or> k < OpenK \<or> k > OpenedK \<or> r1 \<noteq> 0 \<or> r2 \<noteq> 0 \<or> r3 \<noteq> 0
     then Fail bad_incremental
     else if int n > as_uint64 (int (length b) - int FrameHeader) then Ok None
     else
       and_then (slice b 4 8) (\<lambda>sb.
       and_then (slice b 8 12) (\<lambda>qb.
       and_then (slice b FrameHeader (FrameHeader + n)) (\<lambda>payload.
       Ok (Some \<lparr>Kind = k, Stream = get_u32 sb, Sequence = get_u32 qb, Body = payload\<rparr>))))))))))"

function push_loop ::
  "StreamDecoder \<Rightarrow> frame list \<Rightarrow> StreamDecoder \<times> (string, frame list) outcome" where
  "push_loop d frames =
     (if d_parsed d < d_count d \<and> d_offset d + FrameHeader \<le> length (d_body d) then
        (case push_frame d of
           Panic \<Rightarrow> (d, Panic)
         | Fail e \<Rightarrow> (d, Fail e)
         | Ok None \<Rightarrow> (d, Ok frames)
         | Ok (Some f) \<Rightarrow>
             push_loop (d\<lparr>d_offset := d_offset d + Size f, d_parsed := d_parsed d + 1\<rparr>)
               (frames @ [f]))
      else (d, Ok frames))"
  by pat_completeness auto
termination
  by (relation "measure (\<lambda>(d, frames). d_count d - d_parsed d)") auto

declare push_loop.simps [simp del]

definition push_frames :: "StreamDecoder \<Rightarrow> StreamDecoder \<times> (string, frame list) outcome" where
  "push_frames d =
     (if d_used d \<noteq> 0 then
        if length (d_body d) > d_used d then (d, Fail bad_incremental)
        else then_st (push_loop d []) (\<lambda>d frames.
          if d_parsed d = d_count d \<and> d_offset d \<noteq> d_used d then (d, Fail bad_incremental)
          else if length (d_body d) = d_used d
            \<and> (d_offset d \<noteq> d_used d \<or> d_parsed d \<noteq> d_count d) then (d, Fail bad_incremental)
          else (d, Ok frames))
      else (d, Ok []))"

definition push_final ::
  "StreamDecoder \<Rightarrow> bool \<Rightarrow> frame list \<Rightarrow> StreamDecoder \<times> (string, frame list) outcome" where
  "push_final d final frames =
     (if final then
        if d_used d = 0 \<or> length (d_body d) \<noteq> d_used d \<or> d_offset d \<noteq> d_used d
           \<or> d_parsed d \<noteq> d_count d
        then (d, Fail bad_incremental)
        else (d\<lparr>d_ended := True\<rparr>, Ok frames)
      else (d, Ok frames))"

definition push_core ::
  "StreamDecoder \<Rightarrow> bytes \<Rightarrow> bool \<Rightarrow> StreamDecoder \<times> (string, frame list) outcome" where
  "push_core d part final =
     (if d_ended d \<or> int (length part) > int MaxCell - int (length (d_body d))
      then (d, Fail bad_incremental)
      else then_st (push_header (d\<lparr>d_body := d_body d @ part\<rparr>)) (\<lambda>d _.
           then_st (push_frames d) (\<lambda>d frames. push_final d final frames)))"

text \<open>The deferred function marks the decoder as ended on every error.\<close>

definition Push ::
  "StreamDecoder \<Rightarrow> bytes \<Rightarrow> bool \<Rightarrow> StreamDecoder \<times> (string, frame list) outcome" where
  "Push d part final =
     (case push_core d part final of
        (d, Fail e) \<Rightarrow> (d\<lparr>d_ended := True\<rparr>, Fail e)
      | (d, r) \<Rightarrow> (d, r))"

text \<open>A response body that arrives in pieces; only the last piece is final.\<close>

fun push_parts ::
  "StreamDecoder \<Rightarrow> bytes list \<Rightarrow> StreamDecoder \<times> (string, frame list) outcome" where
  "push_parts d [] = (d, Ok [])"
| "push_parts d (p # ps) =
     then_st (Push d p (ps = [])) (\<lambda>d fs.
     then_st (push_parts d ps) (\<lambda>d gs. (d, Ok (fs @ gs))))"

section \<open>The frame loop\<close>

definition window_ok :: "StreamDecoder \<Rightarrow> bytes \<Rightarrow> bool" where
  "window_ok d b \<longleftrightarrow>
     int (unat (get_u32 (take 4 (drop 12 b))))
       \<le> as_uint64 (int (d_used d) - int (d_offset d) - int FrameHeader)
     \<and> b ! 0 \<noteq> 0 \<and> \<not> 7 < b ! 0 \<and> b ! 1 = 0 \<and> b ! 2 = 0 \<and> b ! 3 = 0"

lemma push_frame_eq:
  assumes "d_offset d + 16 \<le> length (d_body d)" and "length (d_body d) \<le> MaxCell"
    and b: "b = drop (d_offset d) (d_body d)"
    and n: "n = unat (get_u32 (take 4 (drop 12 b)))"
  shows "push_frame d =
    (if \<not> window_ok d b then Fail bad_incremental
     else if length b < 16 + n then Ok None
     else Ok (Some \<lparr>Kind = b ! 0, Stream = get_u32 (take 4 (drop 4 b)),
       Sequence = get_u32 (take 4 (drop 8 b)), Body = take n (drop 16 b)\<rparr>))"
proof -
  have len: "16 \<le> length b" "length b \<le> MaxCell" using assms by auto
  have whole: "slice (d_body d) (d_offset d) (length (d_body d)) = Ok b"
    using assms(1) by (simp add: b)
  have reads: "slice b 12 16 = Ok (take 4 (drop 12 b))" "slice b 4 8 = Ok (take 4 (drop 4 b))"
    "slice b 8 12 = Ok (take 4 (drop 8 b))" "byte_at b 0 = Ok (b ! 0)" "byte_at b 1 = Ok (b ! 1)"
    "byte_at b 2 = Ok (b ! 2)" "byte_at b 3 = Ok (b ! 3)"
    using len by (auto simp: byte_at_def)
  have short: "as_uint64 (int (length b) - int FrameHeader) < int n \<longleftrightarrow> length b < 16 + n"
    using len by auto
  show ?thesis
    unfolding push_frame_def whole and_then.simps reads Let_def n [symmetric] short window_ok_def
    by (auto simp: slice_def)
qed

lemma push_frame_no_panic:
  "d_offset d + 16 \<le> length (d_body d) \<Longrightarrow> length (d_body d) \<le> MaxCell \<Longrightarrow> push_frame d \<noteq> Panic"
  by (simp add: push_frame_eq [OF _ _ refl refl])

lemma push_loop_acc:
  "push_loop d (fs @ gs) =
     (case push_loop d gs of (d', Ok hs) \<Rightarrow> (d', Ok (fs @ hs)) | r \<Rightarrow> r)"
proof (induction d gs rule: push_loop.induct)
  case (1 d gs)
  show ?case
  proof (cases "d_parsed d < d_count d \<and> d_offset d + FrameHeader \<le> length (d_body d)")
    case False
    then show ?thesis by (subst (1 2) push_loop.simps) auto
  next
    case True
    show ?thesis
    proof (cases "push_frame d")
      case (Ok r)
      with True 1 show ?thesis
        by (cases r) (subst (1 2) push_loop.simps, simp)+
    next
      case (Fail e)
      with True show ?thesis by (subst (1 2) push_loop.simps) simp
    next
      case Panic
      with True show ?thesis by (subst (1 2) push_loop.simps) simp
    qed
  qed
qed

text \<open>More bytes do not change what a complete frame or a malformed header says.\<close>

lemma push_frame_extend:
  assumes "d_offset d + 16 \<le> length (d_body d)" and "length (d_body d) + length b \<le> MaxCell"
    and "push_frame d \<noteq> Ok None"
  shows "push_frame (d\<lparr>d_body := d_body d @ b\<rparr>) = push_frame d"
proof -
  define c n where "c = drop (d_offset d) (d_body d)" and "n = unat (get_u32 (take 4 (drop 12 c)))"
  have len: "16 \<le> length c" using assms(1) by (auto simp: c_def)
  have win: "window_ok (d\<lparr>d_body := d_body d @ b\<rparr>) (c @ b) = window_ok d c"
    using len by (auto simp: window_ok_def nth_append)
  have n': "n = unat (get_u32 (take 4 (drop 12 (c @ b))))" using len by (simp add: n_def)
  show ?thesis
    using assms len win push_frame_eq [of d, OF _ _ c_def n_def]
      push_frame_eq [of "d\<lparr>d_body := d_body d @ b\<rparr>" "c @ b" n, OF _ _ _ n']
    by (auto simp: c_def nth_append split: if_splits)
qed

abbreviation with_more :: "StreamDecoder \<Rightarrow> bytes \<Rightarrow> StreamDecoder" where
  "with_more d b \<equiv> d\<lparr>d_body := d_body d @ b\<rparr>"

lemma push_loop_frame:
  "push_loop d fs = (d', r) \<Longrightarrow> d_body d' = d_body d \<and> d_used d' = d_used d \<and> d_count d' = d_count d
     \<and> d_sequence d' = d_sequence d \<and> d_ended d' = d_ended d"
proof (induction d fs rule: push_loop.induct)
  case (1 d fs)
  then show ?case
    by (subst (asm) (2) push_loop.simps)
      (auto split: if_splits outcome.splits option.splits)
qed

lemma push_loop_resume:
  assumes "length (d_body d) + length b \<le> MaxCell" and "push_loop d fs = (d1, r)"
  shows "push_loop (with_more d b) fs =
    (case r of Ok gs \<Rightarrow> push_loop (with_more d1 b) gs | _ \<Rightarrow> (with_more d1 b, r))"
  using assms
proof (induction d fs rule: push_loop.induct)
  case (1 d fs)
  show ?case
  proof (cases "d_parsed d < d_count d \<and> d_offset d + FrameHeader \<le> length (d_body d)")
    case False
    then have "d1 = d" "r = Ok fs"
      using "1.prems" by (auto simp: push_loop.simps [of d fs])
    then show ?thesis by simp
  next
    case True
    have ext: "push_frame (with_more d b) = push_frame d" if "push_frame d \<noteq> Ok None"
      using push_frame_extend [of d b] True that "1.prems"(1) by simp
    have guard: "d_parsed (with_more d b) < d_count (with_more d b)
        \<and> d_offset (with_more d b) + FrameHeader \<le> length (d_body (with_more d b))"
      using True by simp
    show ?thesis
    proof (cases "push_frame d")
      case (Ok x)
      show ?thesis
      proof (cases x)
        case None
        with Ok True "1.prems" show ?thesis by (auto simp: push_loop.simps [of d fs])
      next
        case (Some f)
        let ?d = "d\<lparr>d_offset := d_offset d + Size f, d_parsed := d_parsed d + 1\<rparr>"
        have "push_loop ?d (fs @ [f]) = (d1, r)"
          using "1.prems"(2) True Ok Some by (simp add: push_loop.simps [of d fs])
        moreover have "with_more ?d b
            = (with_more d b)\<lparr>d_offset := d_offset d + Size f, d_parsed := d_parsed d + 1\<rparr>"
          by (cases d) simp
        then have "push_loop (with_more d b) fs = push_loop (with_more ?d b) (fs @ [f])"
          using guard ext Ok Some by (subst push_loop.simps) (simp only:, simp)
        ultimately show ?thesis
          using "1.IH" [OF True Ok Some] "1.prems"(1) by simp
      qed
    next
      case (Fail e)
      then have "d1 = d" "r = Fail e" using True "1.prems"(2) by (simp_all add: push_loop.simps [of d fs])
      moreover have "push_loop (with_more d b) fs = (with_more d b, Fail e)"
        using guard ext Fail by (subst push_loop.simps) simp
      ultimately show ?thesis by simp
    next
      case Panic
      then show ?thesis using push_frame_no_panic [of d] True "1.prems"(1) by simp
    qed
  qed
qed

section \<open>Pieces do not matter\<close>

definition sd_wf :: "StreamDecoder \<Rightarrow> bool" where
  "sd_wf d \<longleftrightarrow> length (d_body d) \<le> MaxCell \<and> (d_used d = 0 \<longrightarrow> length (d_body d) < Header)"

text \<open>The header check in closed form, and that it reads only the first sixteen bytes.\<close>

lemma push_header_eq:
  "push_header d =
    (if d_used d = 0 \<and> 16 \<le> length (d_body d) then
       let b = d_body d; u = unat (get_u32 (take 4 (drop 8 b)));
           c = unat (get_u16 (take 2 (drop 12 b))); d' = d\<lparr>d_used := u, d_count := c\<rparr> in
       if take 4 b = to_bytes ''NFOX'' \<and> get_u32 (take 4 (drop 4 b)) = d_sequence d
          \<and> b ! 14 = 0 \<and> b ! 15 = 0 \<and> 16 \<le> u \<and> u \<le> MaxCell \<and> c \<le> 4096
       then (d'\<lparr>d_offset := 16\<rparr>, Ok ()) else (d', Fail bad_incremental)
     else (d, Ok ()))"
  by (auto simp: push_header_def Let_def)

lemma push_header_extend:
  assumes "d_used d \<noteq> 0 \<or> 16 \<le> length (d_body d)"
  shows "push_header (with_more d b) =
    (case push_header d of (d', r) \<Rightarrow> (with_more d' b, r))"
proof (cases "d_used d = 0 \<and> 16 \<le> length (d_body d)")
  case True
  let ?b = "d_body d"
  have "take 4 (?b @ b) = take 4 ?b" "take 4 (drop 4 (?b @ b)) = take 4 (drop 4 ?b)"
    "take 4 (drop 8 (?b @ b)) = take 4 (drop 8 ?b)" "take 2 (drop 12 (?b @ b)) = take 2 (drop 12 ?b)"
    "(?b @ b) ! 14 = ?b ! 14" "(?b @ b) ! 15 = ?b ! 15"
    using True by (simp_all add: nth_append)
  with True show ?thesis by (cases d) (simp add: push_header_eq Let_def del: take_append drop_append)
next
  case False
  then have "d_used d \<noteq> 0" using assms by auto
  then show ?thesis by (simp add: push_header_eq)
qed

lemma push_header_frame:
  "push_header d = (d', Ok ()) \<Longrightarrow> d_body d' = d_body d \<and> d_ended d' = d_ended d
     \<and> (d_used d' = 0 \<longrightarrow> d' = d \<and> length (d_body d) < 16)"
  by (auto simp: push_header_eq Let_def split: if_splits)

lemma push_frames_frame:
  "push_frames d = (d', Ok fs) \<Longrightarrow> d_body d' = d_body d \<and> d_ended d' = d_ended d
     \<and> d_used d' = d_used d"
  by (auto simp: push_frames_def then_st_Ok split: if_splits dest: push_loop_frame)

lemma push_frames_resume:
  assumes "length (d_body d) + length b \<le> MaxCell" and "d_used d \<noteq> 0"
    and "push_frames d = (d1, Ok fs)"
  shows "push_frames (with_more d1 b) = (d2, Ok gs) \<Longrightarrow>
      push_frames (with_more d b) = (d2, Ok (fs @ gs))"
    and "push_frames (with_more d1 b) = (d2, Fail e) \<Longrightarrow>
      \<exists>d3. push_frames (with_more d b) = (d3, Fail e)"
proof -
  have loop: "push_loop d [] = (d1, Ok fs)"
    using assms(2,3) by (auto simp: push_frames_def then_st_Ok split: if_splits)
  note same = push_loop_frame [OF loop]
  have "push_loop (with_more d b) [] = push_loop (with_more d1 b) (fs @ [])"
    using push_loop_resume [OF assms(1) loop] by simp
  also have "\<dots> = (case push_loop (with_more d1 b) [] of (d', Ok hs) \<Rightarrow> (d', Ok (fs @ hs)) | r \<Rightarrow> r)"
    by (rule push_loop_acc)
  finally have step: "push_loop (with_more d b) [] =
    (case push_loop (with_more d1 b) [] of (d', Ok hs) \<Rightarrow> (d', Ok (fs @ hs)) | r \<Rightarrow> r)" .
  obtain d' r where l1: "push_loop (with_more d1 b) [] = (d', r)" by fastforce
  show "push_frames (with_more d1 b) = (d2, Ok gs) \<Longrightarrow>
      push_frames (with_more d b) = (d2, Ok (fs @ gs))"
    using assms(2) same step l1
    by (cases r) (auto simp: push_frames_def split: if_splits)
  show "push_frames (with_more d1 b) = (d2, Fail e) \<Longrightarrow>
      \<exists>d3. push_frames (with_more d b) = (d3, Fail e)"
    using assms(2) same step l1
    by (cases r) (auto simp: push_frames_def split: if_splits)
qed

lemma with_more_Nil [simp]: "with_more d [] = d"
  by (cases d) simp

lemma push_frame_Fail: "push_frame d = Fail e \<Longrightarrow> e = bad_incremental"
  by (auto simp: push_frame_def Let_def slice_def byte_at_def split: if_splits)

lemma push_loop_Fail: "push_loop d fs = (d', Fail e) \<Longrightarrow> e = bad_incremental"
proof (induction d fs rule: push_loop.induct)
  case (1 d fs)
  then show ?case
    by (subst (asm) (2) push_loop.simps)
      (auto split: if_splits outcome.splits option.splits dest: push_frame_Fail)
qed

lemma push_frames_Fail: "push_frames d = (d', Fail e) \<Longrightarrow> e = bad_incremental"
  using push_loop_Fail [of d "[]"]
  by (cases "push_loop d []"; cases "snd (push_loop d [])") (auto simp: push_frames_def split: if_splits)

lemma push_frames_resume_Fail:
  assumes "length (d_body d) + length b \<le> MaxCell" and "d_used d \<noteq> 0"
    and "push_frames d = (d1, Fail e)"
  shows "\<exists>d2. push_frames (with_more d b) = (d2, Fail bad_incremental)"
proof (cases "b = [] \<or> length (d_body d) + length b > d_used d")
  case True
  then show ?thesis
  proof
    assume "b = []"
    then show ?thesis using assms(3) push_frames_Fail [OF assms(3)] by simp
  next
    assume "d_used d < length (d_body d) + length b"
    then show ?thesis using assms(2) by (simp add: push_frames_def)
  qed
next
  case False
  then have short: "length (d_body d) < d_used d" by (cases b) auto
  obtain d' r where loop: "push_loop d [] = (d', r)" by fastforce
  note same = push_loop_frame [OF loop] and more = push_loop_resume [OF assms(1) loop]
  show ?thesis
  proof (cases r)
    case (Ok gs)
    have stuck: "push_loop (with_more d' b) gs = (with_more d' b, Ok gs)" if "d_parsed d' = d_count d'"
      using that by (subst push_loop.simps) simp
    show ?thesis
      using assms(2,3) False short same more loop Ok stuck
      by (auto simp: push_frames_def split: if_splits)
  next
    case (Fail e')
    then show ?thesis
      using assms False more loop push_loop_Fail by (auto simp: push_frames_def)
  next
    case Panic
    then show ?thesis using assms loop False by (simp add: push_frames_def)
  qed
qed

lemma push_header_Fail: "push_header d = (d', Fail e) \<Longrightarrow> e = bad_incremental"
  by (auto simp: push_header_eq Let_def split: if_splits)

lemma push_header_no_panic: "push_header d \<noteq> (d', Panic)"
  by (auto simp: push_header_eq Let_def split: if_splits)

lemma push_loop_no_panic: "length (d_body d) \<le> MaxCell \<Longrightarrow> push_loop d fs \<noteq> (d', Panic)"
proof (induction d fs rule: push_loop.induct)
  case (1 d fs)
  then show ?case
    using push_frame_no_panic [of d]
    by (subst push_loop.simps) (auto split: outcome.splits option.splits)
qed

lemma push_frames_no_panic: "length (d_body d) \<le> MaxCell \<Longrightarrow> push_frames d \<noteq> (d', Panic)"
  using push_loop_no_panic [of d "[]"]
  by (cases "push_loop d []"; cases "snd (push_loop d [])") (auto simp: push_frames_def)

lemma push_core_no_panic: "push_core d part final \<noteq> (d', Panic)"
proof -
  have "then_st (push_frames e) (\<lambda>d frames. push_final d final frames) \<noteq> (d', Panic)"
    if "length (d_body e) \<le> MaxCell" for e
    using push_frames_no_panic [OF that]
    by (cases "push_frames e"; cases "snd (push_frames e)") (auto simp: push_final_def)
  then show ?thesis
    using push_header_no_panic [of "with_more d part"]
    by (cases "push_header (with_more d part)"; cases "snd (push_header (with_more d part))")
      (auto simp: push_core_def dest!: push_header_frame)
qed

lemma push_core_Fail: "push_core d part final = (d', Fail e) \<Longrightarrow> e = bad_incremental"
proof -
  have "then_st (push_frames x) (\<lambda>d frames. push_final d final frames) = (d', Fail e)
      \<Longrightarrow> e = bad_incremental" for x
    using push_frames_Fail [of x]
    by (cases "push_frames x"; cases "snd (push_frames x)")
      (auto simp: push_final_def split: if_splits)
  then show "push_core d part final = (d', Fail e) \<Longrightarrow> e = bad_incremental"
    using push_header_Fail [of "with_more d part"]
    by (cases "push_header (with_more d part)"; cases "snd (push_header (with_more d part))")
      (auto simp: push_core_def split: if_splits)
qed

lemma push_core_Ok_state:
  assumes "push_core d a False = (d1, Ok fs)"
  shows "d_body d1 = d_body d @ a" and "\<not> d_ended d1" and "length (d_body d @ a) \<le> MaxCell"
    and "sd_wf d1"
proof -
  obtain d0 where h: "push_header (with_more d a) = (d0, Ok ())"
    and f: "push_frames d0 = (d1, Ok fs)" and g: "\<not> d_ended d" "length (d_body d @ a) \<le> MaxCell"
    using assms by (auto simp: push_core_def then_st_Ok push_final_def split: if_splits)
  note push_header_frame [OF h] push_frames_frame [OF f]
  then show "d_body d1 = d_body d @ a" "\<not> d_ended d1" "length (d_body d @ a) \<le> MaxCell" "sd_wf d1"
    using g by (auto simp: sd_wf_def)
qed

lemma push_final_False: "push_final d False = (\<lambda>frames. (d, Ok frames))"
  by (rule ext) (simp add: push_final_def)

lemma with_more_append: "with_more (with_more d a) b = with_more d (a @ b)"
  by simp

lemma push_core_append:
  assumes "push_core d a False = (d1, Ok f1)"
  shows "push_core d1 b fin = (d2, Ok f2) \<Longrightarrow> push_core d (a @ b) fin = (d2, Ok (f1 @ f2))"
    and "push_core d1 b fin = (d2, Fail e) \<Longrightarrow> \<exists>d3. push_core d (a @ b) fin = (d3, Fail e)"
proof -
  obtain d0 where h: "push_header (with_more d a) = (d0, Ok ())"
    and f: "push_frames d0 = (d1, Ok f1)" and live: "\<not> d_ended d"
    using assms by (auto simp: push_core_def then_st_Ok push_final_def split: if_splits)
  note st = push_core_Ok_state [OF assms] and hf = push_header_frame [OF h]
    and ff = push_frames_frame [OF f]
  have big: "push_core d1 b fin = (d1, Fail bad_incremental)"
      "push_core d (a @ b) fin = (d, Fail bad_incremental)"
    if "length (d_body d) + length a + length b > MaxCell"
    using that st by (auto simp: push_core_def)
  have small: "(push_core d1 b fin = (d2, Ok f2) \<longrightarrow> push_core d (a @ b) fin = (d2, Ok (f1 @ f2)))
      \<and> (push_core d1 b fin = (d2, Fail e) \<longrightarrow> (\<exists>d3. push_core d (a @ b) fin = (d3, Fail e)))"
    if room: "length (d_body d) + length a + length b \<le> MaxCell"
  proof (cases "d_used d0 = 0")
    case True
    then have "d0 = with_more d a" "d1 = d0" "f1 = []" using hf f by (auto simp: push_frames_def)
    then have "push_core d1 b fin = push_core d (a @ b) fin"
      using room live st by (simp add: push_core_def)
    then show ?thesis using \<open>f1 = []\<close> by auto
  next
    case False
    then have "d_used (with_more d a) \<noteq> 0 \<or> 16 \<le> length (d_body (with_more d a))"
      using h by (auto simp: push_header_eq split: if_splits)
    then have h2: "push_header (with_more d (a @ b)) = (with_more d0 b, Ok ())"
      using push_header_extend [of "with_more d a" b] h hf by simp
    have h1: "push_header (with_more d1 b) = (with_more d1 b, Ok ())"
      using False ff by (simp add: push_header_eq)
    have "length (d_body d0) + length b \<le> MaxCell" using room hf by simp
    note resume = push_frames_resume [OF this False f]
    have c1: "push_core d1 b fin =
        then_st (push_frames (with_more d1 b)) (\<lambda>d frames. push_final d fin frames)"
      using st room h1 by (simp add: push_core_def)
    have c2: "push_core d (a @ b) fin =
        then_st (push_frames (with_more d0 b)) (\<lambda>d frames. push_final d fin frames)"
      using live room h2 by (simp add: push_core_def)
    obtain x r where x: "push_frames (with_more d1 b) = (x, r)" by fastforce
    show ?thesis
      using x resume c1 c2
      by (cases r) (auto simp: push_final_def split: if_splits)
  qed
  show "push_core d1 b fin = (d2, Ok f2) \<Longrightarrow> push_core d (a @ b) fin = (d2, Ok (f1 @ f2))"
    using big small by (cases "length (d_body d) + length a + length b > MaxCell") auto
  show "push_core d1 b fin = (d2, Fail e) \<Longrightarrow> \<exists>d3. push_core d (a @ b) fin = (d3, Fail e)"
    using big small by (cases "length (d_body d) + length a + length b > MaxCell") auto
qed

lemma push_core_append_Fail:
  assumes "push_core d a False = (d1, Fail e)"
  shows "\<exists>d3. push_core d (a @ b) fin = (d3, Fail bad_incremental)"
proof (cases "d_ended d \<or> length (d_body d) + length a + length b > MaxCell")
  case True
  then show ?thesis by (auto simp: push_core_def)
next
  case False
  let ?h = "push_header (with_more d a)"
  have core: "push_core d (a @ b) fin =
      then_st (push_header (with_more d (a @ b))) (\<lambda>d _.
        then_st (push_frames d) (\<lambda>d frames. push_final d fin frames))"
    using False by (simp add: push_core_def)
  have core1: "then_st ?h (\<lambda>d _. then_st (push_frames d) (\<lambda>d frames. (d, Ok frames))) = (d1, Fail e)"
    using assms False by (simp add: push_core_def push_final_False)
  have ext: "push_header (with_more d (a @ b)) = (case ?h of (d', r) \<Rightarrow> (with_more d' b, r))"
    if "?h \<noteq> (with_more d a, Ok ()) \<or> d_used d \<noteq> 0"
  proof -
    have "d_used d \<noteq> 0 \<or> 16 \<le> length (d_body d @ a)"
    proof (rule ccontr)
      assume "\<not> ?thesis"
      then have "?h = (with_more d a, Ok ())" "d_used d = 0" by (simp_all add: push_header_eq)
      with that show False by simp
    qed
    then show ?thesis using push_header_extend [of "with_more d a" b] by simp
  qed
  obtain d0 r where h: "?h = (d0, r)" by fastforce
  show ?thesis
  proof (cases r)
    case (Ok u)
    then have h': "?h = (d0, Ok ())" using h by simp
    note hf = push_header_frame [OF this]
    have fail: "push_frames d0 = (d1, Fail e)"
      using core1 h' by (cases "push_frames d0"; cases "snd (push_frames d0)") auto
    then have used: "d_used d0 \<noteq> 0" by (auto simp: push_frames_def split: if_splits)
    then have "?h \<noteq> (with_more d a, Ok ()) \<or> d_used d \<noteq> 0" using h' by auto
    from ext [OF this] have "push_header (with_more d (a @ b)) = (with_more d0 b, Ok ())"
      using h' by simp
    moreover obtain d3 where "push_frames (with_more d0 b) = (d3, Fail bad_incremental)"
      using push_frames_resume_Fail [OF _ used fail, of b] False hf by auto
    ultimately show ?thesis using core by simp
  next
    case (Fail e')
    then show ?thesis using core ext h push_header_Fail [of "with_more d a"] by auto
  next
    case Panic
    then show ?thesis using push_header_no_panic h by metis
  qed
qed

text \<open>Pushing a body in pieces gives the outcome of pushing it at once.\<close>

lemma push_parts_concat:
  assumes "parts \<noteq> []"
  shows "snd (push_parts d parts) = snd (push_core d (concat parts) True)"
  using assms
proof (induction parts arbitrary: d)
  case Nil
  then show ?case by simp
next
  case (Cons p ps)
  show ?case
  proof (cases "ps = []")
    case True
    then show ?thesis
      by (cases "push_core d p True"; cases "snd (push_core d p True)") (auto simp: Push_def)
  next
    case False
    obtain d1 r where core: "push_core d p False = (d1, r)" by fastforce
    show ?thesis
    proof (cases r)
      case (Ok f1)
      obtain d2 r2 where c2: "push_core d1 (concat ps) True = (d2, r2)" by fastforce
      have ih: "snd (push_parts d1 ps) = r2" using Cons.IH [OF False, of d1] c2 by simp
      have "snd (push_core d (p @ concat ps) True) = (case r2 of Ok f2 \<Rightarrow> Ok (f1 @ f2) | _ \<Rightarrow> r2)"
        using push_core_append [of d p d1 f1 "concat ps" True] core Ok c2 push_core_no_panic
        by (cases r2) (fastforce+)
      moreover have "snd (push_parts d (p # ps)) = (case r2 of Ok f2 \<Rightarrow> Ok (f1 @ f2) | _ \<Rightarrow> r2)"
        using core Ok ih False
        by (cases "push_parts d1 ps"; cases r2) (auto simp: Push_def)
      ultimately show ?thesis by simp
    next
      case (Fail e)
      then show ?thesis
        using core False push_core_append_Fail [of d p d1 e "concat ps" True] push_core_Fail
        by (auto simp: Push_def)
    next
      case Panic
      then show ?thesis using core push_core_no_panic by metis
    qed
  qed
qed

section \<open>One push is one Decode\<close>

definition streamable :: "frame list \<Rightarrow> bool" where
  "streamable fs \<longleftrightarrow> list_all (\<lambda>f. \<not> OpenedK < Kind f) fs"

lemma push_frame_decode:
  assumes "d_used d = length (d_body d)" and "d_offset d + 16 \<le> d_used d" and "d_used d \<le> MaxCell"
  shows "push_frame d = Ok (Some f) \<longleftrightarrow>
      decode_frame (d_body d) (d_used d) (d_offset d) = Ok f \<and> \<not> 7 < Kind f"
    and "push_frame d \<noteq> Ok None"
proof -
  let ?body = "d_body d" and ?p = "d_offset d"
  define b n where "b = drop ?p ?body" and "n = unat (get_u32 (take 4 (drop 12 b)))"
  have len: "length b = d_used d - ?p" "16 \<le> length b" using assms by (auto simp: b_def)
  have eq: "push_frame d =
    (if \<not> window_ok d b then Fail bad_incremental
     else if length b < 16 + n then Ok None
     else Ok (Some \<lparr>Kind = b ! 0, Stream = get_u32 (take 4 (drop 4 b)),
       Sequence = get_u32 (take 4 (drop 8 b)), Body = take n (drop 16 b)\<rparr>))"
    by (rule push_frame_eq) (use assms in \<open>simp_all add: b_def n_def\<close>)
  have win: "window_ok d b \<longleftrightarrow> n + 16 \<le> length b \<and> b ! 0 \<noteq> 0 \<and> \<not> 7 < b ! 0 \<and> b ! 1 = 0
      \<and> b ! 2 = 0 \<and> b ! 3 = 0"
  proof -
    have "as_uint64 (int (d_used d) - int ?p - int FrameHeader) = int (length b) - 16"
      using len assms by simp
    moreover have "int n \<le> int (length b) - 16 \<longleftrightarrow> n + 16 \<le> length b" using len by auto
    ultimately show ?thesis unfolding window_ok_def n_def [symmetric] by simp
  qed
  have nth: "?body ! ?p = b ! 0" "?body ! (?p + 1) = b ! 1" "?body ! (?p + 2) = b ! 2"
    "?body ! (?p + 3) = b ! 3"
    using assms by (simp_all add: b_def)
  have rd: "take 4 (drop (?p + 12) ?body) = take 4 (drop 12 b)"
    "take 4 (drop (?p + 4) ?body) = take 4 (drop 4 b)"
    "take 4 (drop (?p + 8) ?body) = take 4 (drop 8 b)"
    "take n (drop (?p + 16) ?body) = take n (drop 16 b)"
    by (simp_all add: b_def add.commute)
  have "decode_frame ?body (d_used d) ?p =
     (if n > length b - 16 \<or> b ! 0 = 0 \<or> 9 < b ! 0 \<or> b ! 1 \<noteq> 0 \<or> b ! 2 \<noteq> 0 \<or> b ! 3 \<noteq> 0
      then Fail ''invalid carrier cell''
      else Ok \<lparr>Kind = b ! 0, Stream = get_u32 (take 4 (drop 4 b)),
       Sequence = get_u32 (take 4 (drop 8 b)), Body = take n (drop 16 b)\<rparr>)"
    using assms len rd nth by (auto simp: decode_frame_def n_def [symmetric] Let_def slice_def)
  moreover have "9 < k \<Longrightarrow> 7 < k" for k :: u8
    by (rule less_trans [of 7 9 k]) simp_all
  ultimately show "push_frame d = Ok (Some f) \<longleftrightarrow>
      decode_frame (d_body d) (d_used d) (d_offset d) = Ok f \<and> \<not> 7 < Kind f"
    using eq win len by auto
  show "push_frame d \<noteq> Ok None" using eq win by auto
qed

lemma push_loop_decode:
  assumes "d_used d = length (d_body d)" and "d_offset d \<le> d_used d" and "d_used d \<le> MaxCell"
    and "d_parsed d + c = d_count d"
  shows "(\<exists>d'. push_loop d gs = (d', Ok (gs @ fs)) \<and> d_parsed d' = d_count d \<and> d_offset d' = d_used d)
    \<longleftrightarrow> decode_frames (d_body d) (d_used d) (d_offset d) c = Ok (fs, d_used d) \<and> streamable fs"
  using assms
proof (induction c arbitrary: d gs fs)
  case 0
  then show ?case by (subst push_loop.simps) (auto simp: streamable_def)
next
  case (Suc c)
  let ?dec = "decode_frame (d_body d) (d_used d) (d_offset d)"
  show ?case
  proof (cases "d_offset d + 16 \<le> d_used d")
    case False
    then have "push_loop d gs = (d, Ok gs)" using Suc.prems by (subst push_loop.simps) simp
    moreover have "?dec = Fail ''invalid carrier cell''" using False by (simp add: decode_frame_def)
    ultimately show ?thesis using Suc.prems by auto
  next
    case True
    note pf = push_frame_decode [OF Suc.prems(1) True Suc.prems(3)]
    have guard: "d_parsed d < d_count d \<and> d_offset d + FrameHeader \<le> length (d_body d)"
      using True Suc.prems by simp
    show ?thesis
    proof (cases "push_frame d")
      case (Ok x)
      with pf(2) obtain f where f: "x = Some f" by (cases x) auto
      let ?d = "d\<lparr>d_offset := d_offset d + Size f, d_parsed := d_parsed d + 1\<rparr>"
      have dec: "?dec = Ok f" "\<not> 7 < Kind f" using pf(1) [of f] Ok f by auto
      have bound: "d_offset d + Size f \<le> d_used d"
        using decode_frame_Ok(2) [OF dec(1)] Suc.prems(1) by simp
      have loop: "push_loop d gs = push_loop ?d (gs @ [f])"
        using guard Ok f by (subst push_loop.simps) simp
      have ih: "(\<exists>d'. push_loop ?d (gs @ [f]) = (d', Ok ((gs @ [f]) @ hs)) \<and> d_parsed d' = d_count ?d
            \<and> d_offset d' = d_used ?d)
          \<longleftrightarrow> decode_frames (d_body ?d) (d_used ?d) (d_offset ?d) c = Ok (hs, d_used ?d) \<and> streamable hs"
        for hs
        by (rule Suc.IH) (use Suc.prems bound in auto)
      have acc: "\<exists>hs. zs = gs @ [f] @ hs" if "push_loop ?d (gs @ [f]) = (d', Ok zs)" for d' zs
        using that push_loop_acc [of ?d "gs @ [f]" "[]"]
        by (auto split: prod.splits outcome.splits)
      show ?thesis
      proof
        assume "\<exists>d'. push_loop d gs = (d', Ok (gs @ fs)) \<and> d_parsed d' = d_count d \<and> d_offset d' = d_used d"
        then obtain d' where d': "push_loop ?d (gs @ [f]) = (d', Ok (gs @ fs))"
            "d_parsed d' = d_count ?d" "d_offset d' = d_used ?d"
          unfolding loop by auto
        then obtain hs where "fs = f # hs" using acc by fastforce
        moreover have "\<exists>d'. push_loop ?d (gs @ [f]) = (d', Ok ((gs @ [f]) @ hs))
            \<and> d_parsed d' = d_count ?d \<and> d_offset d' = d_used ?d"
          using d' \<open>fs = f # hs\<close> by auto
        ultimately show "decode_frames (d_body d) (d_used d) (d_offset d) (Suc c) = Ok (fs, d_used d)
            \<and> streamable fs"
          using ih dec by (auto simp: streamable_def)
      next
        assume "decode_frames (d_body d) (d_used d) (d_offset d) (Suc c) = Ok (fs, d_used d)
            \<and> streamable fs"
        then obtain hs where "fs = f # hs" "streamable hs"
          "decode_frames (d_body d) (d_used d) (d_offset d + Size f) c = Ok (hs, d_used d)"
          using dec by (auto simp: and_then_Ok_iff streamable_def)
        then show "\<exists>d'. push_loop d gs = (d', Ok (gs @ fs)) \<and> d_parsed d' = d_count d
            \<and> d_offset d' = d_used d"
          using ih [of hs] loop by simp
      qed
    next
      case (Fail e)
      then have "push_loop d gs = (d, Fail e)" using guard by (subst push_loop.simps) simp
      moreover have "\<not> (?dec = Ok f \<and> \<not> 7 < Kind f)" for f using pf(1) [of f] Fail by simp
      ultimately show ?thesis by (auto simp: and_then_Ok_iff streamable_def)
    next
      case Panic
      then show ?thesis using push_frame_no_panic [of d] guard Suc.prems by simp
    qed
  qed
qed

definition header_ok :: "u32 \<Rightarrow> bytes \<Rightarrow> bool" where
  "header_ok seq b \<longleftrightarrow> 16 \<le> length b \<and> length b \<le> MaxCell \<and> take 4 b = to_bytes ''NFOX''
     \<and> get_u32 (take 4 (drop 4 b)) = seq \<and> b ! 14 = 0 \<and> b ! 15 = 0
     \<and> unat (get_u32 (take 4 (drop 8 b))) = length b \<and> unat (get_u16 (take 2 (drop 12 b))) \<le> 4096"

abbreviation after_header :: "u32 \<Rightarrow> bytes \<Rightarrow> StreamDecoder" where
  "after_header seq b \<equiv> \<lparr>d_sequence = seq, d_body = b, d_used = length b,
     d_count = unat (get_u16 (take 2 (drop 12 b))), d_offset = 16, d_parsed = 0, d_ended = False\<rparr>"

lemma push_tail_iff:
  assumes "d_used d \<noteq> 0"
  shows "snd (then_st (push_frames d) (\<lambda>d frames. push_final d True frames)) = Ok fs \<longleftrightarrow>
    length (d_body d) = d_used d \<and>
    (\<exists>d'. push_loop d [] = (d', Ok fs) \<and> d_parsed d' = d_count d \<and> d_offset d' = d_used d)"
proof -
  obtain d' r where l: "push_loop d [] = (d', r)" by fastforce
  note same = push_loop_frame [OF l]
  have eqs: "d_body d' = d_body d" "d_used d' = d_used d" "d_count d' = d_count d" using same by auto
  show ?thesis
  proof (cases r)
    case (Ok gs)
    consider "length (d_body d) > d_used d" | "length (d_body d) < d_used d" |
      "length (d_body d) = d_used d" by linarith
    then show ?thesis
      by cases (cases "d_parsed d' = d_count d"; cases "d_offset d' = d_used d";
        simp add: push_frames_def push_final_def assms l Ok eqs)+
  qed (cases "length (d_body d) > d_used d"; simp add: push_frames_def assms l)+
qed

lemma push_once_Ok_iff:
  "snd (push_core (NewStreamDecoder seq) b True) = Ok fs \<longleftrightarrow>
     header_ok seq b \<and> (\<exists>d'. push_loop (after_header seq b) [] = (d', Ok fs)
       \<and> d_parsed d' = d_count (after_header seq b) \<and> d_offset d' = length b)"
proof -
  define u c where "u = unat (get_u32 (take 4 (drop 8 b)))" and "c = unat (get_u16 (take 2 (drop 12 b)))"
  define d where "d = \<lparr>d_sequence = seq, d_body = b, d_used = u, d_count = c, d_offset = 16,
     d_parsed = 0, d_ended = False\<rparr>"
  define h where "h \<longleftrightarrow> 16 \<le> length b \<and> take 4 b = to_bytes ''NFOX'' \<and> get_u32 (take 4 (drop 4 b)) = seq
          \<and> b ! 14 = 0 \<and> b ! 15 = 0 \<and> 16 \<le> u \<and> u \<le> MaxCell \<and> c \<le> 4096"
  let ?n = "NewStreamDecoder seq" and ?k = "\<lambda>d. then_st (push_frames d) (\<lambda>d frames. push_final d True frames)"
  have none: "snd (then_st (push_header (with_more ?n b)) (\<lambda>d _. ?k d)) \<noteq> Ok fs" if "\<not> h"
  proof (cases "16 \<le> length b")
    case True
    with that have "\<not> (take 4 b = to_bytes ''NFOX'' \<and> get_u32 (take 4 (drop 4 b)) = seq
        \<and> b ! 14 = 0 \<and> b ! 15 = 0 \<and> 16 \<le> u \<and> u \<le> MaxCell \<and> c \<le> 4096)"
      by (simp add: h_def)
    then have "snd (push_header (with_more ?n b)) = Fail bad_incremental"
      using True
      by (simp only: push_header_eq NewStreamDecoder_def Let_def StreamDecoder.simps append_Nil
          u_def [symmetric] c_def [symmetric] simp_thms if_False if_True snd_conv)
    then show ?thesis by (cases "push_header (with_more ?n b)") auto
  next
    case False
    then show ?thesis
      by (simp add: push_header_eq NewStreamDecoder_def push_frames_def push_final_def)
  qed
  have some: "push_header (with_more ?n b) = (d, Ok ())" if "h"
    using that
    by (simp add: push_header_eq NewStreamDecoder_def Let_def h_def u_def [symmetric] c_def [symmetric] d_def)
  have core: "snd (push_core ?n b True) = Ok fs \<longleftrightarrow> length b \<le> MaxCell \<and> h \<and> snd (?k d) = Ok fs"
    using none some
    by (cases h) (auto simp: push_core_def NewStreamDecoder_def)
  have tail: "snd (?k d) = Ok fs \<longleftrightarrow> length b = u \<and>
      (\<exists>d'. push_loop d [] = (d', Ok fs) \<and> d_parsed d' = c \<and> d_offset d' = u)" if "h"
    using push_tail_iff [of d fs] that by (simp add: d_def h_def)
  have "header_ok seq b \<longleftrightarrow> length b \<le> MaxCell \<and> h \<and> u = length b"
    by (auto simp: header_ok_def h_def u_def c_def)
  moreover have "d = after_header seq b" if "u = length b"
    using that by (simp add: d_def c_def)
  ultimately show ?thesis
    using core tail by (auto simp: c_def)
qed

lemma Decode_used_iff:
  "Decode b = Ok (seq, fs, 0) \<longleftrightarrow> header_ok seq b \<and>
     decode_frames b (length b) 16 (unat (get_u16 (take 2 (drop 12 b)))) = Ok (fs, length b)"
proof -
  define u c where "u = unat (get_u32 (take 4 (drop 8 b)))" and "c = unat (get_u16 (take 2 (drop 12 b)))"
  have room: "c \<le> (length b - 16) div 16"
    if "decode_frames b (length b) 16 c = Ok (fs, length b)" "16 \<le> length b"
    using decode_frames_Ok(2,4) [OF that(1) _ that(2)] total_size_ge_length [of fs] by simp
  show ?thesis
  proof (cases "16 \<le> length b \<and> length b \<le> MaxCell")
    case False
    then show ?thesis by (auto simp: Decode_def header_ok_def)
  next
    case True
    have "Decode b = (if take 4 b \<noteq> to_bytes ''NFOX'' \<or> b ! 15 \<noteq> 0 \<or> b ! 14 \<noteq> 0
        \<or> u < 16 \<or> u > length b \<or> c > 4096 \<or> c > (u - 16) div 16 then Fail ''invalid carrier cell''
       else and_then (decode_frames b u 16 c) (\<lambda>(frames, pos).
         if pos \<noteq> u then Fail ''invalid carrier cell''
         else Ok (get_u32 (take 4 (drop 4 b)), frames, length b - u)))"
      using True unfolding u_def c_def by (auto simp: Decode_def Let_def)
    moreover have "header_ok seq b \<longleftrightarrow> take 4 b = to_bytes ''NFOX'' \<and> get_u32 (take 4 (drop 4 b)) = seq
        \<and> b ! 14 = 0 \<and> b ! 15 = 0 \<and> u = length b \<and> c \<le> 4096"
      using True by (simp add: header_ok_def u_def c_def)
    ultimately show ?thesis
      unfolding c_def [symmetric] using True room
      by (cases "decode_frames b u 16 c") (auto split: if_splits)
  qed
qed

section \<open>Properties\<close>

text \<open>
  C5. Refinement: whatever pieces a response body arrives in, the incremental decoder
  accepts it exactly when the one-shot \<open>Decode\<close> does (with no filler and no carrier
  acknowledgement or hello frame), for the expected sequence, and it then has returned
  exactly the same frames in the same order.
\<close>

theorem push_parts_refines_Decode:
  assumes "parts \<noteq> []"
  shows "snd (push_parts (NewStreamDecoder seq) parts) = Ok fs \<longleftrightarrow>
    Decode (concat parts) = Ok (seq, fs, 0) \<and> streamable fs"
proof -
  let ?b = "concat parts" and ?d = "after_header seq (concat parts)"
  have loop: "(\<exists>d'. push_loop ?d [] = (d', Ok ([] @ fs)) \<and> d_parsed d' = d_count ?d
        \<and> d_offset d' = d_used ?d)
      \<longleftrightarrow> decode_frames (d_body ?d) (d_used ?d) (d_offset ?d) (d_count ?d) = Ok (fs, d_used ?d)
        \<and> streamable fs" if "header_ok seq ?b"
    by (rule push_loop_decode) (use that in \<open>simp_all add: header_ok_def\<close>)
  show ?thesis
    unfolding push_parts_concat [OF assms] push_once_Ok_iff Decode_used_iff
    using loop by auto
qed

theorem push_parts_refines_Decode_witness:
  "snd (push_parts (NewStreamDecoder 5)
     [to_bytes ''NFO'', to_bytes ''X'' @ [0, 0, 0, 5, 0, 0, 0, 34, 0, 1, 0, 0, 2, 0, 0, 0, 0, 0, 0, 1],
      [0, 0, 0, 0, 0, 0, 0, 2, 65], [66]])
   = Ok [\<lparr>Kind = 2, Stream = 1, Sequence = 0, Body = [65, 66]\<rparr>]"
proof -
  let ?f = "\<lparr>Kind = 2, Stream = 1, Sequence = 0, Body = [65, 66]\<rparr> :: frame"
  let ?parts = "[to_bytes ''NFO'', to_bytes ''X'' @ [0, 0, 0, 5, 0, 0, 0, 34, 0, 1, 0, 0, 2, 0, 0, 0, 0, 0, 0, 1],
      [0, 0, 0, 0, 0, 0, 0, 2, 65], [66]]"
  have "concat ?parts = layout 5 [?f] []"
    by code_simp
  then have "Decode (concat ?parts) = Ok (5, [?f], 0)"
    using Decode_layout [of "[?f]" "[]" 5] by (simp add: kind_ok_iff Size_def)
  then show ?thesis
    using push_parts_refines_Decode [of ?parts 5 "[?f]"] by (simp add: streamable_def)
qed

text \<open>
  C6. The incremental decoder never panics, whatever bytes it is fed and in whatever state
  it is, and every error it returns ends it: each later push fails as well.
\<close>

theorem Push_no_panic_and_sticky:
  "snd (Push d part final) \<noteq> Panic \<and>
   (snd (Push d part final) = Fail e \<longrightarrow>
     (\<forall>part' final'. snd (Push (fst (Push d part final)) part' final') = Fail bad_incremental))"
proof -
  obtain d' r where core: "push_core d part final = (d', r)" by fastforce
  then show ?thesis
    using push_core_no_panic [of d part final d']
    by (cases r) (auto simp: Push_def push_core_def [of "d'\<lparr>d_ended := True\<rparr>"])
qed

theorem Push_no_panic_and_sticky_witness:
  "snd (Push (fst (Push (NewStreamDecoder 0) [] True)) [7] False) = Fail bad_incremental"
proof -
  have "snd (Push (NewStreamDecoder 0) [] True) = Fail bad_incremental"
    by (simp add: Push_def push_core_def push_header_eq push_frames_def push_final_def
        NewStreamDecoder_def)
  then show ?thesis
    using Push_no_panic_and_sticky [of "NewStreamDecoder 0" "[]" True bad_incremental]
    by blast
qed

end
