(* ===== verification/Mux.thy ===== *)
theory Mux
  imports Cell Go_Std "HOL-Library.AList"
begin

text \<open>
  The stream multiplexer of \<^verbatim>\<open>internal/mux/peer.go\<close>. A \<open>peer\<close> keeps the active streams, the
  round-robin order and a cursor; every operation that runs under the peer's mutex is one
  function on this state. The goroutines of a stream (dial, read, write) are the atomic
  steps between their blocking points: their local variables are the fields \<open>reader\<close>,
  \<open>writer\<close> and \<open>dialing\<close> of the stream. \<open>retired\<close> keeps the stream objects that
  \<open>removeStream\<close> took out of the map and that goroutines may still refer to; stream ids
  are never reused, so an id names one object.
\<close>

section \<open>State\<close>

definition streamChunk :: nat where [simp]: "streamChunk = 16 * 1024"

record Stats =
  HTTP3 :: bool
  WebSocket :: bool
  StartupUp :: u32
  StartupDown :: u32
  ReceiveWindow :: u32
  OpenedN :: u64
  ResetN :: u64
  Received :: u64
  Sent :: u64
  Delivered :: u64
  PeakStreams :: nat

datatype read_err = NoErr | EOF | ReadErr

text \<open>Where the two goroutines of a stream are blocked, with what they hold.\<close>

datatype reader_pc = R_none | R_read | R_send frame read_err | R_fin frame | R_done
datatype writer_pc = W_none | W_loop | W_wait | W_write frame bytes | W_fin | W_done

record stream =
  sid :: u32
  ctx_done :: bool
  conn_set :: bool
  conn_closed :: bool
  input_q :: "frame list"
  inputReady :: bool
  output_q :: "frame list"
  pending :: "frame option"
  open_frame :: "frame option"
  ack :: bool
  reset :: bool
  credit :: u32
  budget :: u32
  grant :: u32
  nextIn :: u32
  nextOut :: u32
  remoteFin :: bool
  remoteFinWritten :: bool
  localFinSent :: bool
  queuedBytes :: int
  reader :: reader_pc
  writer :: writer_pc
  dialing :: "string option"

record peer =
  has_dial :: bool
  window :: u32
  send :: u32
  streams :: "(u32 \<times> stream) list"
  retired :: "(u32 \<times> stream) list"
  order :: "u32 list"
  cursor :: nat
  highest :: u32
  peer_closed :: bool
  stats :: Stats
  changes :: bool

section \<open>Construction and small operations\<close>

definition newPeer :: "bool \<Rightarrow> u32 \<Rightarrow> peer" where
  "newPeer dial w = \<lparr>has_dial = dial, window = w, send = w, streams = [], retired = [],
     order = [], cursor = 0, highest = 0, peer_closed = False,
     stats = \<lparr>HTTP3 = False, WebSocket = False, StartupUp = 0, StartupDown = 0,
       ReceiveWindow = w, OpenedN = 0, ResetN = 0, Received = 0, Sent = 0, Delivered = 0,
       PeakStreams = 0\<rparr>, changes = False\<rparr>"

definition New :: "bool \<Rightarrow> peer" where "New dial = newPeer dial Window"
definition NewHTTP3 :: "bool \<Rightarrow> peer" where "NewHTTP3 dial = newPeer dial HTTP3Window"
definition NewPacket :: "bool \<Rightarrow> peer" where
  "NewPacket dial = (newPeer dial HTTP3Window)\<lparr>send := PacketWindow\<rparr>"

definition notify :: "peer \<Rightarrow> peer" where
  "notify p = p\<lparr>changes := True\<rparr>"

definition close_stream :: "stream \<Rightarrow> stream" where
  "close_stream s = s\<lparr>ctx_done := True, conn_closed := conn_closed s \<or> conn_set s\<rparr>"

text \<open>The object an id refers to, for the peer and for the goroutines.\<close>

definition obj :: "peer \<Rightarrow> u32 \<Rightarrow> stream option" where
  "obj p k = (case map_of (streams p) k of Some s \<Rightarrow> Some s | None \<Rightarrow> map_of (retired p) k)"

definition set_obj :: "peer \<Rightarrow> u32 \<Rightarrow> stream \<Rightarrow> peer" where
  "set_obj p k s =
     (if map_of (streams p) k \<noteq> None then p\<lparr>streams := AList.update k s (streams p)\<rparr>
      else p\<lparr>retired := AList.update k s (retired p)\<rparr>)"

definition blank_stream :: "peer \<Rightarrow> u32 \<Rightarrow> stream" where
  "blank_stream p k = \<lparr>sid = k, ctx_done = False, conn_set = False, conn_closed = False,
     input_q = [], inputReady = False, output_q = [], pending = None, open_frame = None,
     ack = False, reset = False, credit = send p, budget = window p, grant = 0, nextIn = 0,
     nextOut = 0, remoteFin = False, remoteFinWritten = False, localFinSent = False,
     queuedBytes = 0, reader = R_none, writer = W_none, dialing = None\<rparr>"

definition newStream :: "peer \<Rightarrow> stream \<Rightarrow> peer" where
  "newStream p s =
     (let p = p\<lparr>streams := AList.update (sid s) s (streams p), order := order p @ [sid s]\<rparr>;
          st = (stats p)\<lparr>OpenedN := OpenedN (stats p) + 1\<rparr>;
          st = (if length (streams p) > PeakStreams st
                then st\<lparr>PeakStreams := length (streams p)\<rparr> else st)
      in p\<lparr>stats := st\<rparr>)"

definition index_of :: "u32 \<Rightarrow> u32 list \<Rightarrow> nat option" where
  "index_of k xs =
     (let i = length (takeWhile (\<lambda>x. x \<noteq> k) xs) in if i < length xs then Some i else None)"

definition removeStream :: "peer \<Rightarrow> u32 \<Rightarrow> peer" where
  "removeStream p k =
     (let p = (case map_of (streams p) k of
                 None \<Rightarrow> p
               | Some s \<Rightarrow> p\<lparr>streams := AList.delete k (streams p),
                   retired := AList.update k s (retired p)\<rparr>)
      in case index_of k (order p) of
           None \<Rightarrow> p
         | Some i \<Rightarrow>
             let ids = take i (order p) @ drop (i + 1) (order p);
                 c = (if i < cursor p then cursor p - 1 else cursor p);
                 c = (if c \<ge> length ids then 0 else c)
             in p\<lparr>order := ids, cursor := c\<rparr>)"

text \<open>
  \<open>attach\<close> starts the two goroutines of a stream, unless the stream was cancelled while
  the connection was being made. \<open>fail\<close> marks a stream for RESET and closes it.
\<close>

definition attach :: "stream \<Rightarrow> stream" where
  "attach s =
     (if ctx_done s then s\<lparr>conn_closed := True\<rparr>
      else s\<lparr>conn_set := True, reader := R_read, writer := W_loop\<rparr>)"

definition fail :: "peer \<Rightarrow> u32 \<Rightarrow> stream \<Rightarrow> peer" where
  "fail p k s =
     (let p = (if reset s then p else p\<lparr>stats := (stats p)\<lparr>ResetN := ResetN (stats p) + 1\<rparr>\<rparr>)
      in notify (set_obj p k (close_stream (s\<lparr>reset := True\<rparr>))))"

definition Open :: "peer \<Rightarrow> string \<Rightarrow> peer \<times> (string, u32) outcome" where
  "Open p authority =
     (if peer_closed p \<or> has_dial p \<or> length (streams p) \<ge> MaxStreams \<or> length authority > 512
         \<or> highest p = - 1
      then (p, Fail ''stream limit'')
      else
        let p = p\<lparr>highest := highest p + 1\<rparr>;
            s = blank_stream p (highest p);
            s = s\<lparr>open_frame := Some \<lparr>Kind = OpenK, Stream = sid s, Sequence = 0,
                   Body = to_bytes authority\<rparr>\<rparr>;
            p = newStream p (attach s)
        in (notify p, Ok (highest p)))"

section \<open>Receive\<close>

text \<open>
  \<open>enqueueData\<close> copies a DATA body into chunks of at most \<open>streamChunk\<close> bytes. A tail longer
  than a chunk would make the source slice with a negative length, which panics.
\<close>

function enqueue_loop :: "frame list \<Rightarrow> frame \<Rightarrow> nat \<Rightarrow> (string, frame list) outcome" where
  "enqueue_loop inp f offset =
     (if offset < length (Body f) then
        let inp = (if inp = [] \<or> length (Body (last inp)) = streamChunk
                   then inp @ [\<lparr>Kind = DataK, Stream = Stream f,
                          Sequence = Sequence f + of_nat offset, Body = []\<rparr>]
                   else inp);
            tail = last inp
        in if length (Body tail) > streamChunk then Panic
           else
             let n = min (streamChunk - length (Body tail)) (length (Body f) - offset)
             in enqueue_loop
                  (butlast inp @ [tail\<lparr>Body := Body tail @ take n (drop offset (Body f))\<rparr>])
                  f (offset + n)
      else Ok inp)"
  by pat_completeness auto
termination
  by (relation "measure (\<lambda>(inp, f, offset). length (Body f) - offset)") (auto split: if_splits)

declare enqueue_loop.simps [simp del]

definition enqueueData :: "frame list \<Rightarrow> frame \<Rightarrow> (string, frame list) outcome" where
  "enqueueData inp f = enqueue_loop inp f 0"

definition receive_open :: "peer \<Rightarrow> frame \<Rightarrow> peer \<times> (string, unit) outcome" where
  "receive_open p f =
     (if \<not> has_dial p \<or> Stream f \<le> highest p \<or> Sequence f \<noteq> 0 \<or> length (Body f) = 0
         \<or> length (Body f) > 512 \<or> length (streams p) \<ge> MaxStreams
      then (p, Fail ''invalid stream open'')
      else case SplitHostPort (to_string (Body f)) of
        Ok _ \<Rightarrow>
          let p = p\<lparr>highest := Stream f\<rparr>;
              s = blank_stream p (Stream f)
          in (newStream p (s\<lparr>dialing := Some (to_string (Body f))\<rparr>), Ok ())
      | _ \<Rightarrow> (p, Fail ''invalid authority''))"

definition receive_data :: "peer \<Rightarrow> stream \<Rightarrow> frame \<Rightarrow> peer \<times> (string, unit) outcome" where
  "receive_data p s f =
     (if remoteFin s \<or> Sequence f \<noteq> nextIn s \<or> length (Body f) = 0
         \<or> length (Body f) > unat (budget s)
      then (p, Fail ''data sequence or credit'')
      else case enqueueData (input_q s) f of
        Ok inp \<Rightarrow>
          let n = length (Body f);
              s = s\<lparr>input_q := inp, nextIn := nextIn s + of_nat n, budget := budget s - of_nat n,
                    inputReady := True\<rparr>;
              p = set_obj p (Stream f) s
          in (p\<lparr>stats := (stats p)\<lparr>Received := Received (stats p) + of_nat n\<rparr>\<rparr>, Ok ())
      | Fail e \<Rightarrow> (p, Fail e)
      | Panic \<Rightarrow> (p, Panic))"

definition receive_fin :: "peer \<Rightarrow> stream \<Rightarrow> frame \<Rightarrow> peer \<times> (string, unit) outcome" where
  "receive_fin p s f =
     (if remoteFin s \<or> length (Body f) \<noteq> 0 \<or> Sequence f \<noteq> nextIn s
      then (p, Fail ''fin sequence'')
      else (set_obj p (Stream f) (s\<lparr>input_q := input_q s @ [f], remoteFin := True, inputReady := True\<rparr>),
            Ok ()))"

definition receive_reset :: "peer \<Rightarrow> stream \<Rightarrow> frame \<Rightarrow> peer \<times> (string, unit) outcome" where
  "receive_reset p s f =
     (if length (Body f) \<noteq> 0 \<or> Sequence f \<noteq> 0 then (p, Fail ''reset format'')
      else
        let p = removeStream (set_obj p (Stream f) (close_stream s)) (sid s)
        in (p\<lparr>stats := (stats p)\<lparr>ResetN := ResetN (stats p) + 1\<rparr>\<rparr>, Ok ()))"

definition receive_credit :: "peer \<Rightarrow> stream \<Rightarrow> frame \<Rightarrow> peer \<times> (string, unit) outcome" where
  "receive_credit p s f =
     (if length (Body f) \<noteq> 4 \<or> Sequence f \<noteq> 0 then (p, Fail ''credit format'')
      else
        let g = get_u32 (Body f)
        in if g = 0 \<or> g > send p - credit s then (p, Fail ''credit overflow'')
           else (set_obj p (Stream f) (s\<lparr>credit := credit s + g\<rparr>), Ok ()))"

definition receive_opened :: "peer \<Rightarrow> frame \<Rightarrow> peer \<times> (string, unit) outcome" where
  "receive_opened p f =
     (if has_dial p \<or> Sequence f \<noteq> 0 \<or> length (Body f) \<noteq> 0
      then (p, Fail ''open acknowledgement'') else (p, Ok ()))"

definition receive_frame :: "peer \<Rightarrow> frame \<Rightarrow> peer \<times> (string, unit) outcome" where
  "receive_frame p f =
     (if Kind f = AckK then (p, Fail ''unexpected carrier acknowledgement'')
      else if Stream f = 0 then (p, Fail ''zero stream'')
      else if Kind f = OpenK then receive_open p f
      else case map_of (streams p) (Stream f) of
        None \<Rightarrow>
          if Stream f \<le> highest p \<and> Kind f \<noteq> AuthK then (p, Ok ())
          else (p, Fail ''unknown stream'')
      | Some s \<Rightarrow>
          if Kind f = DataK then receive_data p s f
          else if Kind f = FinK then receive_fin p s f
          else if Kind f = ResetK then receive_reset p s f
          else if Kind f = CreditK then receive_credit p s f
          else if Kind f = OpenedK then receive_opened p f
          else (p, Fail ''unexpected frame''))"

fun receive_loop :: "peer \<Rightarrow> frame list \<Rightarrow> peer \<times> (string, unit) outcome" where
  "receive_loop p [] = (p, Ok ())"
| "receive_loop p (f # fs) = then_st (receive_frame p f) (\<lambda>p _. receive_loop p fs)"

definition Receive :: "peer \<Rightarrow> frame list \<Rightarrow> peer \<times> (string, unit) outcome" where
  "Receive p frames =
     (if peer_closed p then (p, Fail ''closed peer'')
      else then_st (receive_loop p frames) (\<lambda>p _.
        (if frames \<noteq> [] then notify p else p, Ok ())))"

section \<open>Take\<close>

text \<open>Both directions are finished and no credit is left to return.\<close>

definition finished :: "stream \<Rightarrow> bool" where
  "finished s \<longleftrightarrow> localFinSent s \<and> remoteFinWritten s \<and> grant s = 0"

text \<open>The non-blocking receive from the output channel into \<open>pending\<close>.\<close>

definition load_pending :: "stream \<Rightarrow> stream" where
  "load_pending s =
     (case pending s of
        Some f \<Rightarrow> s
      | None \<Rightarrow> (case output_q s of [] \<Rightarrow> s | f # fs \<Rightarrow> s\<lparr>pending := Some f, output_q := fs\<rparr>))"

definition count_sent :: "nat \<Rightarrow> peer \<Rightarrow> peer" where
  "count_sent n p = p\<lparr>stats := (stats p)\<lparr>Sent := Sent (stats p) + of_nat n\<rparr>\<rparr>"

text \<open>
  The default case: up to \<open>bud - FrameHeader\<close> bytes of the pending DATA frame, within the
  stream's credit, or the pending FIN. The result is the stream, the frame and the number
  of payload bytes sent.
\<close>

definition take_queued :: "stream \<Rightarrow> int \<Rightarrow> bool \<Rightarrow> stream \<times> frame option \<times> nat" where
  "take_queued s bud controlsOnly =
     (let s = load_pending s in
      case pending s of
        None \<Rightarrow> (s, None, 0)
      | Some f \<Rightarrow>
          if Kind f = DataK then
            if controlsOnly then (s, None, 0)
            else
              let n = nat (min (int (length (Body f))) (min (bud - int FrameHeader) (uint (credit s))))
              in if n > 0 then
                   let rest = f\<lparr>Body := drop n (Body f), Sequence := Sequence f + of_nat n\<rparr>
                   in (s\<lparr>pending := (if Body rest = [] then None else Some rest),
                         credit := credit s - of_nat n, queuedBytes := queuedBytes s - int n\<rparr>,
                       Some (f\<lparr>Body := take n (Body f)\<rparr>), n)
                 else (s, None, 0)
          else (s\<lparr>pending := None, localFinSent := True\<rparr>, Some f, 0))"

text \<open>The switch of the loop body for a stream that is not finished.\<close>

definition take_frame ::
  "peer \<Rightarrow> u32 \<Rightarrow> stream \<Rightarrow> int \<Rightarrow> bool \<Rightarrow> peer \<times> stream \<times> frame option" where
  "take_frame p k s bud controlsOnly =
     (if reset s then
        (removeStream p k, s, Some \<lparr>Kind = ResetK, Stream = k, Sequence = 0, Body = []\<rparr>)
      else case open_frame s of
        Some f \<Rightarrow>
          if int (Size f) \<le> bud
          then let s = s\<lparr>open_frame := None\<rparr> in (set_obj p k s, s, Some f)
          else (p, s, None)
      | None \<Rightarrow>
          if ack s then
            let s = s\<lparr>ack := False\<rparr>
            in (set_obj p k s, s, Some \<lparr>Kind = OpenedK, Stream = k, Sequence = 0, Body = []\<rparr>)
          else if grant s > 0 \<and> bud \<ge> int FrameHeader + 4 then
            let f = \<lparr>Kind = CreditK, Stream = k, Sequence = 0, Body = Uint32 (grant s)\<rparr>;
                s = s\<lparr>grant := 0\<rparr>
            in (set_obj p k s, s, Some f)
          else
            let (s, f, n) = take_queued s bud controlsOnly
            in (count_sent n (set_obj p k s), s, f))"

text \<open>Closing and removing a stream both of whose directions are finished.\<close>

definition retire :: "peer \<Rightarrow> u32 \<Rightarrow> stream \<Rightarrow> peer" where
  "retire p k s = removeStream (set_obj p k (close_stream s)) k"

lemma order_set_obj [simp]: "order (set_obj p k s) = order p"
  and cursor_set_obj [simp]: "cursor (set_obj p k s) = cursor p"
  by (simp_all add: set_obj_def)

lemma order_count_sent [simp]: "order (count_sent n p) = order p"
  by (simp add: count_sent_def)

lemma take_frame_None_order: "take_frame p k s bud c = (p', s', None) \<Longrightarrow> order p' = order p"
  by (auto simp: take_frame_def Let_def split: if_splits option.splits prod.splits)

lemma index_of_Some: "index_of k xs = Some i \<Longrightarrow> i < length xs \<and> xs ! i = k"
  unfolding index_of_def Let_def
  by (metis (mono_tags, lifting) nth_length_takeWhile option.distinct(1) option.inject)

lemma index_of_mem: "k \<in> set xs \<Longrightarrow> \<exists>i. index_of k xs = Some i"
proof -
  assume "k \<in> set xs"
  then have "length (takeWhile (\<lambda>x. x \<noteq> k) xs) < length xs" by (induction xs) auto
  then show ?thesis by (simp add: index_of_def)
qed

lemma length_order_removeStream:
  "k \<in> set (order p) \<Longrightarrow> length (order (removeStream p k)) < length (order p)"
  using index_of_mem [of k "order p"]
  by (auto simp: removeStream_def Let_def split: option.splits dest!: index_of_Some)

lemma length_order_removeStream_le: "length (order (removeStream p k)) \<le> length (order p)"
  by (auto simp: removeStream_def Let_def split: option.splits dest!: index_of_Some)

function take_loop ::
  "peer \<Rightarrow> int \<Rightarrow> bool \<Rightarrow> nat \<Rightarrow> frame list \<Rightarrow> peer \<times> frame list" where
  "take_loop p bud controlsOnly misses frames =
     (if bud \<ge> int FrameHeader \<and> length (order p) > 0 \<and> misses < length (order p)
         \<and> length frames < 4096
      then
        let c = cursor p mod length (order p);
            k = order p ! c;
            q = p\<lparr>cursor := c + 1\<rparr>
        in case map_of (streams q) k of
             None \<Rightarrow> take_loop q bud controlsOnly (misses + 1) frames
           | Some s \<Rightarrow>
               if finished s then take_loop (retire q k s) bud controlsOnly misses frames
               else case take_frame q k s bud controlsOnly of
                 (q', s', None) \<Rightarrow> take_loop q' bud controlsOnly (misses + 1) frames
               | (q', s', Some f) \<Rightarrow>
                   take_loop (if finished s' then retire q' k s' else q')
                     (bud - int (Size f)) controlsOnly 0 (frames @ [f])
      else (p, frames))"
  by pat_completeness auto
termination
proof (relation "measures [\<lambda>(p, b, c, m, fs). 4096 - length fs, \<lambda>(p, b, c, m, fs). length (order p),
    \<lambda>(p, b, c, m, fs). length (order p) - m]", goal_cases)
  case 1
  show ?case by simp
next
  case (2 p bud c misses frames i k q)
  then show ?case by auto
next
  case (3 p bud c misses frames i k q s)
  have "k \<in> set (order q)" using 3 by simp
  then show ?case
    using length_order_removeStream [of k "set_obj q k (close_stream s)"] 3 by (simp add: retire_def)
next
  case (4 p bud c misses frames i k q s q' y s' )
  then show ?case using take_frame_None_order [of q k s bud c q' s'] by auto
next
  case (5 p bud c misses frames i k q s q' y s' f)
  then show ?case by auto
qed

declare take_loop.simps [simp del]

definition take_frames :: "peer \<Rightarrow> int \<Rightarrow> bool \<Rightarrow> peer \<times> frame list" where
  "take_frames p bud controlsOnly =
     (if peer_closed p then (p, []) else take_loop p bud controlsOnly 0 [])"

definition Take :: "peer \<Rightarrow> int \<Rightarrow> peer \<times> frame list" where
  "Take p bud = take_frames p bud False"

definition TakeControls :: "peer \<Rightarrow> int \<Rightarrow> peer \<times> frame list" where
  "TakeControls p bud = take_frames p bud True"

section \<open>Pressure\<close>

record Pressure =
  FrameOverhead :: int
  Streams :: nat
  Readable :: nat
  Bytes :: int
  Queued :: int
  Controls :: nat
  OpenedP :: nat

definition stream_ready :: "int \<Rightarrow> stream \<Rightarrow> int" where
  "stream_ready floor s =
     (let ready = min (queuedBytes s) (uint (credit s))
      in if reset s \<or> localFinSent s \<or> (ready < floor \<and> queuedBytes s > ready) then 0 else ready)"

definition only_control_queued :: "stream \<Rightarrow> bool" where
  "only_control_queued s \<longleftrightarrow> queuedBytes s = 0 \<and> (pending s \<noteq> None \<or> length (output_q s) > 0)"

definition stream_overhead :: "int \<Rightarrow> stream \<Rightarrow> int" where
  "stream_overhead floor s =
     (let ready = stream_ready floor s in
      (if ready > 0
       then ((ready + int streamChunk - 1) div int streamChunk + 1) * int FrameHeader else 0)
      + (case open_frame s of None \<Rightarrow> 0 | Some f \<Rightarrow> int (Size f))
      + (if ack s then int FrameHeader else 0)
      + (if reset s then int FrameHeader else 0)
      + (if grant s > 0 then int FrameHeader + 4 else 0)
      + (if only_control_queued s then int FrameHeader else 0))"

definition add_pressure :: "int \<Rightarrow> stream \<Rightarrow> Pressure \<Rightarrow> Pressure" where
  "add_pressure floor s st =
     st\<lparr>Readable := Readable st + (if \<not> localFinSent s \<and> \<not> reset s then 1 else 0),
        Bytes := Bytes st + stream_ready floor s,
        FrameOverhead := FrameOverhead st + stream_overhead floor s,
        OpenedP := OpenedP st + (if ack s then 1 else 0),
        Queued := Queued st + queuedBytes s,
        Controls := Controls st
          + (if open_frame s \<noteq> None \<or> ack s \<or> reset s \<or> grant s > 0 \<or> only_control_queued s
             then 1 else 0)\<rparr>"

definition pressure :: "peer \<Rightarrow> int \<Rightarrow> Pressure" where
  "pressure p floor =
     fold (add_pressure floor) (map snd (streams p))
       \<lparr>FrameOverhead = 0, Streams = length (streams p), Readable = 0, Bytes = 0, Queued = 0,
        Controls = 0, OpenedP = 0\<rparr>"

definition PressureWithCreditFloor :: "peer \<Rightarrow> int \<Rightarrow> Pressure" where
  "PressureWithCreditFloor p floor = pressure p floor"

section \<open>Goroutines\<close>

text \<open>The goroutine that dials the target of an OPEN frame: \<open>ok\<close> is the dial's result.\<close>

definition dial_done :: "peer \<Rightarrow> u32 \<Rightarrow> stream \<Rightarrow> bool \<Rightarrow> peer" where
  "dial_done p k s ok =
     (let s = s\<lparr>dialing := None\<rparr> in
      if ok then notify (set_obj p k (attach (s\<lparr>ack := True\<rparr>))) else fail p k s)"

text \<open>
  \<open>read\<close>: the connection returned \<open>data\<close> (at most a chunk) and \<open>e\<close>; the reader then offers
  the DATA frame to the output channel, which holds sixteen frames, and looks at \<open>e\<close> only
  after the frame was taken.
\<close>

definition read_after :: "peer \<Rightarrow> u32 \<Rightarrow> stream \<Rightarrow> read_err \<Rightarrow> peer" where
  "read_after p k s e =
     (case e of
        NoErr \<Rightarrow> set_obj p k (s\<lparr>reader := R_read\<rparr>)
      | EOF \<Rightarrow> set_obj p k (s\<lparr>reader :=
          R_fin \<lparr>Kind = FinK, Stream = sid s, Sequence = nextOut s, Body = []\<rparr>\<rparr>)
      | ReadErr \<Rightarrow>
          if ctx_done s then set_obj p k (s\<lparr>reader := R_done\<rparr>)
          else fail p k (s\<lparr>reader := R_done\<rparr>))"

definition read_return :: "peer \<Rightarrow> u32 \<Rightarrow> stream \<Rightarrow> bytes \<Rightarrow> read_err \<Rightarrow> peer" where
  "read_return p k s data e =
     (if length data > 0 then
        set_obj p k (s\<lparr>queuedBytes := queuedBytes s + int (length data), reader :=
          R_send \<lparr>Kind = DataK, Stream = sid s, Sequence = nextOut s, Body = data\<rparr> e\<rparr>)
      else read_after p k s e)"

definition read_sent :: "peer \<Rightarrow> u32 \<Rightarrow> stream \<Rightarrow> frame \<Rightarrow> read_err \<Rightarrow> peer" where
  "read_sent p k s f e =
     (let s = s\<lparr>output_q := output_q s @ [f], nextOut := nextOut s + of_nat (length (Body f))\<rparr>
      in notify (read_after p k s e))"

definition read_cancelled :: "peer \<Rightarrow> u32 \<Rightarrow> stream \<Rightarrow> frame \<Rightarrow> peer" where
  "read_cancelled p k s f =
     set_obj p k (s\<lparr>queuedBytes := queuedBytes s - int (length (Body f)), reader := R_done\<rparr>)"

definition read_fin_sent :: "peer \<Rightarrow> u32 \<Rightarrow> stream \<Rightarrow> frame \<Rightarrow> peer" where
  "read_fin_sent p k s f =
     notify (set_obj p k (s\<lparr>output_q := output_q s @ [f], reader := R_done\<rparr>))"

text \<open>
  \<open>write\<close>: the locked section at the top of the loop, the wake-up, one \<^verbatim>\<open>conn.Write\<close> of \<open>n\<close>
  bytes, the accounting after a complete chunk, and the half-close after a FIN.
\<close>

definition write_turn :: "peer \<Rightarrow> u32 \<Rightarrow> stream \<Rightarrow> peer" where
  "write_turn p k s =
     (if ctx_done s then set_obj p k (s\<lparr>writer := W_done\<rparr>)
      else case input_q s of
        [] \<Rightarrow> set_obj p k (s\<lparr>writer := W_wait\<rparr>)
      | f # fs \<Rightarrow>
          set_obj p k (s\<lparr>input_q := fs,
            writer := (if Kind f = FinK then W_fin else W_write f (Body f))\<rparr>))"

definition write_wake :: "peer \<Rightarrow> u32 \<Rightarrow> stream \<Rightarrow> peer" where
  "write_wake p k s = set_obj p k (s\<lparr>inputReady := False, writer := W_loop\<rparr>)"

definition write_cancelled :: "peer \<Rightarrow> u32 \<Rightarrow> stream \<Rightarrow> peer" where
  "write_cancelled p k s = set_obj p k (s\<lparr>writer := W_done\<rparr>)"

definition write_some :: "peer \<Rightarrow> u32 \<Rightarrow> stream \<Rightarrow> frame \<Rightarrow> bytes \<Rightarrow> nat \<Rightarrow> bool \<Rightarrow> peer" where
  "write_some p k s f rest n err =
     (if err \<or> n = 0 then fail p k (s\<lparr>writer := W_done\<rparr>)
      else set_obj p k (s\<lparr>writer := W_write f (drop n rest)\<rparr>))"

definition write_done :: "peer \<Rightarrow> u32 \<Rightarrow> stream \<Rightarrow> frame \<Rightarrow> peer" where
  "write_done p k s f =
     (let n = length (Body f);
          s = s\<lparr>budget := budget s + of_nat n, grant := grant s + of_nat n, writer := W_loop\<rparr>;
          p = set_obj p k s
      in notify (p\<lparr>stats := (stats p)\<lparr>Delivered := Delivered (stats p) + of_nat n\<rparr>\<rparr>))"

definition write_fin :: "peer \<Rightarrow> u32 \<Rightarrow> stream \<Rightarrow> bool \<Rightarrow> peer" where
  "write_fin p k s err =
     (if err then fail p k (s\<lparr>writer := W_done\<rparr>)
      else
        let s = s\<lparr>remoteFinWritten := True, writer := W_done\<rparr>;
            p = set_obj p k s
        in if localFinSent s \<and> grant s = 0 \<and> map_of (streams p) k \<noteq> None then retire p k s else p)"

definition Snapshot :: "peer \<Rightarrow> Stats" where
  "Snapshot p = stats p"

text \<open>\<open>Close\<close> cancels every context, of the map's streams and of the retired ones.\<close>

definition Close :: "peer \<Rightarrow> peer" where
  "Close p = p\<lparr>peer_closed := True,
     streams := map (\<lambda>(k, s). (k, close_stream s)) (streams p),
     retired := map (\<lambda>(k, s). (k, s\<lparr>ctx_done := True\<rparr>)) (retired p)\<rparr>"

end
