(* ===== verification/Mux_Invariant.thy ===== *)
theory Mux_Invariant
  imports Mux
begin

text \<open>
  The invariant of the multiplexer and that every operation and every goroutine step keeps
  it: the map, the scheduling order and the cursor agree; ids are positive, increasing and
  never reused; flow control of each stream is within its windows; queued bytes are
  accounted for; outgoing frames carry contiguous offsets modulo \<open>2 ^ 32\<close>.
\<close>

section \<open>The input queue is a chunked queue\<close>

lemma enqueue_loop_spec:
  assumes "chunked streamChunk (map Body inp)" and "offset \<le> length (Body f)"
  shows "\<exists>out. enqueue_loop inp f offset = Ok out
    \<and> concat (map Body out) = concat (map Body inp) @ drop offset (Body f)
    \<and> chunked streamChunk (map Body out)
    \<and> (list_all (\<lambda>g. Kind g = DataK) inp \<longrightarrow> list_all (\<lambda>g. Kind g = DataK) out)"
  using assms
proof (induction inp f offset rule: enqueue_loop.induct)
  case (1 inp f offset)
  show ?case
  proof (cases "offset < length (Body f)")
    case False
    with "1.prems" show ?thesis by (subst enqueue_loop.simps) simp
  next
    case True
    define app where "app \<longleftrightarrow> inp = [] \<or> length (Body (last inp)) = streamChunk"
    define new where "new = \<lparr>Kind = DataK, Stream = Stream f,
      Sequence = Sequence f + of_nat offset, Body = []\<rparr>"
    define inp' where "inp' = (if app then inp @ [new] else inp)"
    define tail where "tail = last inp'"
    define n where "n = min (streamChunk - length (Body tail)) (length (Body f) - offset)"
    define nxt where "nxt = butlast inp' @ [tail\<lparr>Body := Body tail @ take n (drop offset (Body f))\<rparr>]"
    have all_le: "list_all (\<lambda>c. length c \<le> streamChunk) (map Body inp)"
      using "1.prems"(1) by (auto simp: chunked_def list_all_iff)
    have tail_less: "length (Body tail) < streamChunk"
    proof (cases app)
      case False
      then have "inp \<noteq> []" "length (Body (last inp)) \<noteq> streamChunk" by (auto simp: app_def)
      then show ?thesis using all_le False
        by (auto simp: tail_def inp'_def list_all_iff le_less)
    qed (simp add: tail_def inp'_def new_def)
    then have n_pos: "0 < n" "offset + n \<le> length (Body f)" using True by (auto simp: n_def)
    have loop: "enqueue_loop inp f offset = enqueue_loop nxt f (offset + n)"
      using True tail_less unfolding nxt_def n_def tail_def inp'_def app_def new_def
      by (subst enqueue_loop.simps) (simp only: Let_def if_True, simp del: streamChunk_def)
    define d where "d = take n (drop offset (Body f))"
    have d: "length d = n" "d \<noteq> []" using n_pos by (auto simp: d_def)
    have bodies: "map Body nxt = (if app then map Body inp @ [d]
        else butlast (map Body inp) @ [last (map Body inp) @ d])"
      by (auto simp: nxt_def tail_def inp'_def new_def d_def app_def map_butlast last_map)
    have chk: "chunked streamChunk (map Body nxt)"
    proof (cases app)
      case True
      then have "map Body inp = [] \<or> length (last (map Body inp)) = streamChunk"
        by (cases "inp = []") (auto simp: app_def last_map)
      then show ?thesis
        unfolding bodies using True "1.prems"(1) d
        by (simp add: chunked_snoc n_def)
    next
      case False
      then have "inp \<noteq> []" by (simp add: app_def)
      moreover have "length (last (map Body inp)) + length d \<le> streamChunk"
        using False \<open>inp \<noteq> []\<close> d tail_less
        by (simp add: n_def tail_def inp'_def last_map)
      ultimately show ?thesis
        unfolding bodies using False "1.prems"(1) by (simp add: chunked_grow del: streamChunk_def)
    qed
    have cat: "concat (map Body nxt) = concat (map Body inp) @ d"
    proof (cases app)
      case False
      then have "map Body inp \<noteq> []" by (auto simp: app_def)
      then have "concat (map Body inp) = concat (butlast (map Body inp)) @ last (map Body inp)"
        by (metis append_butlast_last_id concat.simps(1) concat.simps(2) concat_append append_Nil2)
      with False show ?thesis unfolding bodies by simp
    qed (simp add: bodies)
    have kinds: "list_all (\<lambda>g. Kind g = DataK) nxt" if "list_all (\<lambda>g. Kind g = DataK) inp"
      using that by (auto simp: nxt_def inp'_def tail_def new_def app_def list_all_iff
          dest: in_set_butlastD split: if_splits)
    have "drop offset (Body f) = d @ drop (offset + n) (Body f)"
      by (simp add: d_def) (metis add.commute append_take_drop_id drop_drop)
    moreover have "\<exists>out. enqueue_loop nxt f (offset + n) = Ok out
        \<and> concat (map Body out) = concat (map Body nxt) @ drop (offset + n) (Body f)
        \<and> chunked streamChunk (map Body out)
        \<and> (list_all (\<lambda>g. Kind g = DataK) nxt \<longrightarrow> list_all (\<lambda>g. Kind g = DataK) out)"
      using "1.IH" [OF True inp'_def [unfolded app_def new_def] tail_def _ n_def, folded nxt_def]
        chk n_pos tail_less
      by simp
    ultimately show ?thesis using loop cat kinds by auto
  qed
qed

interpretation inq: chunk_queue streamChunk "map Body" enqueueData Body
proof (unfold_locales, goal_cases)
  case 1
  show ?case by simp
next
  case (2 q x)
  then show ?case using enqueue_loop_spec [of q 0 x] by (auto simp: enqueueData_def)
qed

lemma enqueueData_kinds:
  assumes "chunked streamChunk (map Body inp)" and "list_all (\<lambda>g. Kind g = DataK) inp"
    and "enqueueData inp f = Ok out"
  shows "list_all (\<lambda>g. Kind g = DataK) out"
  using enqueue_loop_spec [OF assms(1), of 0 f] assms(2,3) by (auto simp: enqueueData_def)

section \<open>The invariant of a stream\<close>

text \<open>Payload bytes queued for the local connection, and held by its writer.\<close>

definition queued_in :: "stream \<Rightarrow> nat" where
  "queued_in s = length (concat (map Body (input_q s)))"

definition inflight :: "stream \<Rightarrow> nat" where
  "inflight s = (case writer s of W_write f rest \<Rightarrow> length (Body f) | _ \<Rightarrow> 0)"

text \<open>The queue holds chunks of data and then, after the remote FIN, at most that FIN.\<close>

definition input_ok :: "stream \<Rightarrow> bool" where
  "input_ok s \<longleftrightarrow> (\<exists>ds fin. input_q s = ds @ fin \<and> list_all (\<lambda>f. Kind f = DataK) ds
     \<and> chunked streamChunk (map Body ds)
     \<and> (fin = [] \<or> (remoteFin s \<and> (\<exists>f. fin = [f] \<and> Kind f = FinK \<and> Body f = []))))"

text \<open>Frames on their way out: the partly sent one, the channel, the one the reader holds.\<close>

definition out_frames :: "stream \<Rightarrow> frame list" where
  "out_frames s = (case pending s of None \<Rightarrow> [] | Some f \<Rightarrow> [f]) @ output_q s"

definition held_frames :: "stream \<Rightarrow> frame list" where
  "held_frames s = (case reader s of R_send f e \<Rightarrow> [f] | R_fin f \<Rightarrow> [f] | _ \<Rightarrow> [])"

fun contiguous :: "u32 \<Rightarrow> frame list \<Rightarrow> u32 \<Rightarrow> bool" where
  "contiguous a [] b \<longleftrightarrow> a = b"
| "contiguous a (f # fs) b \<longleftrightarrow>
     Sequence f = a \<and> contiguous (a + of_nat (length (Body f))) fs b"

definition out_kind :: "frame \<Rightarrow> bool" where
  "out_kind f \<longleftrightarrow> (Kind f = DataK \<and> Body f \<noteq> []) \<or> (Kind f = FinK \<and> Body f = [])"

definition out_ok :: "u32 \<Rightarrow> stream \<Rightarrow> bool" where
  "out_ok k s \<longleftrightarrow>
     list_all (\<lambda>f. out_kind f \<and> Stream f = k) (out_frames s @ held_frames s)
     \<and> (\<exists>a. contiguous a (out_frames s) (nextOut s))
     \<and> list_all (\<lambda>f. Sequence f = nextOut s) (held_frames s)
     \<and> length (output_q s) \<le> 16
     \<and> queuedBytes s = int (length (concat (map Body (out_frames s @ held_frames s))))"

fun reader_kind :: "reader_pc \<Rightarrow> bool" where
  "reader_kind (R_send f e) \<longleftrightarrow> Kind f = DataK"
| "reader_kind (R_fin f) \<longleftrightarrow> Kind f = FinK"
| "reader_kind _ \<longleftrightarrow> True"

text \<open>A FIN is the last frame a stream sends, and its reader has stopped by then.\<close>

definition fin_ok :: "stream \<Rightarrow> bool" where
  "fin_ok s \<longleftrightarrow> list_all (\<lambda>f. Kind f = DataK) (butlast (out_frames s))
     \<and> (out_frames s \<noteq> [] \<and> Kind (last (out_frames s)) = FinK \<longrightarrow> reader s = R_done)
     \<and> (localFinSent s \<longrightarrow> out_frames s = [] \<and> reader s = R_done)
     \<and> reader_kind (reader s)
     \<and> (dialing s \<noteq> None \<longrightarrow> reader s = R_none)
     \<and> (open_frame s \<noteq> None \<longrightarrow> dialing s = None)"

definition stream_inv :: "u32 \<Rightarrow> u32 \<Rightarrow> u32 \<Rightarrow> stream \<Rightarrow> bool" where
  "stream_inv w sw k s \<longleftrightarrow>
     sid s = k \<and> credit s \<le> sw
     \<and> unat (budget s) + queued_in s + inflight s \<le> unat w
     \<and> (\<forall>f rest. writer s = W_write f rest \<longrightarrow> length (Body f) \<le> streamChunk)
     \<and> input_ok s \<and> out_ok k s \<and> fin_ok s
     \<and> (\<forall>f. open_frame s = Some f \<longrightarrow> Kind f = OpenK \<and> Stream f = k \<and> length (Body f) \<le> 512)"

section \<open>The invariant of a peer\<close>

definition peer_inv :: "peer \<Rightarrow> bool" where
  "peer_inv p \<longleftrightarrow>
     distinct (map fst (streams p)) \<and> distinct (map fst (retired p))
     \<and> fst ` set (streams p) \<inter> fst ` set (retired p) = {}
     \<and> set (order p) = fst ` set (streams p) \<and> distinct (order p)
     \<and> streamChunk dvd unat (window p)
     \<and> length (streams p) \<le> MaxStreams \<and> cursor p \<le> length (order p)
     \<and> (\<forall>k \<in> fst ` set (streams p) \<union> fst ` set (retired p). 0 < k \<and> k \<le> highest p)
     \<and> (\<forall>k s. obj p k = Some s \<longrightarrow> stream_inv (window p) (send p) k s)"

lemma dom_keys: "fst ` set al = dom (map_of al)"
  by (rule dom_map_of_conv_image_fst [symmetric])

lemma length_update:
  "length (AList.update k v al) = (if k \<in> fst ` set al then length al else Suc (length al))"
  by (induction al) auto

lemma distinct_keys_update [simp]:
  "distinct (map fst al) \<Longrightarrow> distinct (map fst (AList.update k v al))"
  by (rule distinct_update)

lemma distinct_keys_delete [simp]:
  "distinct (map fst al) \<Longrightarrow> distinct (map fst (AList.delete k al))"
  by (rule distinct_delete)

lemma obj_set_obj:
  "obj p k \<noteq> None \<Longrightarrow> obj (set_obj p k s) = (obj p)(k \<mapsto> s)"
  by (auto simp: obj_def set_obj_def fun_eq_iff split: option.splits)

lemma set_obj_fields [simp]:
  "window (set_obj p k s) = window p" "send (set_obj p k s) = send p"
  "highest (set_obj p k s) = highest p" "has_dial (set_obj p k s) = has_dial p"
  "peer_closed (set_obj p k s) = peer_closed p" "stats (set_obj p k s) = stats p"
  by (simp_all add: set_obj_def)

lemma peer_inv_set_obj:
  assumes "peer_inv p" and "obj p k \<noteq> None" and "stream_inv (window p) (send p) k s"
  shows "peer_inv (set_obj p k s)"
proof -
  have keys: "fst ` set (streams (set_obj p k s)) = fst ` set (streams p)"
    "fst ` set (retired (set_obj p k s)) = fst ` set (retired p)"
    "length (streams (set_obj p k s)) = length (streams p)"
    using assms(2)
    by (auto simp: set_obj_def dom_keys obj_def length_update split: option.splits)
  have "distinct (map fst (streams (set_obj p k s)))" "distinct (map fst (retired (set_obj p k s)))"
    using assms(1) by (auto simp: peer_inv_def set_obj_def)
  then show ?thesis
    using assms keys obj_set_obj [OF assms(2)]
    by (auto simp: peer_inv_def)
qed

text \<open>Fields the invariant does not mention.\<close>

lemma obj_update [simp]:
  "obj (p\<lparr>stats := st\<rparr>) = obj p" "obj (p\<lparr>changes := b\<rparr>) = obj p"
  "obj (p\<lparr>cursor := c\<rparr>) = obj p" "obj (p\<lparr>highest := h\<rparr>) = obj p"
  "obj (p\<lparr>order := ids\<rparr>) = obj p" "obj (p\<lparr>peer_closed := b\<rparr>) = obj p"
  by (auto simp: obj_def fun_eq_iff split: option.splits)

lemma peer_inv_stats [simp]: "peer_inv (p\<lparr>stats := st\<rparr>) = peer_inv p"
  by (simp add: peer_inv_def)

lemma peer_inv_notify [simp]: "peer_inv (notify p) = peer_inv p"
  by (simp add: peer_inv_def notify_def)

lemma peer_inv_count_sent [simp]: "peer_inv (count_sent n p) = peer_inv p"
  by (simp add: count_sent_def)

section \<open>Removing a stream\<close>

lemma removeStream_fields [simp]:
  "window (removeStream p k) = window p" "send (removeStream p k) = send p"
  "highest (removeStream p k) = highest p" "has_dial (removeStream p k) = has_dial p"
  "peer_closed (removeStream p k) = peer_closed p" "stats (removeStream p k) = stats p"
  by (simp_all add: removeStream_def Let_def split: option.splits)

lemma streams_removeStream:
  "streams (removeStream p k) = AList.delete k (streams p)"
proof (cases "map_of (streams p) k")
  case None
  then have "k \<notin> fst ` set (streams p)" by (simp add: map_of_eq_None_iff)
  with None show ?thesis
    by (auto simp: removeStream_def Let_def delete_id split: option.splits)
next
  case (Some s)
  then show ?thesis by (simp add: removeStream_def Let_def split: option.splits)
qed

lemma retired_removeStream:
  "retired (removeStream p k) = (case map_of (streams p) k of None \<Rightarrow> retired p
     | Some s \<Rightarrow> AList.update k s (retired p))"
  by (simp add: removeStream_def Let_def split: option.splits)

lemma obj_removeStream [simp]: "obj (removeStream p k) = obj p"
  by (auto simp: obj_def streams_removeStream retired_removeStream fun_eq_iff split: option.splits)

text \<open>The scheduling order loses exactly the id, and the cursor keeps its place.\<close>

definition upcoming :: "peer \<Rightarrow> u32 list" where
  "upcoming p = drop (cursor p) (order p) @ take (cursor p) (order p)"

lemma index_of_distinct:
  assumes "index_of k xs = Some i" and "distinct xs"
  shows "take i xs @ drop (i + 1) xs = remove1 k xs"
proof -
  have i: "i < length xs" "xs ! i = k" using index_of_Some [OF assms(1)] by auto
  have "xs = take i xs @ k # drop (i + 1) xs" using i by (metis Suc_eq_plus1 id_take_nth_drop)
  moreover have "k \<notin> set (take i xs)"
    using assms(2) calculation by (metis disjoint_iff distinct_append list.set_intros(1))
  ultimately show ?thesis by (metis remove1.simps(2) remove1_append)
qed

lemma order_removeStream:
  assumes "distinct (order p)"
  shows "order (removeStream p k) = remove1 k (order p)"
proof (cases "index_of k (order p)")
  case None
  then have "k \<notin> set (order p)" using index_of_mem by fastforce
  with None show ?thesis
    by (simp add: removeStream_def Let_def remove1_idem split: option.splits)
next
  case (Some i)
  then show ?thesis
    using index_of_distinct [OF Some assms]
    by (simp add: removeStream_def Let_def split: option.splits)
qed

lemma cursor_removeStream: "cursor p \<le> length (order p) \<Longrightarrow>
    cursor (removeStream p k) \<le> length (order (removeStream p k))"
  by (auto simp: removeStream_def Let_def split: option.splits dest!: index_of_Some)

lemma upcoming_removeStream_aux:
  assumes "distinct (order p)" and "cursor p \<le> length (order p)"
  shows "upcoming (removeStream p k) = remove1 k (upcoming p)"
proof (cases "index_of k (order p)")
  case None
  then have "k \<notin> set (order p)" using index_of_mem by fastforce
  then have "k \<notin> set (upcoming p)" by (auto simp: upcoming_def dest: in_set_takeD in_set_dropD)
  with None show ?thesis
    by (simp add: upcoming_def removeStream_def Let_def remove1_idem split: option.splits)
next
  case (Some i)
  let ?c = "cursor p" and ?xs = "order p" and ?ys = "take i (order p) @ drop (i + 1) (order p)"
  have i: "i < length ?xs" "?xs ! i = k" using index_of_Some [OF Some] by auto
  have split: "?xs = take i ?xs @ k # drop (i + 1) ?xs"
    using i by (metis Suc_eq_plus1 id_take_nth_drop)
  have len: "length ?ys = length ?xs - 1" using i by auto
  have fields: "order (removeStream p k) = ?ys"
    "cursor (removeStream p k) = (let c = (if i < ?c then ?c - 1 else ?c) in if c \<ge> length ?ys then 0 else c)"
    using Some by (cases "map_of (streams p) k"; simp add: removeStream_def Let_def)+
  have notin: "k \<notin> set (take i ?xs)" "k \<notin> set (drop (i + 1) ?xs)"
    using assms(1) split by (metis disjoint_iff distinct_append list.set_intros(1))
      (metis assms(1) distinct.simps(2) distinct_append split)
  show ?thesis
  proof (cases "i < ?c")
    case True
    then have dr: "drop (?c - 1) ?ys = drop ?c ?xs" and tk: "take (?c - 1) ?ys = take i ?xs @ take (?c - 1 - i) (drop (i + 1) ?xs)"
      using i by auto
    have tx: "take ?c ?xs = take i ?xs @ k # take (?c - 1 - i) (drop (i + 1) ?xs)"
      using True i by (subst split) (simp add: take_Cons')
    have kd: "k \<notin> set (drop ?c ?xs)"
      using notin(2) True set_drop_subset_set_drop [of "i + 1" ?c ?xs] by auto
    have rm: "remove1 k (upcoming p) = drop ?c ?xs @ take (?c - 1) ?ys"
      unfolding tk upcoming_def tx using kd notin(1) by (simp add: remove1_append)
    show ?thesis
    proof (cases "?c - 1 \<ge> length ?ys")
      case True
      then have "?c = length ?xs" using len assms(2) i \<open>i < ?c\<close> by simp
      then have "remove1 k (upcoming p) = ?ys" using rm True by (simp only: drop_all take_all) simp
      then show ?thesis using True \<open>i < ?c\<close> unfolding upcoming_def fields Let_def by simp
    next
      case False
      then have "cursor (removeStream p k) = ?c - 1" using \<open>i < ?c\<close> unfolding fields Let_def by simp
      then show ?thesis using rm dr by (simp only: upcoming_def fields(1))
    qed
  next
    case False
    then have tk: "take ?c ?ys = take ?c ?xs" and kt: "k \<notin> set (take ?c ?xs)"
      using i notin(1) set_take_subset_set_take [of ?c i ?xs] by (auto simp: min_def)
    have dr: "drop ?c ?ys = remove1 k (drop ?c ?xs)"
    proof -
      have "drop ?c ?xs = drop ?c (take i ?xs) @ k # drop (i + 1) ?xs"
        using False i by (subst split) simp
      moreover have "k \<notin> set (drop ?c (take i ?xs))" using notin(1) by (auto dest: in_set_dropD)
      ultimately have "remove1 k (drop ?c ?xs) = drop ?c (take i ?xs) @ drop (i + 1) ?xs"
        by (simp add: remove1_append)
      then show ?thesis using False i by simp
    qed
    have kx: "k \<in> set (drop ?c ?xs)"
    proof -
      have "drop ?c ?xs ! (i - ?c) = k" using False i by simp
      then show ?thesis using False i by (metis nth_mem length_drop diff_less_mono leI)
    qed
    have rm: "remove1 k (upcoming p) = drop ?c ?ys @ take ?c ?ys"
      using kx tk dr by (simp add: upcoming_def remove1_append)
    show ?thesis
    proof (cases "?c \<ge> length ?ys")
      case True
      then have "remove1 k (upcoming p) = ?ys" using rm True by (simp only: drop_all take_all) simp
      then show ?thesis using True False unfolding upcoming_def fields Let_def by simp
    next
      case lt: False
      then have "cursor (removeStream p k) = ?c" using False unfolding fields Let_def by simp
      then show ?thesis using rm by (simp only: upcoming_def fields(1))
    qed
  qed
qed

lemma peer_inv_removeStream:
  assumes "peer_inv p"
  shows "peer_inv (removeStream p k)"
proof -
  have d: "distinct (order p)" "cursor p \<le> length (order p)" using assms by (auto simp: peer_inv_def)
  have keys: "fst ` set (streams (removeStream p k)) = fst ` set (streams p) - {k}"
    by (auto simp: streams_removeStream dom_keys split: if_splits)
  have "length (streams (removeStream p k)) \<le> length (streams p)"
    by (simp add: streams_removeStream length_delete_le)
  moreover have "fst ` set (retired (removeStream p k)) =
      fst ` set (retired p) \<union> (if k \<in> fst ` set (streams p) then {k} else {})"
    by (auto simp: retired_removeStream dom_keys split: option.splits if_splits)
  moreover have "distinct (map fst (retired (removeStream p k)))"
    using assms by (simp add: retired_removeStream peer_inv_def split: option.splits)
  moreover have "distinct (map fst (streams (removeStream p k)))"
    using assms by (simp add: streams_removeStream peer_inv_def)
  ultimately show ?thesis
    using assms keys d cursor_removeStream [OF d(2), of k]
    by (auto simp: peer_inv_def order_removeStream set_remove1_eq split: if_splits)
qed

end
