(* ===== verification/Mux_Steps.thy ===== *)
theory Mux_Steps
  imports Mux_Invariant
begin

text \<open>
  Every operation of the multiplexer and every goroutine step keeps \<open>peer_inv\<close>. The
  operations are collected in the step relation \<open>peer_step\<close>, so the invariant holds in
  every state that any interleaving of calls and goroutines can reach.
\<close>

section \<open>Streams\<close>

lemmas stream_inv_defs = stream_inv_def queued_in_def inflight_def input_ok_def out_ok_def
  fin_ok_def out_frames_def held_frames_def

lemma stream_inv_indep [simp]:
  "stream_inv w sw k (s\<lparr>ctx_done := b\<rparr>) = stream_inv w sw k s"
  "stream_inv w sw k (s\<lparr>conn_set := b\<rparr>) = stream_inv w sw k s"
  "stream_inv w sw k (s\<lparr>conn_closed := b\<rparr>) = stream_inv w sw k s"
  "stream_inv w sw k (s\<lparr>inputReady := b\<rparr>) = stream_inv w sw k s"
  "stream_inv w sw k (s\<lparr>ack := b\<rparr>) = stream_inv w sw k s"
  "stream_inv w sw k (s\<lparr>reset := b\<rparr>) = stream_inv w sw k s"
  "stream_inv w sw k (s\<lparr>grant := g\<rparr>) = stream_inv w sw k s"
  "stream_inv w sw k (s\<lparr>nextIn := g\<rparr>) = stream_inv w sw k s"
  "stream_inv w sw k (s\<lparr>remoteFinWritten := b\<rparr>) = stream_inv w sw k s"
  by (simp_all add: stream_inv_defs)

lemma stream_inv_close [simp]: "stream_inv w sw k (close_stream s) = stream_inv w sw k s"
  by (simp add: close_stream_def)

lemma stream_inv_dialed: "stream_inv w sw k s \<Longrightarrow> stream_inv w sw k (s\<lparr>dialing := None\<rparr>)"
  by (simp add: stream_inv_defs)

lemma stream_inv_opened: "stream_inv w sw k s \<Longrightarrow> stream_inv w sw k (s\<lparr>open_frame := None\<rparr>)"
  by (simp add: stream_inv_defs)

lemma stream_inv_writer:
  assumes "stream_inv w sw k s" and "\<And>f rest. pc = W_write f rest \<Longrightarrow> \<exists>rest'. writer s = W_write f rest'"
  shows "stream_inv w sw k (s\<lparr>writer := pc\<rparr>)"
proof -
  have "inflight (s\<lparr>writer := pc\<rparr>) \<le> inflight s"
    using assms(2) by (fastforce simp: inflight_def split: writer_pc.splits)
  moreover have "queued_in (s\<lparr>writer := pc\<rparr>) = queued_in s" "input_ok (s\<lparr>writer := pc\<rparr>) = input_ok s"
    "out_ok k (s\<lparr>writer := pc\<rparr>) = out_ok k s" "fin_ok (s\<lparr>writer := pc\<rparr>) = fin_ok s"
    by (simp_all add: stream_inv_defs)
  ultimately show ?thesis using assms by (fastforce simp: stream_inv_def)
qed

lemma stream_inv_attach:
  assumes "stream_inv w sw k s" and "reader s = R_none" and "dialing s = None"
  shows "stream_inv w sw k (attach s)"
proof -
  have "stream_inv w sw k (s\<lparr>reader := R_read\<rparr>)"
    using assms by (auto simp: stream_inv_defs)
  then have "stream_inv w sw k (s\<lparr>reader := R_read, writer := W_loop\<rparr>)"
    by (rule stream_inv_writer) simp
  then have "stream_inv w sw k (s\<lparr>reader := R_read, writer := W_loop, conn_set := True\<rparr>)" by simp
  moreover have "s\<lparr>reader := R_read, writer := W_loop, conn_set := True\<rparr>
      = s\<lparr>conn_set := True, reader := R_read, writer := W_loop\<rparr>" by simp
  ultimately show ?thesis using assms(1) by (simp add: attach_def)
qed

lemma stream_inv_blank:
  "stream_inv (window p) (send p) k (blank_stream p k)"
  by (simp add: blank_stream_def stream_inv_defs)

lemma stream_inv_blank_dialing:
  "stream_inv (window p) (send p) k ((blank_stream p k)\<lparr>dialing := Some t\<rparr>)"
  by (simp add: blank_stream_def stream_inv_defs)

lemma stream_inv_blank_open:
  assumes "length a \<le> 512"
  shows "stream_inv (window p) (send p) k ((blank_stream p k)\<lparr>open_frame :=
    Some \<lparr>Kind = OpenK, Stream = k, Sequence = 0, Body = to_bytes a\<rparr>\<rparr>)"
  using assms by (simp add: blank_stream_def stream_inv_defs)

section \<open>Receive\<close>

lemma peer_inv_newStream:
  assumes "peer_inv p" and "highest p < k" and "length (streams p) < MaxStreams"
    and "sid s = k" and "stream_inv (window p) (send p) k s"
  shows "peer_inv (newStream (p\<lparr>highest := k\<rparr>) s)"
proof -
  have fresh: "k \<notin> fst ` set (streams p)" "k \<notin> fst ` set (retired p)"
    using assms(1,2) unfolding peer_inv_def by (meson UnI1 UnI2 leD)+
  let ?q = "p\<lparr>highest := k, streams := AList.update k s (streams p), order := order p @ [k]\<rparr>"
  have obj: "obj ?q = (obj p)(k \<mapsto> s)"
    by (auto simp: obj_def fun_eq_iff split: option.splits)
  have keys: "fst ` set (streams ?q) = insert k (fst ` set (streams p))"
    "retired ?q = retired p" "length (streams ?q) = Suc (length (streams p))"
    using fresh by (auto simp: dom_keys length_update)
  have "0 < k" by (rule le_less_trans [OF word_zero_le assms(2)])
  moreover have "\<forall>j \<in> fst ` set (streams p) \<union> fst ` set (retired p). 0 < j \<and> j \<le> k"
    using assms(1) order_trans [OF _ less_imp_le [OF assms(2)]] unfolding peer_inv_def by blast
  moreover have "set (order ?q) = insert k (fst ` set (streams p))" "distinct (order ?q)"
    "cursor ?q \<le> length (order ?q)"
    using assms(1) fresh by (auto simp: peer_inv_def)
  ultimately have "peer_inv ?q"
    using assms fresh keys obj by (auto simp: peer_inv_def)
  then show ?thesis using assms(4) by (simp add: newStream_def Let_def)
qed

lemma set_obj_stats [simp]: "set_obj (p\<lparr>stats := st\<rparr>) k s = (set_obj p k s)\<lparr>stats := st\<rparr>"
  by (simp add: set_obj_def)

lemma obj_active [intro]: "map_of (streams p) k = Some s \<Longrightarrow> obj p k = Some s"
  by (simp add: obj_def)

lemma peer_inv_obj: "peer_inv p \<Longrightarrow> obj p k = Some s \<Longrightarrow> stream_inv (window p) (send p) k s"
  by (simp add: peer_inv_def)

lemma peer_inv_receive_open:
  assumes "peer_inv p"
  shows "peer_inv (fst (receive_open p f)) \<and> snd (receive_open p f) \<noteq> Panic"
proof -
  let ?p = "p\<lparr>highest := Stream f\<rparr>"
  have "peer_inv (newStream ?p ((blank_stream ?p (Stream f))\<lparr>dialing := Some t\<rparr>))"
    if "\<not> Stream f \<le> highest p" "\<not> MaxStreams \<le> length (streams p)" for t
    using that stream_inv_blank_dialing [of ?p "Stream f" t]
    by (intro peer_inv_newStream assms) (auto simp: blank_stream_def)
  then show ?thesis
    using assms by (auto simp: receive_open_def Let_def split: outcome.splits)
qed

text \<open>
  A DATA frame that is accepted appends exactly its body to the input queue, takes its
  length from the budget, and needs no more chunks than the bytes in the queue.
\<close>

lemma stream_inv_receive_data:
  assumes inv: "stream_inv w sw k s" and "\<not> remoteFin s" and "length (Body f) \<le> unat (budget s)"
    and out: "enqueueData (input_q s) f = Ok inp"
  shows "stream_inv w sw k (s\<lparr>input_q := inp, budget := budget s - of_nat (length (Body f))\<rparr>)"
proof -
  let ?n = "length (Body f)"
  have in_ok: "list_all (\<lambda>f. Kind f = DataK) (input_q s)" "chunked streamChunk (map Body (input_q s))"
    using inv assms(2) by (auto simp: stream_inv_def input_ok_def)
  have app: "concat (map Body inp) = concat (map Body (input_q s)) @ Body f"
    "chunked streamChunk (map Body inp)"
    using inq.put_appends [OF in_ok(2) out] by auto
  have n: "unat (of_nat ?n :: u32) = ?n"
    using assms(3) unat_bound [of "budget s"] by (intro unat_of_nat_small) simp
  have "unat (budget s - of_nat ?n) = unat (budget s) - ?n"
    using assms(3) n by (simp add: unat_sub word_le_nat_alt)
  then show ?thesis
    using inv in_ok app assms(2,3) enqueueData_kinds [OF in_ok(2,1) out]
    by (auto simp: stream_inv_def queued_in_def inflight_def input_ok_def out_ok_def fin_ok_def
        out_frames_def held_frames_def)
qed

lemma enqueueData_total:
  assumes "stream_inv w sw k s" and "\<not> remoteFin s"
  shows "\<exists>inp. enqueueData (input_q s) f = Ok inp"
proof -
  have "chunked streamChunk (map Body (input_q s))"
    using assms by (auto simp: stream_inv_def input_ok_def)
  from inq.put_spec [OF this, of f] show ?thesis by auto
qed

lemma peer_inv_receive_data:
  assumes "peer_inv p" and act: "map_of (streams p) (Stream f) = Some s"
  shows "peer_inv (fst (receive_data p s f)) \<and> snd (receive_data p s f) \<noteq> Panic"
proof (cases "remoteFin s \<or> Sequence f \<noteq> nextIn s \<or> length (Body f) = 0
    \<or> length (Body f) > unat (budget s)")
  case True
  then show ?thesis using assms(1) by (simp add: receive_data_def)
next
  case False
  have inv: "stream_inv (window p) (send p) (Stream f) s"
    using assms by (auto intro: peer_inv_obj)
  obtain inp where inp: "enqueueData (input_q s) f = Ok inp"
    using enqueueData_total [OF inv] False by auto
  have "stream_inv (window p) (send p) (Stream f)
      (s\<lparr>input_q := inp, budget := budget s - of_nat (length (Body f))\<rparr>)"
    using stream_inv_receive_data [OF inv _ _ inp] False by simp
  then have "stream_inv (window p) (send p) (Stream f)
      (s\<lparr>input_q := inp, budget := budget s - of_nat (length (Body f)),
        nextIn := nextIn s + of_nat (length (Body f)), inputReady := True\<rparr>)"
    by simp
  moreover have "s\<lparr>input_q := inp, budget := budget s - of_nat (length (Body f)),
        nextIn := nextIn s + of_nat (length (Body f)), inputReady := True\<rparr>
      = s\<lparr>input_q := inp, nextIn := nextIn s + of_nat (length (Body f)),
        budget := budget s - of_nat (length (Body f)), inputReady := True\<rparr>"
    by simp
  ultimately show ?thesis
    using assms False inp peer_inv_set_obj [OF assms(1), of "Stream f"] obj_active [OF act]
    by (auto simp: receive_data_def Let_def)
qed

lemma peer_inv_receive_fin:
  assumes "peer_inv p" and act: "map_of (streams p) (Stream f) = Some s" and "Kind f = FinK"
  shows "peer_inv (fst (receive_fin p s f))"
proof (cases "remoteFin s \<or> length (Body f) \<noteq> 0 \<or> Sequence f \<noteq> nextIn s")
  case True
  then show ?thesis using assms(1) by (auto simp: receive_fin_def)
next
  case False
  have inv: "stream_inv (window p) (send p) (Stream f) s"
    using assms by (auto intro: peer_inv_obj)
  have "input_ok (s\<lparr>input_q := input_q s @ [f], remoteFin := True, inputReady := True\<rparr>)"
    using inv False assms(3) by (auto simp: stream_inv_def input_ok_def)
  then have "stream_inv (window p) (send p) (Stream f)
      (s\<lparr>input_q := input_q s @ [f], remoteFin := True, inputReady := True\<rparr>)"
    using inv False
    by (simp add: stream_inv_def queued_in_def inflight_def out_ok_def fin_ok_def out_frames_def
        held_frames_def)
  then show ?thesis
    using assms False peer_inv_set_obj [OF assms(1), of "Stream f"] obj_active [OF act]
    by (auto simp: receive_fin_def)
qed

lemma peer_inv_receive_reset:
  assumes "peer_inv p" and act: "map_of (streams p) (Stream f) = Some s"
  shows "peer_inv (fst (receive_reset p s f))"
proof -
  have "peer_inv (set_obj p (Stream f) (close_stream s))"
    using assms by (intro peer_inv_set_obj) (auto simp: obj_active intro: peer_inv_obj)
  then show ?thesis
    using assms(1) by (auto simp: receive_reset_def Let_def peer_inv_removeStream)
qed

lemma peer_inv_receive_credit:
  assumes "peer_inv p" and act: "map_of (streams p) (Stream f) = Some s"
  shows "peer_inv (fst (receive_credit p s f))"
proof -
  let ?g = "get_u32 (Body f)"
  have inv: "stream_inv (window p) (send p) (Stream f) s"
    using assms by (auto intro: peer_inv_obj)
  have "stream_inv (window p) (send p) (Stream f) (s\<lparr>credit := credit s + ?g\<rparr>)"
    if "\<not> ?g > send p - credit s"
  proof -
    have "credit s \<le> send p" using inv by (simp add: stream_inv_def)
    then have "credit s + ?g \<le> send p"
      using that by unat_arith
    then show ?thesis
      using inv by (simp add: stream_inv_def queued_in_def inflight_def input_ok_def out_ok_def
          fin_ok_def out_frames_def held_frames_def)
  qed
  then show ?thesis
    using assms peer_inv_set_obj [OF assms(1), of "Stream f"] obj_active [OF act]
    by (auto simp: receive_credit_def Let_def)
qed

lemma peer_inv_receive_frame:
  assumes "peer_inv p"
  shows "peer_inv (fst (receive_frame p f)) \<and> snd (receive_frame p f) \<noteq> Panic"
proof (cases "map_of (streams p) (Stream f)")
  case None
  with assms peer_inv_receive_open show ?thesis by (simp add: receive_frame_def)
next
  case (Some s)
  note parts = peer_inv_receive_data [OF assms Some] peer_inv_receive_fin [OF assms Some]
    peer_inv_receive_reset [OF assms Some] peer_inv_receive_credit [OF assms Some]
  have "snd (receive_fin p s f) \<noteq> Panic" "snd (receive_reset p s f) \<noteq> Panic"
    "snd (receive_credit p s f) \<noteq> Panic" "snd (receive_opened p f) \<noteq> Panic"
    "peer_inv (fst (receive_opened p f))"
    using assms by (simp_all add: receive_fin_def receive_reset_def receive_credit_def
        receive_opened_def Let_def)
  with Some assms parts peer_inv_receive_open [OF assms] show ?thesis
    by (simp add: receive_frame_def)
qed

lemma peer_inv_receive_loop:
  "peer_inv p \<Longrightarrow> peer_inv (fst (receive_loop p fs)) \<and> snd (receive_loop p fs) \<noteq> Panic"
proof (induction p fs rule: receive_loop.induct)
  case (1 p)
  then show ?case by simp
next
  case (2 p f fs)
  note step = peer_inv_receive_frame [OF 2(2), of f]
  show ?case
  proof (cases "receive_frame p f")
    case (Pair q r)
    then show ?thesis using 2(1) step by (cases r) simp_all
  qed
qed

lemma peer_inv_Receive:
  assumes "peer_inv p"
  shows "peer_inv (fst (Receive p fs)) \<and> snd (Receive p fs) \<noteq> Panic"
proof -
  obtain q r where "receive_loop p fs = (q, r)" by force
  then show ?thesis
    using assms peer_inv_receive_loop [OF assms, of fs] by (cases r) (simp_all add: Receive_def)
qed

lemma peer_inv_Open: "peer_inv p \<Longrightarrow> peer_inv (fst (Open p a))"
proof -
  assume inv: "peer_inv p"
  let ?h = "highest p + 1"
  let ?p = "p\<lparr>highest := ?h\<rparr>"
  let ?s = "(blank_stream ?p ?h)\<lparr>open_frame := Some \<lparr>Kind = OpenK, Stream = ?h, Sequence = 0,
    Body = to_bytes a\<rparr>\<rparr>"
  have sid: "sid (blank_stream ?p ?h) = ?h" "sid (attach ?s) = ?h"
    by (simp_all add: blank_stream_def attach_def)
  have "peer_inv (newStream ?p (attach ?s))"
    if "length (streams p) < MaxStreams" "length a \<le> 512" "highest p \<noteq> - 1"
  proof (rule peer_inv_newStream [OF inv _ that(1) sid(2)])
    show "highest p < ?h" by (rule word_less_Suc [OF that(3)])
  next
    show "stream_inv (window p) (send p) ?h (attach ?s)"
      using stream_inv_blank_open [OF that(2), of ?p ?h]
      by (intro stream_inv_attach) (simp_all add: blank_stream_def)
  qed
  then show ?thesis
    using inv by (auto simp: Open_def Let_def sid)
qed

end
