(* ===== verification/Mux_Take.thy ===== *)
theory Mux_Take
  imports Mux_Steps
begin

text \<open>
  The scheduler: what one turn of the loop in \<open>take\<close> does to the stream it visits, and what
  a whole call sends. Payload is conserved (bytes sent followed by bytes still queued are
  the bytes that were queued), credit is spent byte for byte, and the frames fit the
  budget and the cell format.
\<close>

section \<open>Payload accounting\<close>

definition payload :: "stream \<Rightarrow> bytes" where
  "payload s = concat (map Body (out_frames s))"

definition unsent :: "peer \<Rightarrow> u32 \<Rightarrow> bytes" where
  "unsent p k = (case obj p k of None \<Rightarrow> [] | Some s \<Rightarrow> payload s)"

definition credit_of :: "peer \<Rightarrow> u32 \<Rightarrow> nat" where
  "credit_of p k = (case obj p k of None \<Rightarrow> 0 | Some s \<Rightarrow> unat (credit s))"

text \<open>The payload of stream \<open>k\<close> in a list of frames.\<close>

definition sent :: "u32 \<Rightarrow> frame list \<Rightarrow> bytes" where
  "sent k fs = concat (map Body (filter (\<lambda>f. Kind f = DataK \<and> Stream f = k) fs))"

lemma sent_simps [simp]:
  "sent k [] = []" "sent k (fs @ gs) = sent k fs @ sent k gs"
  "sent k [f] = (if Kind f = DataK \<and> Stream f = k then Body f else [])"
  by (simp_all add: sent_def)

definition opt_frames :: "frame option \<Rightarrow> frame list" where
  "opt_frames fo = (case fo of None \<Rightarrow> [] | Some f \<Rightarrow> [f])"

lemma opt_frames_simps [simp]: "opt_frames None = []" "opt_frames (Some f) = [f]"
  by (simp_all add: opt_frames_def)

text \<open>What a turn may send for stream \<open>k\<close> within the budget.\<close>

definition turn_ok :: "u32 \<Rightarrow> int \<Rightarrow> bool \<Rightarrow> stream \<Rightarrow> stream \<Rightarrow> frame option \<Rightarrow> bool" where
  "turn_ok k bud c s s' fo \<longleftrightarrow>
     sent k (opt_frames fo) @ payload s' = payload s
     \<and> unat (credit s) = unat (credit s') + length (sent k (opt_frames fo))
     \<and> (\<forall>f. fo = Some f \<longrightarrow> Stream f = k \<and> kind_ok (Kind f) \<and> int (Size f) \<le> bud
          \<and> (c \<longrightarrow> Kind f \<noteq> DataK) \<and> (Kind f = DataK \<longrightarrow> Body f \<noteq> []))"

section \<open>One turn\<close>

lemma load_pending_out [simp]: "out_frames (load_pending s) = out_frames s"
  by (auto simp: load_pending_def out_frames_def split: option.splits list.splits)

lemma load_pending_fields [simp]:
  "credit (load_pending s) = credit s" "queuedBytes (load_pending s) = queuedBytes s"
  "nextOut (load_pending s) = nextOut s" "held_frames (load_pending s) = held_frames s"
  "reader (load_pending s) = reader s"
  by (auto simp: load_pending_def held_frames_def split: option.splits list.splits)

lemma stream_inv_load_pending:
  assumes "stream_inv w sw k s"
  shows "stream_inv w sw k (load_pending s)"
proof -
  have "length (output_q (load_pending s)) \<le> length (output_q s)"
    by (auto simp: load_pending_def split: option.splits list.splits)
  then have "out_ok k (load_pending s)"
    using assms by (auto simp: stream_inv_def out_ok_def)
  moreover have "fin_ok (load_pending s)"
    using assms
    by (auto simp: stream_inv_def fin_ok_def out_frames_def load_pending_def
        split: option.splits list.splits)
  ultimately show ?thesis
    using assms
    by (auto simp: stream_inv_def queued_in_def inflight_def input_ok_def load_pending_def
        split: option.splits list.splits)
qed

lemma load_pending_Some:
  assumes "pending (load_pending s) = Some f"
  shows "out_frames s = f # output_q (load_pending s)"
  using assms by (auto simp: load_pending_def out_frames_def split: option.splits list.splits)

text \<open>Sending a prefix of the pending DATA frame.\<close>

lemma stream_inv_send_data:
  assumes inv: "stream_inv w sw k s" and pend: "pending s = Some f" and "Kind f = DataK"
    and n: "n \<le> length (Body f)" "n \<le> unat (credit s)" "0 < n"
  defines "rest \<equiv> f\<lparr>Body := drop n (Body f), Sequence := Sequence f + of_nat n\<rparr>"
  defines "s' \<equiv> s\<lparr>pending := (if Body rest = [] then None else Some rest),
    credit := credit s - of_nat n, queuedBytes := queuedBytes s - int n\<rparr>"
  shows "stream_inv w sw k s'" and "take n (Body f) @ payload s' = payload s"
    and "unat (credit s) = unat (credit s') + n"
proof -
  have out: "out_frames s = f # output_q s" using pend by (simp add: out_frames_def)
  have out': "out_frames s' = (if Body rest = [] then [] else [rest]) @ output_q s"
    by (simp add: s'_def out_frames_def)
  have held: "held_frames s' = held_frames s" "reader s' = reader s" "nextOut s' = nextOut s"
    by (simp_all add: s'_def held_frames_def)
  show pay: "take n (Body f) @ payload s' = payload s"
    by (cases "drop n (Body f) = []")
      (auto simp: payload_def out out' rest_def simp flip: append_assoc)
  have ok: "out_ok k s" using inv by (simp add: stream_inv_def)
  obtain a where a: "contiguous a (f # output_q s) (nextOut s)"
    using ok out by (auto simp: out_ok_def)
  have "contiguous (Sequence rest) (out_frames s') (nextOut s')"
    using a n out' held by (cases "drop n (Body f) = []") (auto simp: rest_def add.assoc simp flip: of_nat_add)
  moreover have "list_all (\<lambda>f. out_kind f \<and> Stream f = k) (out_frames s' @ held_frames s')"
    using ok out out' held assms(3) by (auto simp: out_ok_def rest_def out_kind_def)
  moreover have "queuedBytes s' = int (length (concat (map Body (out_frames s' @ held_frames s'))))"
  proof -
    have "queuedBytes s' = queuedBytes s - int n" by (simp add: s'_def)
    moreover have "length (payload s) = n + length (payload s')"
      using arg_cong [OF pay, of length] n(1) by simp
    ultimately show ?thesis using ok held(1) by (simp add: out_ok_def payload_def)
  qed
  moreover have "length (output_q s') \<le> 16" "list_all (\<lambda>f. Sequence f = nextOut s') (held_frames s')"
    using ok held by (auto simp: out_ok_def s'_def)
  ultimately have "out_ok k s'" by (auto simp: out_ok_def)
  moreover have "fin_ok s'"
    using inv out out' held assms(3)
    by (auto simp: stream_inv_def fin_ok_def s'_def rest_def split: if_splits)
  moreover have small: "unat (of_nat n :: u32) = n"
    using n(2) unat_bound [of "credit s"] by (intro unat_of_nat_small) simp
  then have cr: "unat (credit s - of_nat n) = unat (credit s) - n"
    using n(2) by (simp add: unat_sub word_le_nat_alt)
  then have "credit s - of_nat n \<le> sw"
    using inv by (auto simp: stream_inv_def word_le_nat_alt)
  ultimately show "stream_inv w sw k s'"
    using inv by (simp add: stream_inv_def queued_in_def inflight_def input_ok_def s'_def)
  show "unat (credit s) = unat (credit s') + n" using cr n(2) by (simp add: s'_def)
qed

lemma stream_inv_send_fin:
  assumes inv: "stream_inv w sw k s" and pend: "pending s = Some f" and "Kind f \<noteq> DataK"
  shows "stream_inv w sw k (s\<lparr>pending := None, localFinSent := True\<rparr>)" and "Kind f = FinK"
    and "Body f = []" and "Stream f = k"
proof -
  have out: "out_frames s = f # output_q s" using pend by (simp add: out_frames_def)
  then have f: "Kind f = FinK" "Body f = []" "Stream f = k"
    using inv assms(3) by (auto simp: stream_inv_def out_ok_def out_kind_def)
  have q: "output_q s = []" "reader s = R_done"
    using inv out assms(3) f by (auto simp: stream_inv_def fin_ok_def split: if_splits)
  show "Kind f = FinK" "Body f = []" "Stream f = k" by (rule f)+
  show "stream_inv w sw k (s\<lparr>pending := None, localFinSent := True\<rparr>)"
    using inv q pend f by (auto simp: stream_inv_defs)
qed

lemma take_queued_ok:
  assumes inv: "stream_inv w sw k s" and "int FrameHeader \<le> bud"
    and tq: "take_queued s bud c = (s', fo, n)"
  shows "stream_inv w sw k s' \<and> turn_ok k bud c s s' fo"
proof (cases "pending (load_pending s)")
  case None
  then show ?thesis
    using tq stream_inv_load_pending [OF inv] by (auto simp: take_queued_def turn_ok_def payload_def)
next
  case (Some f)
  let ?t = "load_pending s"
  have inv': "stream_inv w sw k ?t" by (rule stream_inv_load_pending [OF inv])
  have pay: "payload ?t = payload s" by (simp add: payload_def)
  have str: "Stream f = k"
    using inv load_pending_Some [OF Some] by (auto simp: stream_inv_def out_ok_def)
  let ?n = "nat (min (int (length (Body f))) (min (bud - int FrameHeader) (uint (credit s))))"
  consider (fin) "Kind f \<noteq> DataK" | (no) "Kind f = DataK" "c \<or> ?n = 0"
    | (data) "Kind f = DataK" "\<not> c" "0 < ?n" by blast
  then show ?thesis
  proof cases
    case fin
    note sent = stream_inv_send_fin [OF inv' Some fin]
    have s': "s' = ?t\<lparr>pending := None, localFinSent := True\<rparr>" and fo: "fo = Some f"
      using tq Some fin by (auto simp: take_queued_def Let_def)
    have "out_frames (?t\<lparr>pending := None, localFinSent := True\<rparr>) = output_q ?t"
      by (simp add: out_frames_def)
    then have "payload (?t\<lparr>pending := None, localFinSent := True\<rparr>) = payload s"
      using sent(3) load_pending_Some [OF Some] by (simp add: payload_def)
    then show ?thesis
      unfolding turn_ok_def s' fo
      using sent assms(2) by (simp add: kind_ok_iff Size_def)
  next
    case no
    then have "s' = ?t" "fo = None"
      using tq Some by (cases c; simp add: take_queued_def Let_def)+
    then show ?thesis using inv' pay by (simp add: turn_ok_def)
  next
    case data
    define N where "N = ?n"
    have "?n \<le> nat (int (length (Body f)))" "?n \<le> nat (uint (credit s))"
      by (rule nat_mono; simp)+
    then have le: "N \<le> length (Body f)" "N \<le> unat (credit ?t)" by (simp_all add: N_def)
    have le3: "int N \<le> bud - int FrameHeader" "0 < N" using data(3) unfolding N_def by linarith+
    note sent = stream_inv_send_data [OF inv' Some data(1) le le3(2)]
    have "s' = ?t\<lparr>pending := (if Body (f\<lparr>Body := drop N (Body f), Sequence := Sequence f + of_nat N\<rparr>) = [] then None
        else Some (f\<lparr>Body := drop N (Body f), Sequence := Sequence f + of_nat N\<rparr>)),
        credit := credit ?t - of_nat N, queuedBytes := queuedBytes ?t - int N\<rparr>"
      and fo: "fo = Some (f\<lparr>Body := take N (Body f)\<rparr>)"
      using tq Some data unfolding N_def by (auto simp: take_queued_def Let_def)
    then have "stream_inv w sw k s'" "take N (Body f) @ payload s' = payload s"
      "unat (credit s) = unat (credit s') + N"
      using sent pay by simp_all
    then show ?thesis
      using le le3 data(1,2) str by (auto simp: turn_ok_def fo kind_ok_iff Size_def)
  qed
qed

lemma turn_ok_control:
  assumes "payload s' = payload s" and "credit s' = credit s" and "Stream f = k"
    and "kind_ok (Kind f)" and "Kind f \<noteq> DataK" and "int (Size f) \<le> bud"
  shows "turn_ok k bud c s s' (Some f)"
  using assms by (simp add: turn_ok_def)

lemma payload_indep [simp]:
  "payload (s\<lparr>open_frame := x\<rparr>) = payload s" "payload (s\<lparr>ack := b\<rparr>) = payload s"
  "payload (s\<lparr>grant := g\<rparr>) = payload s" "payload (close_stream s) = payload s"
  by (simp_all add: payload_def out_frames_def close_stream_def)

lemma close_stream_fields [simp]: "credit (close_stream s) = credit s" "sid (close_stream s) = sid s"
  by (simp_all add: close_stream_def)

lemma count_sent_fields [simp]:
  "obj (count_sent n p) = obj p" "window (count_sent n p) = window p" "send (count_sent n p) = send p"
  "has_dial (count_sent n p) = has_dial p" "peer_closed (count_sent n p) = peer_closed p"
  by (simp_all add: count_sent_def)

lemma take_frame_ok:
  assumes inv: "peer_inv p" and act: "map_of (streams p) k = Some s" and bud: "int FrameHeader \<le> bud"
    and tf: "take_frame p k s bud c = (p', s', fo)"
  shows "peer_inv p' \<and> obj p' = (obj p)(k \<mapsto> s') \<and> window p' = window p \<and> send p' = send p
    \<and> stream_inv (window p) (send p) k s' \<and> turn_ok k bud c s s' fo"
proof -
  have ob: "obj p k = Some s" using act by auto
  have si: "stream_inv (window p) (send p) k s" by (rule peer_inv_obj [OF inv ob])
  have upd: "peer_inv (set_obj p k t) \<and> obj (set_obj p k t) = (obj p)(k \<mapsto> t)"
    if "stream_inv (window p) (send p) k t" for t
    using peer_inv_set_obj [OF inv _ that] obj_set_obj [of p k t] ob by simp
  have same: "(obj p)(k \<mapsto> s) = obj p" using ob by (simp add: fun_upd_idem)
  consider (reset) "reset s" | (opn) f where "\<not> reset s" "open_frame s = Some f"
    | (ack) "\<not> reset s" "open_frame s = None" "ack s"
    | (grant) "\<not> reset s" "open_frame s = None" "\<not> ack s" "grant s > 0" "bud \<ge> int FrameHeader + 4"
    | (queue) "\<not> reset s" "open_frame s = None" "\<not> ack s" "\<not> (grant s > 0 \<and> bud \<ge> int FrameHeader + 4)"
    by fastforce
  then show ?thesis
  proof cases
    case reset
    then show ?thesis
      using tf bud same si peer_inv_removeStream [OF inv]
      by (auto simp: take_frame_def Let_def kind_ok_iff Size_def intro!: turn_ok_control)
  next
    case opn
    have f: "Kind f = OpenK" "Stream f = k" using si opn by (auto simp: stream_inv_def)
    show ?thesis
    proof (cases "int (Size f) \<le> bud")
      case True
      then have "turn_ok k bud c s (s\<lparr>open_frame := None\<rparr>) (Some f)"
        using f by (intro turn_ok_control) (simp_all add: kind_ok_iff)
      then show ?thesis
        using tf opn True stream_inv_opened [OF si] upd [OF stream_inv_opened [OF si]]
        by (auto simp: take_frame_def Let_def)
    next
      case False
      then show ?thesis
        using tf opn inv si same by (auto simp: take_frame_def turn_ok_def)
    qed
  next
    case ack
    then show ?thesis
      using tf bud si upd [of "s\<lparr>ack := False\<rparr>"]
      by (auto simp: take_frame_def Let_def kind_ok_iff Size_def intro!: turn_ok_control)
  next
    case grant
    then show ?thesis
      using tf si upd [of "s\<lparr>grant := 0\<rparr>"]
      by (auto simp: take_frame_def Let_def kind_ok_iff Size_def Uint32_def copy_at_def intro!: turn_ok_control)
  next
    case queue
    obtain t fo' n where tq: "take_queued s bud c = (t, fo', n)" by (metis prod_cases3)
    note ok = take_queued_ok [OF si bud tq]
    have "p' = count_sent n (set_obj p k t)" "s' = t" "fo = fo'"
      using tf queue tq by (auto simp: take_frame_def)
    then show ?thesis using ok upd by simp
  qed
qed

lemma retire_ok:
  assumes "peer_inv p" and "obj p k = Some s"
  shows "peer_inv (retire p k s) \<and> obj (retire p k s) = (obj p)(k \<mapsto> close_stream s)
    \<and> window (retire p k s) = window p \<and> send (retire p k s) = send p"
  using assms peer_inv_set_obj [OF assms(1), of k "close_stream s"] peer_inv_obj [OF assms]
    obj_set_obj [of p k]
  by (simp add: retire_def peer_inv_removeStream)

section \<open>A whole call\<close>

text \<open>The relation between the peer and the frames before and after any number of turns.\<close>

definition sends :: "bool \<Rightarrow> peer \<Rightarrow> int \<Rightarrow> peer \<Rightarrow> frame list \<Rightarrow> bool" where
  "sends c p bud p' fs \<longleftrightarrow>
     peer_inv p' \<and> window p' = window p \<and> send p' = send p
     \<and> (\<forall>k. sent k fs @ unsent p' k = unsent p k)
     \<and> (\<forall>k. credit_of p k = credit_of p' k + length (sent k fs))
     \<and> list_all (\<lambda>f. kind_ok (Kind f) \<and> obj p (Stream f) \<noteq> None
          \<and> (c \<longrightarrow> Kind f \<noteq> DataK) \<and> (Kind f = DataK \<longrightarrow> Body f \<noteq> [])) fs
     \<and> (fs = [] \<or> int (total_size fs) \<le> bud)
     \<and> dom (obj p') = dom (obj p)"

lemma sends_refl: "peer_inv p \<Longrightarrow> sends c p bud p []"
  by (simp add: sends_def)

lemma sends_trans:
  assumes "sends c p bud q fs" and "sends c q (bud - int (total_size fs)) r gs"
  shows "sends c p bud r (fs @ gs)"
  unfolding sends_def
proof (intro conjI allI)
  fix k
  have "sent k fs @ unsent q k = unsent p k" "sent k gs @ unsent r k = unsent q k"
    using assms by (auto simp: sends_def)
  then show "sent k (fs @ gs) @ unsent r k = unsent p k" by simp
  show "credit_of p k = credit_of r k + length (sent k (fs @ gs))"
    using assms by (simp add: sends_def)
next
  have dom: "obj q x \<noteq> None \<longleftrightarrow> obj p x \<noteq> None" for x
    using assms(1) by (auto simp: sends_def)
  show "list_all (\<lambda>f. kind_ok (Kind f) \<and> obj p (Stream f) \<noteq> None \<and> (c \<longrightarrow> Kind f \<noteq> DataK)
      \<and> (Kind f = DataK \<longrightarrow> Body f \<noteq> [])) (fs @ gs)"
    using assms unfolding sends_def dom by simp
qed (use assms in \<open>auto simp: sends_def\<close>)

lemma sends_turn:
  assumes "peer_inv p'" and "obj p k = Some s" and "obj p' = (obj p)(k \<mapsto> s')"
    and "window p' = window p" and "send p' = send p" and "turn_ok k bud c s s' fo"
  shows "sends c p bud p' (opt_frames fo)"
proof -
  have other: "sent j (opt_frames fo) = []" if "j \<noteq> k" for j
    using assms(6) that by (cases fo) (auto simp: turn_ok_def)
  have "sent j (opt_frames fo) @ unsent p' j = unsent p j"
    "credit_of p j = credit_of p' j + length (sent j (opt_frames fo))" for j
    using assms(2,3,6) other by (cases "j = k"; simp add: unsent_def credit_of_def turn_ok_def)+
  moreover have "list_all (\<lambda>f. kind_ok (Kind f) \<and> obj p (Stream f) \<noteq> None
      \<and> (c \<longrightarrow> Kind f \<noteq> DataK) \<and> (Kind f = DataK \<longrightarrow> Body f \<noteq> [])) (opt_frames fo)"
    "opt_frames fo = [] \<or> int (total_size (opt_frames fo)) \<le> bud"
    using assms(2,6) by (cases fo; simp add: turn_ok_def)+
  moreover have "dom (obj p') = dom (obj p)" using assms(2,3) by auto
  ultimately show ?thesis using assms(1,4,5) by (simp add: sends_def)
qed

lemma sends_retire:
  assumes "peer_inv p" and "obj p k = Some s"
  shows "sends c p bud (retire p k s) []"
  using sends_turn [of "retire p k s" p k s "close_stream s" bud c None] retire_ok [OF assms] assms
  by (simp add: turn_ok_def)

lemma peer_inv_cursor: "peer_inv p \<Longrightarrow> n \<le> length (order p) \<Longrightarrow> peer_inv (p\<lparr>cursor := n\<rparr>)"
  by (simp add: peer_inv_def)

lemma take_loop_sends:
  assumes "peer_inv p"
  shows "\<exists>gs. snd (take_loop p bud c m fs) = fs @ gs \<and> sends c p bud (fst (take_loop p bud c m fs)) gs
    \<and> (length fs \<le> 4096 \<longrightarrow> length (fs @ gs) \<le> 4096)"
  using assms
proof (induction p bud c m fs rule: take_loop.induct)
  case (1 p bud c m fs)
  show ?case
  proof (cases "bud \<ge> int FrameHeader \<and> length (order p) > 0 \<and> m < length (order p) \<and> length fs < 4096")
    case False
    then show ?thesis
      using sends_refl [OF "1.prems"] by (subst (1 2) take_loop.simps) auto
  next
    case True
    define i where "i = cursor p mod length (order p)"
    define k where "k = order p ! i"
    define q where "q = p\<lparr>cursor := i + 1\<rparr>"
    have i: "i < length (order p)" using True by (simp add: i_def)
    have q: "peer_inv q" "obj q = obj p" "streams q = streams p" "window q = window p" "send q = send p"
      using peer_inv_cursor [OF "1.prems", of "i + 1"] i by (simp_all add: q_def)
    have from_q: "sends c p b r gs" if "sends c q b r gs" for b r gs
      using that q by (simp add: sends_def unsent_def credit_of_def)
    have "k \<in> fst ` set (streams p)"
      using "1.prems" i by (auto simp: peer_inv_def k_def)
    then obtain s where s: "map_of (streams q) k = Some s"
      unfolding dom_keys q(3) by auto
    have ob: "obj q k = Some s" using s by auto
    note IH = "1.IH" [OF True i_def k_def q_def]
    show ?thesis
    proof (cases "finished s")
      case fin: True
      have step: "take_loop p bud c m fs = take_loop (retire q k s) bud c m fs"
        using True s fin by (subst take_loop.simps) (simp add: Let_def i_def k_def q_def)
      have r: "peer_inv (retire q k s)" using retire_ok [OF q(1) ob] by simp
      from IH(2) [OF s fin r] obtain gs where gs:
        "snd (take_loop (retire q k s) bud c m fs) = fs @ gs"
        "sends c (retire q k s) bud (fst (take_loop (retire q k s) bud c m fs)) gs"
        "length fs \<le> 4096 \<longrightarrow> length (fs @ gs) \<le> 4096" by blast
      have "sends c q bud (fst (take_loop (retire q k s) bud c m fs)) ([] @ gs)"
        by (rule sends_trans [OF sends_retire [OF q(1) ob]]) (simp add: gs)
      then show ?thesis using step gs from_q by auto
    next
      case nfin: False
      obtain q' s' fo where tf: "take_frame q k s bud c = (q', s', fo)" by (metis prod_cases3)
      have ok: "peer_inv q'" "obj q' = (obj q)(k \<mapsto> s')" "window q' = window q" "send q' = send q"
        "turn_ok k bud c s s' fo"
        using take_frame_ok [OF q(1) s _ tf] True by auto
      have turn: "sends c q bud q' (opt_frames fo)" by (rule sends_turn [OF ok(1) ob ok(2-5)])
      show ?thesis
      proof (cases fo)
        case None
        have step: "take_loop p bud c m fs = take_loop q' bud c (m + 1) fs"
          using True s nfin tf None by (subst take_loop.simps) (simp add: Let_def i_def k_def q_def)
        from IH(3) [OF s nfin tf [symmetric] refl None ok(1)] obtain gs where gs:
          "snd (take_loop q' bud c (m + 1) fs) = fs @ gs"
          "sends c q' bud (fst (take_loop q' bud c (m + 1) fs)) gs"
          "length fs \<le> 4096 \<longrightarrow> length (fs @ gs) \<le> 4096" by blast
        have "sends c q bud (fst (take_loop q' bud c (m + 1) fs)) (opt_frames fo @ gs)"
          by (rule sends_trans [OF turn]) (use gs(2) None in simp)
        then show ?thesis using step gs from_q None by auto
      next
        case (Some f)
        define r where "r = (if finished s' then retire q' k s' else q')"
        have ob': "obj q' k = Some s'" using ok(2) by simp
        have turn': "sends c q bud r [f]" and r: "peer_inv r"
          using sends_trans [OF turn] sends_retire [OF ok(1) ob', of c "bud - int (total_size [f])"]
            retire_ok [OF ok(1) ob'] Some turn ok(1)
          by (auto simp: r_def)
        let ?b = "bud - int (Size f)"
        have step: "take_loop p bud c m fs = take_loop r ?b c 0 (fs @ [f])"
          using True s nfin tf Some by (subst take_loop.simps) (simp add: Let_def i_def k_def q_def r_def)
        from IH(4) [OF s nfin tf [symmetric] refl Some, folded r_def, OF r] obtain gs where gs:
          "snd (take_loop r ?b c 0 (fs @ [f])) = (fs @ [f]) @ gs"
          "sends c r ?b (fst (take_loop r ?b c 0 (fs @ [f]))) gs"
          "length (fs @ [f]) \<le> 4096 \<longrightarrow> length ((fs @ [f]) @ gs) \<le> 4096" by blast
        have "sends c q bud (fst (take_loop r ?b c 0 (fs @ [f]))) ([f] @ gs)"
          by (rule sends_trans [OF turn']) (simp add: gs)
        then show ?thesis using step gs from_q True by auto
      qed
    qed
  qed
qed

lemma take_frames_sends:
  assumes "peer_inv p"
  shows "sends c p bud (fst (take_frames p bud c)) (snd (take_frames p bud c))
    \<and> length (snd (take_frames p bud c)) \<le> 4096"
  using take_loop_sends [OF assms, of bud c 0 "[]"] sends_refl [OF assms, of c bud]
  by (auto simp: take_frames_def)

section \<open>Sources of cell frames\<close>

text \<open>
  A carrier fills a cell of \<open>capacity\<close> bytes with the frames a source returns for the space
  behind the cell header. The contract of a source is that the frames fit that space and
  have kinds of the cell format; then encoding the cell cannot fail.
\<close>

locale frame_source =
  fixes inv :: "'s \<Rightarrow> bool"
    and take_from :: "'s \<Rightarrow> int \<Rightarrow> 's \<times> frame list"
  assumes keeps: "inv s \<Longrightarrow> inv (fst (take_from s bud))"
    and fits: "inv s \<Longrightarrow> snd (take_from s bud) = [] \<or> int (total_size (snd (take_from s bud))) \<le> bud"
    and count: "inv s \<Longrightarrow> length (snd (take_from s bud)) \<le> 4096"
    and kinds: "inv s \<Longrightarrow> list_all (\<lambda>f. kind_ok (Kind f)) (snd (take_from s bud))"
begin

lemma taken_encodable:
  assumes "inv s" and "int Header + int (total_size pre) \<le> capacity" and "capacity \<le> int MaxCell"
    and "list_all (\<lambda>f. kind_ok (Kind f)) pre"
    and "length pre + length (snd (take_from s (capacity - int Header - int (total_size pre)))) \<le> 4096"
  shows "encodable capacity (pre @ snd (take_from s (capacity - int Header - int (total_size pre))))"
proof -
  let ?bud = "capacity - int Header - int (total_size pre)"
  have "snd (take_from s ?bud) = [] \<or> int (total_size (snd (take_from s ?bud))) \<le> ?bud"
    by (rule fits [OF assms(1)])
  then have "int Header + int (total_size (pre @ snd (take_from s ?bud))) \<le> capacity"
    using assms(2) by auto
  then show ?thesis
    using assms(3-5) kinds [OF assms(1)] by (simp add: encodable_def)
qed

lemma encode_taken:
  assumes "inv s" and "int Header \<le> capacity" and "capacity \<le> int MaxCell"
    and "fills rand" and "\<And>n. rand n \<noteq> None"
  shows "\<exists>body. Encode rand seq capacity (snd (take_from s (capacity - int Header))) = Ok body
    \<and> length body = nat capacity
    \<and> Decode body = Ok (seq, snd (take_from s (capacity - int Header)),
        nat capacity - (Header + total_size (snd (take_from s (capacity - int Header)))))"
  using taken_encodable [OF assms(1), of "[]" capacity] assms(2,3) count [OF assms(1)]
  by (intro encode_encodable [OF _ assms(4,5)]) simp_all

text \<open>At most one frame per \<open>FrameHeader\<close> bytes of the budget.\<close>

lemma taken_count:
  assumes "inv s" and "0 \<le> bud"
  shows "int FrameHeader * int (length (snd (take_from s bud))) \<le> bud"
  using fits [OF assms(1), of bud] total_size_ge_length [of "snd (take_from s bud)"] assms(2) by auto

end

interpretation data_source: frame_source peer_inv Take
proof (unfold_locales, goal_cases)
  case (1 s bud)
  then show ?case using take_frames_sends [of s False bud] by (simp add: Take_def sends_def)
next
  case (2 s bud)
  then show ?case using take_frames_sends [of s False bud] by (simp add: Take_def sends_def)
next
  case (3 s bud)
  then show ?case using take_frames_sends [of s False bud] by (simp add: Take_def)
next
  case (4 s bud)
  then show ?case
    using take_frames_sends [of s False bud] by (auto simp: Take_def sends_def list_all_iff)
qed

interpretation control_source: frame_source peer_inv TakeControls
proof (unfold_locales, goal_cases)
  case (1 s bud)
  then show ?case using take_frames_sends [of s True bud] by (simp add: TakeControls_def sends_def)
next
  case (2 s bud)
  then show ?case using take_frames_sends [of s True bud] by (simp add: TakeControls_def sends_def)
next
  case (3 s bud)
  then show ?case using take_frames_sends [of s True bud] by (simp add: TakeControls_def)
next
  case (4 s bud)
  then show ?case
    using take_frames_sends [of s True bud] by (auto simp: TakeControls_def sends_def list_all_iff)
qed

end
