(* ===== verification/Mux_Goroutines.thy ===== *)
theory Mux_Goroutines
  imports Mux_Take
begin

text \<open>
  The goroutines of a stream and the step relation of the whole multiplexer: every exported
  operation and every atomic section of the dial, read and write goroutines is one step,
  in any order. The invariant holds in every reachable state.
\<close>

section \<open>The reading goroutine\<close>

lemma contiguous_snoc:
  "contiguous a (fs @ [f]) b \<longleftrightarrow>
     contiguous a fs (Sequence f) \<and> Sequence f + of_nat (length (Body f)) = b"
  by (induction fs arbitrary: a) auto

lemma out_frames_snoc [simp]:
  "out_frames (s\<lparr>output_q := output_q s @ [f]\<rparr>) = out_frames s @ [f]"
  by (simp add: out_frames_def)

lemma stream_inv_reading:
  assumes "stream_inv w sw k (s\<lparr>reader := R_read\<rparr>)"
  shows "stream_inv w sw k (s\<lparr>reader := R_done\<rparr>)"
    and "stream_inv w sw k (s\<lparr>reader := R_fin \<lparr>Kind = FinK, Stream = k, Sequence = nextOut s, Body = []\<rparr>\<rparr>)"
    and "data \<noteq> [] \<Longrightarrow> stream_inv w sw k (s\<lparr>queuedBytes := queuedBytes s + int (length data), reader :=
      R_send \<lparr>Kind = DataK, Stream = k, Sequence = nextOut s, Body = data\<rparr> e\<rparr>)"
  using assms by (auto simp: stream_inv_defs out_kind_def)

lemma stream_inv_not_reading:
  assumes "stream_inv w sw k s" and "reader s \<noteq> R_none" and "reader s \<noteq> R_done"
  shows "\<not> localFinSent s" and "list_all (\<lambda>f. Kind f = DataK) (out_frames s)" and "dialing s = None"
proof -
  have out: "list_all out_kind (out_frames s)" and fin: "fin_ok s"
    using assms(1) by (auto simp: stream_inv_def out_ok_def list_all_iff)
  show "\<not> localFinSent s" "dialing s = None" using fin assms(2,3) by (auto simp: fin_ok_def)
  show "list_all (\<lambda>f. Kind f = DataK) (out_frames s)"
  proof (cases "out_frames s" rule: rev_cases)
    case (snoc fs f)
    then show ?thesis using out fin assms(3) by (auto simp: fin_ok_def out_kind_def)
  qed simp
qed

lemma stream_inv_offer:
  assumes inv: "stream_inv w sw k s" and f: "held_frames s = [f]" and room: "length (output_q s) < 16"
    and pc: "pc = R_read \<or> pc = R_done" "Kind f = FinK \<Longrightarrow> pc = R_done"
  shows "stream_inv w sw k (s\<lparr>output_q := output_q s @ [f],
    nextOut := nextOut s + of_nat (length (Body f)), reader := pc\<rparr>)" (is "stream_inv w sw k ?t")
proof -
  have r: "reader s \<noteq> R_none" "reader s \<noteq> R_done" using f by (auto simp: held_frames_def)
  note active = stream_inv_not_reading [OF inv r]
  have out: "out_frames ?t = out_frames s @ [f]" and held: "held_frames ?t = []"
    using pc(1) by (auto simp: out_frames_def held_frames_def)
  have ok: "out_ok k s" using inv by (simp add: stream_inv_def)
  have f': "Sequence f = nextOut s" "out_kind f" "Stream f = k"
    using ok f by (auto simp: out_ok_def)
  obtain a where "contiguous a (out_frames s) (nextOut s)" using ok by (auto simp: out_ok_def)
  then have "contiguous a (out_frames ?t) (nextOut ?t)" using f' by (simp add: out contiguous_snoc)
  then have "out_ok k ?t"
    using ok f f' room by (auto simp: out_ok_def out held)
  moreover have "fin_ok ?t"
    using active pc inv by (auto simp: fin_ok_def out stream_inv_def)
  ultimately show ?thesis
    using inv by (simp add: stream_inv_def queued_in_def inflight_def input_ok_def)
qed

lemma peer_inv_fail:
  assumes "peer_inv p" and "obj p k \<noteq> None" and "stream_inv (window p) (send p) k s"
  shows "peer_inv (fail p k s)"
  using assms peer_inv_set_obj [of p k "close_stream (s\<lparr>reset := True\<rparr>)"]
  by (simp add: fail_def Let_def)

lemma peer_inv_read_after:
  assumes "peer_inv p" and "obj p k \<noteq> None"
    and inv: "stream_inv (window p) (send p) k (s\<lparr>reader := R_read\<rparr>)"
  shows "peer_inv (read_after p k s e)"
proof -
  have "sid s = k" using inv by (simp add: stream_inv_def)
  then show ?thesis
    using assms peer_inv_set_obj [OF assms(1,2)] peer_inv_fail [OF assms(1,2)] stream_inv_reading [OF inv]
    by (cases e) (simp_all add: read_after_def)
qed

lemma peer_inv_read_return:
  assumes "peer_inv p" and "obj p k = Some s" and "reader s = R_read"
  shows "peer_inv (read_return p k s data e)"
proof -
  have inv: "stream_inv (window p) (send p) k (s\<lparr>reader := R_read\<rparr>)"
    using peer_inv_obj [OF assms(1,2)] assms(3) by (metis stream.surjective stream.update_convs(21))
  have "sid s = k" using inv by (simp add: stream_inv_def)
  then show ?thesis
    using assms peer_inv_set_obj [OF assms(1)] stream_inv_reading(3) [OF inv] peer_inv_read_after [OF assms(1) _ inv]
    by (auto simp: read_return_def)
qed

lemma peer_inv_read_sent:
  assumes "peer_inv p" and "obj p k = Some s" and "reader s = R_send f e" and "length (output_q s) < 16"
  shows "peer_inv (read_sent p k s f e)"
proof -
  have inv: "stream_inv (window p) (send p) k s" by (rule peer_inv_obj [OF assms(1,2)])
  have "stream_inv (window p) (send p) k (s\<lparr>output_q := output_q s @ [f],
      nextOut := nextOut s + of_nat (length (Body f)), reader := R_read\<rparr>)"
    using inv assms(3,4) by (intro stream_inv_offer) (auto simp: held_frames_def stream_inv_def fin_ok_def)
  then show ?thesis
    using assms(1,2) by (simp add: read_sent_def peer_inv_read_after)
qed

lemma peer_inv_read_fin_sent:
  assumes "peer_inv p" and "obj p k = Some s" and "reader s = R_fin f" and "length (output_q s) < 16"
  shows "peer_inv (read_fin_sent p k s f)"
proof -
  have inv: "stream_inv (window p) (send p) k s" by (rule peer_inv_obj [OF assms(1,2)])
  have "out_kind f" "Kind f = FinK"
    using inv assms(3) by (auto simp: stream_inv_def out_ok_def held_frames_def fin_ok_def)
  then have "Body f = []" by (simp add: out_kind_def)
  then have "stream_inv (window p) (send p) k (s\<lparr>output_q := output_q s @ [f], reader := R_done\<rparr>)"
    using stream_inv_offer [OF inv, of f R_done] assms(3,4) by (simp add: held_frames_def)
  then show ?thesis
    using assms(1,2) by (simp add: read_fin_sent_def peer_inv_set_obj)
qed

lemma stream_inv_cancel:
  assumes "stream_inv w sw k s" and "held_frames s = [f]"
  shows "stream_inv w sw k (s\<lparr>queuedBytes := queuedBytes s - int (length (Body f)), reader := R_done\<rparr>)"
proof -
  have r: "reader s \<noteq> R_none" "reader s \<noteq> R_done" using assms(2) by (auto simp: held_frames_def)
  note active = stream_inv_not_reading [OF assms(1) r]
  let ?t = "s\<lparr>queuedBytes := queuedBytes s - int (length (Body f)), reader := R_done\<rparr>"
  have "out_frames ?t = out_frames s" "held_frames ?t = []"
    by (simp_all add: out_frames_def held_frames_def)
  then show ?thesis
    using assms active
    by (auto simp: stream_inv_def queued_in_def inflight_def input_ok_def out_ok_def fin_ok_def)
qed

section \<open>The writing goroutine\<close>

lemma input_ok_pop:
  assumes "input_ok s" and "input_q s = f # fs"
  shows "input_ok (s\<lparr>input_q := fs\<rparr>) \<and> length (Body f) \<le> streamChunk"
proof -
  obtain ds fin where q: "f # fs = ds @ fin" "list_all (\<lambda>f. Kind f = DataK) ds"
    "chunked streamChunk (map Body ds)"
    "fin = [] \<or> (remoteFin s \<and> (\<exists>g. fin = [g] \<and> Kind g = FinK \<and> Body g = []))"
    using assms by (auto simp: input_ok_def)
  show ?thesis
  proof (cases ds)
    case Nil
    then have "fs = [] \<and> Body f = []" using q by auto
    then show ?thesis by (simp add: input_ok_def)
  next
    case (Cons d ds')
    then have "chunked streamChunk (map Body ds')" "length (Body f) \<le> streamChunk"
      using q(1,3) chunked_ConsD by auto
    then show ?thesis using q Cons by (auto simp: input_ok_def)
  qed
qed

lemma stream_inv_write_pop:
  assumes inv: "stream_inv w sw k s" and "input_q s = f # fs" and "inflight s = 0"
    and pc: "pc = W_fin \<or> pc = W_write f (Body f)"
  shows "stream_inv w sw k (s\<lparr>input_q := fs, writer := pc\<rparr>)"
proof -
  let ?t = "s\<lparr>input_q := fs, writer := pc\<rparr>"
  have pop: "input_ok (s\<lparr>input_q := fs\<rparr>)" "length (Body f) \<le> streamChunk"
    using input_ok_pop [of s f fs] inv assms(2) by (auto simp: stream_inv_def)
  have "queued_in ?t + inflight ?t \<le> queued_in s"
    using pc assms(2) by (auto simp: queued_in_def inflight_def)
  moreover have "input_ok ?t" using pop(1) by (simp add: input_ok_def)
  moreover have "out_ok k ?t" "fin_ok ?t"
    using inv by (simp_all add: stream_inv_def out_ok_def fin_ok_def out_frames_def held_frames_def)
  ultimately show ?thesis using inv pop(2) pc by (auto simp: stream_inv_def)
qed

lemma stream_inv_write_done:
  assumes inv: "stream_inv w sw k s" and "writer s = W_write f rest"
  shows "stream_inv w sw k (s\<lparr>budget := budget s + of_nat (length (Body f)),
    grant := g, writer := W_loop\<rparr>)"
proof -
  let ?n = "length (Body f)"
  let ?t = "s\<lparr>budget := budget s + of_nat ?n, grant := g, writer := W_loop\<rparr>"
  have le: "unat (budget s) + queued_in s + ?n \<le> unat w"
    using inv assms(2) by (simp add: stream_inv_def inflight_def)
  then have "unat (budget s) + ?n < 2 ^ 32" using unat_bound [of w] by simp
  then have "unat (budget s + of_nat ?n) = unat (budget s) + ?n"
    by (simp add: unat_word_ariths unat_of_nat)
  moreover have "queued_in ?t = queued_in s" "inflight ?t = 0" "input_ok ?t = input_ok s"
    "out_ok k ?t = out_ok k s" "fin_ok ?t = fin_ok s"
    by (simp_all add: stream_inv_defs)
  ultimately show ?thesis using inv le by (simp add: stream_inv_def)
qed

section \<open>The step relation\<close>

text \<open>
  A step is a call of an exported operation or one atomic section of a goroutine of the
  stream object \<open>k\<close>. The connection is the environment: it returns at most a chunk per
  read and writes between none and all of the bytes it was given.
\<close>

inductive peer_step :: "peer \<Rightarrow> peer \<Rightarrow> bool" where
  open_call: "peer_step p (fst (Open p a))"
| receive_call: "peer_step p (fst (Receive p fs))"
| take_call: "peer_step p (fst (Take p bud))"
| take_controls_call: "peer_step p (fst (TakeControls p bud))"
| close_call: "peer_step p (Close p)"
| dial: "obj p k = Some s \<Longrightarrow> dialing s = Some t \<Longrightarrow> peer_step p (dial_done p k s ok)"
| read_data: "obj p k = Some s \<Longrightarrow> reader s = R_read \<Longrightarrow> length data \<le> streamChunk \<Longrightarrow>
    peer_step p (read_return p k s data e)"
| read_offer: "obj p k = Some s \<Longrightarrow> reader s = R_send f e \<Longrightarrow> length (output_q s) < 16 \<Longrightarrow>
    peer_step p (read_sent p k s f e)"
| read_fin: "obj p k = Some s \<Longrightarrow> reader s = R_fin f \<Longrightarrow> length (output_q s) < 16 \<Longrightarrow>
    peer_step p (read_fin_sent p k s f)"
| read_cancel: "obj p k = Some s \<Longrightarrow> ctx_done s \<Longrightarrow> reader s = R_send f e \<or> reader s = R_fin f \<Longrightarrow>
    peer_step p (read_cancelled p k s f)"
| write_top: "obj p k = Some s \<Longrightarrow> writer s = W_loop \<Longrightarrow> peer_step p (write_turn p k s)"
| write_woken: "obj p k = Some s \<Longrightarrow> writer s = W_wait \<Longrightarrow> inputReady s \<Longrightarrow>
    peer_step p (write_wake p k s)"
| write_cancel: "obj p k = Some s \<Longrightarrow> writer s = W_wait \<Longrightarrow> ctx_done s \<Longrightarrow>
    peer_step p (write_cancelled p k s)"
| write_part: "obj p k = Some s \<Longrightarrow> writer s = W_write f rest \<Longrightarrow> rest \<noteq> [] \<Longrightarrow> n \<le> length rest \<Longrightarrow>
    peer_step p (write_some p k s f rest n err)"
| write_all: "obj p k = Some s \<Longrightarrow> writer s = W_write f [] \<Longrightarrow> peer_step p (write_done p k s f)"
| write_half_close: "obj p k = Some s \<Longrightarrow> writer s = W_fin \<Longrightarrow> peer_step p (write_fin p k s err)"

definition peer_start :: "peer \<Rightarrow> bool" where
  "peer_start p \<longleftrightarrow> (\<exists>d. p = New d \<or> p = NewHTTP3 d \<or> p = NewPacket d)"

lemma peer_inv_start: "peer_start p \<Longrightarrow> peer_inv p"
  by (auto simp: peer_start_def New_def NewHTTP3_def NewPacket_def newPeer_def peer_inv_def obj_def)

lemma peer_inv_Close:
  assumes "peer_inv p"
  shows "peer_inv (Close p)"
proof -
  have mm: "map_of (map (\<lambda>(k, s). (k, g s)) al) = map_option g \<circ> map_of al" for g and al :: "(u32 \<times> stream) list"
    by (rule map_of_map)
  have "stream_inv (window p) (send p) k s" if "obj (Close p) k = Some s" for k s
  proof -
    have "\<exists>t. obj p k = Some t \<and> (s = close_stream t \<or> s = t\<lparr>ctx_done := True\<rparr>)"
    proof (cases "map_of (streams p) k")
      case None
      then show ?thesis using that by (auto simp: obj_def Close_def mm)
    next
      case (Some t)
      then show ?thesis using that by (auto simp: obj_def Close_def mm)
    qed
    then obtain t where "obj p k = Some t" "s = close_stream t \<or> s = t\<lparr>ctx_done := True\<rparr>" by blast
    then show ?thesis using peer_inv_obj [OF assms] by auto
  qed
  moreover have keys: "map fst (streams (Close p)) = map fst (streams p)"
    "map fst (retired (Close p)) = map fst (retired p)"
    by (simp_all add: Close_def case_prod_beta comp_def)
  moreover have "fst ` set (streams (Close p)) = fst ` set (streams p)"
    "fst ` set (retired (Close p)) = fst ` set (retired p)"
    using keys by (metis list.set_map)+
  moreover have "length (streams (Close p)) = length (streams p)" "order (Close p) = order p"
    "cursor (Close p) = cursor p" "highest (Close p) = highest p" "window (Close p) = window p"
    "send (Close p) = send p"
    by (simp_all add: Close_def)
  ultimately show ?thesis using assms by (simp add: peer_inv_def)
qed

lemma peer_inv_write_steps:
  assumes "peer_inv p" and "obj p k = Some s"
  shows "writer s = W_loop \<Longrightarrow> peer_inv (write_turn p k s)"
    and "writer s = W_wait \<Longrightarrow> peer_inv (write_wake p k s)"
    and "writer s = W_write f rest \<Longrightarrow> peer_inv (write_some p k s f rest n err)"
    and "writer s = W_write f rest \<Longrightarrow> peer_inv (write_done p k s f)"
    and "writer s = W_fin \<Longrightarrow> peer_inv (write_fin p k s err)"
    and "peer_inv (write_cancelled p k s)"
proof -
  have inv: "stream_inv (window p) (send p) k s" by (rule peer_inv_obj [OF assms])
  have ob: "obj p k \<noteq> None" using assms(2) by simp
  note upd = peer_inv_set_obj [OF assms(1) ob] and fl = peer_inv_fail [OF assms(1) ob]
  note pc = stream_inv_writer [OF inv]
  show "peer_inv (write_turn p k s)" if "writer s = W_loop"
  proof (cases "input_q s")
    case (Cons f fs)
    have "stream_inv (window p) (send p) k (s\<lparr>input_q := fs,
        writer := (if Kind f = FinK then W_fin else W_write f (Body f))\<rparr>)"
      using that by (intro stream_inv_write_pop [OF inv Cons]) (simp_all add: inflight_def)
    then show ?thesis using Cons upd pc [of W_done] by (simp add: write_turn_def)
  qed (use upd pc [of W_done] pc [of W_wait] in \<open>simp add: write_turn_def\<close>)
  show "peer_inv (write_wake p k s)"
    unfolding write_wake_def by (intro upd stream_inv_writer) (simp_all add: inv)
  show "peer_inv (write_some p k s f rest n err)" if "writer s = W_write f rest"
    using that upd fl pc [of W_done] pc [of "W_write f (drop n rest)"] by (simp add: write_some_def)
  show "peer_inv (write_done p k s f)" if "writer s = W_write f rest"
    using upd stream_inv_write_done [OF inv that] by (simp add: write_done_def Let_def)
  show "peer_inv (write_cancelled p k s)" using upd pc [of W_done] by (simp add: write_cancelled_def)
  show "peer_inv (write_fin p k s err)"
  proof -
    let ?t = "s\<lparr>remoteFinWritten := True, writer := W_done\<rparr>"
    have t: "stream_inv (window p) (send p) k ?t"
      using stream_inv_writer [of _ _ _ "s\<lparr>remoteFinWritten := True\<rparr>" W_done] inv by simp
    have "obj (set_obj p k ?t) k = Some ?t" using obj_set_obj [OF ob] by simp
    then have "peer_inv (retire (set_obj p k ?t) k ?t)" using retire_ok [OF upd [OF t]] by blast
    then show ?thesis using upd [OF t] fl pc [of W_done] by (simp add: write_fin_def Let_def)
  qed
qed

lemma peer_inv_dial_done:
  assumes "peer_inv p" and "obj p k = Some s" and "dialing s = Some t"
  shows "peer_inv (dial_done p k s ok)"
proof -
  have inv: "stream_inv (window p) (send p) k s" by (rule peer_inv_obj [OF assms(1,2)])
  have "reader s = R_none" using inv assms(3) by (simp add: stream_inv_def fin_ok_def)
  then have "stream_inv (window p) (send p) k (attach (s\<lparr>dialing := None, ack := True\<rparr>))"
    using stream_inv_dialed [OF inv] by (intro stream_inv_attach) simp_all
  then show ?thesis
    using assms(1,2) stream_inv_dialed [OF inv]
    by (simp add: dial_done_def Let_def peer_inv_set_obj peer_inv_fail)
qed

lemma peer_inv_step: "peer_inv p \<Longrightarrow> peer_step p q \<Longrightarrow> peer_inv q"
proof (erule peer_step.cases, goal_cases)
  case (10 p' k s f e)
  then have "stream_inv (window p) (send p) k s" "held_frames s = [f]"
    using peer_inv_obj by (auto simp: held_frames_def)
  then show ?case using 10 stream_inv_cancel peer_inv_set_obj [of p k] by (simp add: read_cancelled_def)
qed (simp_all add: peer_inv_Open peer_inv_Receive data_source.keeps control_source.keeps peer_inv_Close
    peer_inv_dial_done peer_inv_read_return peer_inv_read_sent peer_inv_read_fin_sent peer_inv_write_steps)

interpretation mux: step_system peer_start peer_step peer_inv
  by unfold_locales (auto intro: peer_inv_start peer_inv_step)

end
