(* ===== verification/Mux_Progress.thy ===== *)
theory Mux_Progress
  imports Mux_Goroutines
begin

text \<open>
  The scheduler does not starve: a call of \<open>Take\<close> visits every active stream before it gives
  up, so it returns no frame only when no active stream has anything it may send.
\<close>

text \<open>Something to send for stream \<open>s\<close> within the budget, in the order of the switch.\<close>

definition sendable :: "int \<Rightarrow> bool \<Rightarrow> stream \<Rightarrow> bool" where
  "sendable bud controlsOnly s \<longleftrightarrow>
     (if reset s then True
      else case open_frame s of
        Some f \<Rightarrow> int (Size f) \<le> bud
      | None \<Rightarrow> ack s \<or> (grant s > 0 \<and> bud \<ge> int FrameHeader + 4)
          \<or> (case out_frames s of
               [] \<Rightarrow> False
             | f # _ \<Rightarrow> Kind f \<noteq> DataK
                 \<or> (\<not> controlsOnly \<and> Body f \<noteq> [] \<and> bud > int FrameHeader \<and> credit s > 0)))"

lemma take_queued_None:
  assumes "take_queued s bud c = (s', None, n)"
  shows "case out_frames s of [] \<Rightarrow> True
    | f # _ \<Rightarrow> Kind f = DataK \<and> (c \<or> Body f = [] \<or> bud \<le> int FrameHeader \<or> credit s = 0)"
proof (cases "pending (load_pending s)")
  case None
  then have "out_frames s = []"
    by (auto simp: load_pending_def out_frames_def split: option.splits list.splits)
  then show ?thesis by simp
next
  case (Some f)
  have "c \<or> Body f = [] \<or> bud \<le> int FrameHeader \<or> credit s = 0" if "Kind f = DataK"
  proof (rule ccontr)
    assume no: "\<not> ?thesis"
    then have "uint (credit s) \<noteq> 0" by (simp add: uint_0_iff)
    then have "0 < uint (credit s)" using uint_ge_0 [of "credit s"] by linarith
    then show False using assms Some that no by (simp add: take_queued_def Let_def)
  qed
  moreover have "Kind f = DataK" using assms Some by (auto simp: take_queued_def Let_def split: if_splits)
  ultimately show ?thesis by (simp add: load_pending_Some [OF Some])
qed

lemma take_frame_None:
  assumes "take_frame p k s bud c = (p', s', None)"
  shows "\<not> sendable bud c s"
proof (cases "reset s \<or> open_frame s \<noteq> None \<or> ack s \<or> (grant s > 0 \<and> bud \<ge> int FrameHeader + 4)")
  case True
  then show ?thesis
    using assms by (auto simp: take_frame_def sendable_def Let_def split: if_splits option.splits)
next
  case False
  then obtain n where "take_queued s bud c = (s', None, n)"
    using assms by (auto simp: take_frame_def Let_def split: prod.splits)
  from take_queued_None [OF this] False show ?thesis
    by (auto simp: sendable_def split: list.splits)
qed

text \<open>The ids the cursor will visit next, from the position the loop computes.\<close>

lemma upcoming_turn:
  assumes "order p \<noteq> []" and "cursor p \<le> length (order p)"
  defines "i \<equiv> cursor p mod length (order p)"
  shows "upcoming p = order p ! i # tl (upcoming p)"
    and "upcoming (p\<lparr>cursor := i + 1\<rparr>) = tl (upcoming p) @ [order p ! i]"
proof -
  let ?xs = "order p"
  have i: "i < length ?xs" using assms(1) by (simp add: i_def)
  have up: "upcoming p = drop i ?xs @ take i ?xs"
    using assms(2) by (cases "cursor p = length ?xs") (auto simp: upcoming_def i_def)
  have dr: "drop i ?xs = ?xs ! i # drop (i + 1) ?xs" using i by (simp add: Cons_nth_drop_Suc)
  show "upcoming p = ?xs ! i # tl (upcoming p)" by (simp add: up dr)
  have "upcoming (p\<lparr>cursor := i + 1\<rparr>) = drop (i + 1) ?xs @ take (i + 1) ?xs" by (simp add: upcoming_def)
  then show "upcoming (p\<lparr>cursor := i + 1\<rparr>) = tl (upcoming p) @ [?xs ! i]"
    using i by (simp add: up dr take_Suc_conv_app_nth)
qed

lemma take_loop_Nil:
  assumes "take_loop p bud c m (fs @ [f]) = (p', gs)" and "peer_inv p"
  shows "gs \<noteq> []"
  using take_loop_sends [OF assms(2), of bud c m "fs @ [f]"] assms(1) by auto

definition quiet :: "int \<Rightarrow> bool \<Rightarrow> peer \<Rightarrow> u32 \<Rightarrow> bool" where
  "quiet bud c p k \<longleftrightarrow> (\<forall>s. map_of (streams p) k = Some s \<longrightarrow> finished s \<or> \<not> sendable bud c s)"

lemma set_upcoming: "set (upcoming p) = set (order p)"
  unfolding upcoming_def by (metis Un_commute append_take_drop_id set_append)

lemma length_upcoming: "cursor p \<le> length (order p) \<Longrightarrow> length (upcoming p) = length (order p)"
  by (simp add: upcoming_def)

lemma streams_take_frame_None:
  assumes "take_frame p k s bud c = (p', s', None)" and "j \<noteq> k"
  shows "map_of (streams p') j = map_of (streams p) j"
  using assms by (auto simp: take_frame_def Let_def set_obj_def count_sent_def split: if_splits option.splits prod.splits)

lemma upcoming_take_frame_None:
  assumes "take_frame p k s bud c = (p', s', None)"
  shows "upcoming p' = upcoming p" and "order p' = order p"
  using assms by (auto simp: take_frame_def Let_def set_obj_def count_sent_def upcoming_def
      split: if_splits option.splits prod.splits)

lemma take_loop_quiet:
  assumes "peer_inv p" and "int FrameHeader \<le> bud" and "snd (take_loop p bud c m []) = []"
  shows "\<forall>k \<in> set (take (length (order p) - m) (upcoming p)). quiet bud c p k"
  using assms
proof (induction "length (order p) - m" arbitrary: p m rule: less_induct)
  case less
  show ?case
  proof (cases "m < length (order p)")
    case False
    then show ?thesis by simp
  next
    case True
    define i where "i = cursor p mod length (order p)"
    define k where "k = order p ! i"
    define q where "q = p\<lparr>cursor := i + 1\<rparr>"
    have ne: "order p \<noteq> []" and cur: "cursor p \<le> length (order p)"
      using True less.prems(1) by (auto simp: peer_inv_def)
    note up = upcoming_turn [OF ne cur, folded i_def, folded k_def q_def]
    have i: "i < length (order p)" using ne by (simp add: i_def)
    have q: "peer_inv q" "streams q = streams p" "order q = order p" "distinct (order q)" "cursor q \<le> length (order q)"
      using peer_inv_cursor [OF less.prems(1), of "i + 1"] i less.prems(1)
      by (simp_all add: q_def peer_inv_def)
    have "k \<in> fst ` set (streams p)"
      using less.prems(1) i by (auto simp: peer_inv_def k_def)
    then obtain s where s: "map_of (streams p) k = Some s" unfolding dom_keys by auto
    have ob: "obj q k = Some s" using s q(2) by auto
    have dist: "k \<notin> set (tl (upcoming p))"
    proof -
      have "distinct (upcoming q)" 
        using q(4) set_take_disj_set_drop_if_distinct [OF q(4), of "cursor q" "cursor q"]
        by (auto simp: upcoming_def)
      then show ?thesis by (simp add: up(2))
    qed
    have split: "set (take (length (order p) - m) (upcoming p))
        = insert k (set (take (length (order p) - Suc m) (tl (upcoming p))))"
      using True by (subst up(1)) (simp add: take_Cons' Suc_diff_Suc)
    show ?thesis
    proof (cases "finished s")
      case fin: True
      let ?r = "retire q k s"
      have r: "peer_inv ?r" using retire_ok [OF q(1) ob] by simp
      have up_set: "upcoming (set_obj q k (close_stream s)) = upcoming q" by (simp add: upcoming_def)
      have ord: "order ?r = remove1 k (order p)" "upcoming ?r = tl (upcoming p)"
        using order_removeStream [of "set_obj q k (close_stream s)" k] q dist
          upcoming_removeStream_aux [of "set_obj q k (close_stream s)" k, unfolded up_set up(2)]
        by (simp_all add: retire_def remove1_append)
      have len: "length (order ?r) = length (order p) - 1"
        unfolding ord using i by (simp add: length_remove1 k_def)
      have step: "take_loop p bud c m [] = take_loop ?r bud c m []"
        using ne True s fin q(2) less.prems(2) by (subst take_loop.simps) (simp add: Let_def i_def k_def q_def)
      have "\<forall>j \<in> set (take (length (order ?r) - m) (upcoming ?r)). quiet bud c ?r j"
        using less.hyps [of ?r m] r less.prems(2,3) True len step by simp
      moreover have "quiet bud c p j" if "quiet bud c ?r j" "j \<noteq> k" for j
        using that q(2) by (simp add: quiet_def retire_def streams_removeStream set_obj_def)
      moreover have "quiet bud c p k" using s fin by (simp add: quiet_def)
      ultimately show ?thesis
        using dist unfolding split ord(2) len by (auto dest: in_set_takeD)
    next
      case nfin: False
      obtain q' s' fo where tf: "take_frame q k s bud c = (q', s', fo)" by (metis prod_cases3)
      have ok: "peer_inv q'" "obj q' k = Some s'"
        using take_frame_ok [OF q(1) _ less.prems(2) tf] s q(2) by auto
      show ?thesis
      proof (cases fo)
        case None
        note tf' = tf [unfolded None]
        have step: "take_loop p bud c m [] = take_loop q' bud c (m + 1) []"
          using ne True s nfin tf None less.prems(2) by (subst take_loop.simps) (simp add: Let_def i_def k_def q_def)
        have "\<forall>j \<in> set (take (length (order q') - Suc m) (upcoming q')). quiet bud c q' j"
          using less.hyps [of q' "Suc m"] ok(1) less.prems(2,3) True step
            upcoming_take_frame_None(2) [OF tf'] q(3) by simp
        moreover have "quiet bud c p j" if "quiet bud c q' j" "j \<noteq> k" for j
          using that streams_take_frame_None [OF tf' that(2)] q(2) by (simp add: quiet_def)
        moreover have "quiet bud c p k" using s take_frame_None [OF tf'] by (simp add: quiet_def)
        moreover have "take (length (order p) - Suc m) (upcoming q')
            = take (length (order p) - Suc m) (tl (upcoming p))"
          using upcoming_take_frame_None(1) [OF tf'] up length_upcoming [OF cur] by simp
        ultimately show ?thesis
          using dist upcoming_take_frame_None(2) [OF tf'] q(3) unfolding split
          by (auto dest: in_set_takeD)
      next
        case (Some f)
        define r where "r = (if finished s' then retire q' k s' else q')"
        have r: "peer_inv r" using ok retire_ok by (auto simp: r_def)
        have "take_loop p bud c m [] = take_loop r (bud - int (Size f)) c 0 ([] @ [f])"
          using ne True s nfin tf Some less.prems(2)
          by (subst take_loop.simps) (simp add: Let_def i_def k_def q_def r_def)
        then have "snd (take_loop p bud c m []) \<noteq> []"
          using take_loop_Nil [OF _ r] by (metis prod.collapse)
        with less.prems(3) show ?thesis by simp
      qed
    qed
  qed
qed

lemma take_frames_progress:
  assumes "peer_inv p" and "\<not> peer_closed p" and "int FrameHeader \<le> bud"
    and "map_of (streams p) k = Some s" and "\<not> finished s" and "sendable bud c s"
  shows "snd (take_frames p bud c) \<noteq> []"
proof
  assume "snd (take_frames p bud c) = []"
  then have "\<forall>j \<in> set (take (length (order p) - 0) (upcoming p)). quiet bud c p j"
    using assms(1,2,3) by (intro take_loop_quiet) (simp_all add: take_frames_def)
  moreover have "k \<in> set (order p)"
    using assms(1,4) by (auto simp: peer_inv_def dom_keys)
  then have "k \<in> set (take (length (order p) - 0) (upcoming p))"
    using assms(1) length_upcoming [of p] by (simp add: peer_inv_def set_upcoming)
  ultimately show False using assms(4-6) by (auto simp: quiet_def)
qed

end
