(* ===== verification/Mux_Properties.thy ===== *)
theory Mux_Properties
  imports Mux_Progress
begin

text \<open>
  The properties of the multiplexer, over every state that exported calls and goroutine
  steps can reach from a new peer in any interleaving.
\<close>

definition mux_reachable :: "peer \<Rightarrow> bool" where
  "mux_reachable p \<longleftrightarrow> (\<exists>p0. peer_start p0 \<and> peer_step\<^sup>*\<^sup>* p0 p)"

lemma mux_reachable_inv: "mux_reachable p \<Longrightarrow> peer_inv p"
  unfolding mux_reachable_def using mux.reachable_inv by blast

lemma mux_reachable_start: "peer_start p \<Longrightarrow> mux_reachable p"
  by (auto simp: mux_reachable_def)

lemma mux_reachable_step: "mux_reachable p \<Longrightarrow> peer_step p q \<Longrightarrow> mux_reachable q"
  unfolding mux_reachable_def by (blast intro: rtranclp.rtrancl_into_rtrancl)

lemma input_count:
  assumes "stream_inv w sw k s" and "streamChunk dvd unat w"
  shows "length (input_q s) \<le> unat w div streamChunk + 1"
proof -
  obtain ds fin where q: "input_q s = ds @ fin" "chunked streamChunk (map Body ds)" "length fin \<le> 1"
  proof -
    have "input_ok s" using assms(1) by (simp add: stream_inv_def)
    then show ?thesis using that unfolding input_ok_def
      by (metis One_nat_def le_zero_eq length_Cons list.size(3) nat_le_linear zero_le)
  qed
  have "length (concat (map Body ds)) \<le> unat w"
    using assms(1) q(1) by (simp add: stream_inv_def queued_in_def)
  then have "length (map Body ds) * streamChunk < unat w + streamChunk"
    using chunked_count [OF q(2)] by simp
  moreover obtain n where "unat w = streamChunk * n" using assms(2) by auto
  ultimately have "length ds \<le> unat w div streamChunk" by simp
  then show ?thesis using q(1,3) by simp
qed

section \<open>Properties\<close>

text \<open>
  C7. Resource bounds. In every reachable state a peer has at most \<open>MaxStreams\<close> streams, and
  each stream keeps its buffers within bounds whatever frames the remote side sent: the
  input queue fits the capacity allocated for it (full chunks of the receive window and one
  slot for FIN), bytes queued, in flight to the connection and still permitted never
  exceed the window, credit never exceeds the send window, the output channel holds at
  most 16 frames, and \<open>queuedBytes\<close> is exactly the payload waiting to be sent.
\<close>

theorem mux_resource_bounds:
  assumes "mux_reachable p" and "obj p k = Some s"
  shows "length (streams p) \<le> MaxStreams
    \<and> length (input_q s) \<le> unat (window p) div streamChunk + 1
    \<and> unat (budget s) + queued_in s + inflight s \<le> unat (window p)
    \<and> credit s \<le> send p
    \<and> length (output_q s) \<le> 16
    \<and> queuedBytes s = int (length (concat (map Body (out_frames s @ held_frames s))))"
proof -
  have inv: "peer_inv p" by (rule mux_reachable_inv [OF assms(1)])
  have s: "stream_inv (window p) (send p) k s" by (rule peer_inv_obj [OF inv assms(2)])
  have "streamChunk dvd unat (window p)" "length (streams p) \<le> MaxStreams"
    using inv by (auto simp: peer_inv_def)
  then show ?thesis
    using input_count [OF s] s unfolding stream_inv_def out_ok_def by blast
qed

text \<open>A server peer that accepted one stream, used by the witnesses below.\<close>

definition demo_open :: frame where
  "demo_open = \<lparr>Kind = OpenK, Stream = 1, Sequence = 0, Body = to_bytes ''a:1''\<rparr>"

definition demo_server :: peer where
  "demo_server = fst (Receive (New True) [demo_open])"

lemma demo_server_reachable: "mux_reachable demo_server"
proof -
  have start: "peer_start (New True)" by (auto simp: peer_start_def)
  show ?thesis
    unfolding demo_server_def by (rule mux_reachable_step [OF mux_reachable_start [OF start] receive_call])
qed

definition demo_stream :: stream where
  "demo_stream = \<lparr>sid = 1, ctx_done = False, conn_set = False, conn_closed = False,
     input_q = [], inputReady = False, output_q = [], pending = None, open_frame = None,
     ack = False, reset = False, credit = Window, budget = Window, grant = 0, nextIn = 0,
     nextOut = 0, remoteFin = False, remoteFinWritten = False, localFinSent = False,
     queuedBytes = 0, reader = R_none, writer = W_none, dialing = Some ''a:1''\<rparr>"

lemma demo_server_stream: "map_of (streams demo_server) 1 = Some demo_stream"
  by code_simp

theorem mux_resource_bounds_witness:
  "length (input_q demo_stream) \<le> unat (window demo_server) div streamChunk + 1
   \<and> map_of (streams demo_server) 1 = Some demo_stream"
proof -
  have "obj demo_server 1 = Some demo_stream" using demo_server_stream by auto
  from mux_resource_bounds [OF demo_server_reachable this] demo_server_stream show ?thesis by blast
qed

text \<open>
  C8. Robustness. Whatever frames arrive in a reachable state, \<open>Receive\<close> returns a value or
  an error: it never slices or indexes out of range. An error leaves the peer in a
  state with the same bounds.
\<close>

theorem Receive_no_panic:
  assumes "mux_reachable p"
  shows "snd (Receive p fs) \<noteq> Panic \<and> mux_reachable (fst (Receive p fs))"
  using peer_inv_Receive [OF mux_reachable_inv [OF assms], of fs]
    mux_reachable_step [OF assms receive_call] by blast

theorem Receive_no_panic_witness: "snd (Receive demo_server [demo_open]) \<noteq> Panic"
  using Receive_no_panic [OF demo_server_reachable] by blast

text \<open>
  C9. A DATA frame, on every branch. Without a stream it is an error. For a stream that is not active it is ignored
  if the stream existed before, and an error otherwise. For an active stream it is refused, and nothing changes,
  when the remote side already finished, when its offset is not the next expected one, when
  it is empty or when it exceeds the receive budget; otherwise exactly its body is
  appended to the bytes queued for the local connection, the expected offset advances (modulo
  \<open>2 ^ 32\<close>), the budget shrinks by its length, the writer of the stream is woken, the bytes are counted, and nothing else of
  this stream, of another one or of the peer changes.
\<close>

theorem receive_data_exact:
  assumes "mux_reachable p" and "Kind f = DataK"
  shows "if Stream f = 0 then receive_frame p f = (p, Fail ''zero stream'')
    else case map_of (streams p) (Stream f) of
      None \<Rightarrow> receive_frame p f = (p, if Stream f \<le> highest p then Ok () else Fail ''unknown stream'')
    | Some s \<Rightarrow>
        if remoteFin s \<or> Sequence f \<noteq> nextIn s \<or> Body f = [] \<or> length (Body f) > unat (budget s)
        then receive_frame p f = (p, Fail ''data sequence or credit'')
        else \<exists>inp b. concat (map Body inp) = concat (map Body (input_q s)) @ Body f
          \<and> unat b = unat (budget s) - length (Body f)
          \<and> receive_frame p f = (p\<lparr>streams := AList.update (Stream f)
                (s\<lparr>input_q := inp, nextIn := nextIn s + of_nat (length (Body f)), budget := b, inputReady := True\<rparr>) (streams p),
              stats := (stats p)\<lparr>Received := Received (stats p) + of_nat (length (Body f))\<rparr>\<rparr>, Ok ())"
proof (cases "map_of (streams p) (Stream f)")
  case None
  then show ?thesis using assms(2) by (simp add: receive_frame_def)
next
  case (Some s)
  show ?thesis
  proof (cases "Stream f = 0 \<or> remoteFin s \<or> Sequence f \<noteq> nextIn s \<or> Body f = [] \<or> length (Body f) > unat (budget s)")
    case True
    then show ?thesis using assms(2) Some by (auto simp: receive_frame_def receive_data_def)
  next
    case False
    have inv: "stream_inv (window p) (send p) (Stream f) s"
      using mux_reachable_inv [OF assms(1)] Some by (auto intro: peer_inv_obj)
    obtain inp where inp: "enqueueData (input_q s) f = Ok inp"
      using enqueueData_total [OF inv] False by auto
    have "chunked streamChunk (map Body (input_q s))"
      using inv False by (auto simp: stream_inv_def input_ok_def)
    from inq.put_appends [OF this inp]
    have app: "concat (map Body inp) = concat (map Body (input_q s)) @ Body f" by simp
    let ?n = "length (Body f)"
    have "unat (of_nat ?n :: u32) = ?n"
      using False unat_bound [of "budget s"] by (intro unat_of_nat_small) simp
    then have "unat (budget s - of_nat ?n) = unat (budget s) - ?n"
      using False by (simp add: unat_sub word_le_nat_alt)
    then have "\<exists>inp b. concat (map Body inp) = concat (map Body (input_q s)) @ Body f
        \<and> unat b = unat (budget s) - ?n
        \<and> receive_frame p f = (p\<lparr>streams := AList.update (Stream f)
              (s\<lparr>input_q := inp, nextIn := nextIn s + of_nat ?n, budget := b, inputReady := True\<rparr>) (streams p),
            stats := (stats p)\<lparr>Received := Received (stats p) + of_nat ?n\<rparr>\<rparr>, Ok ())"
      using False assms(2) Some inp app
      by (intro exI [of _ inp] exI [of _ "budget s - of_nat ?n"]) (simp add: receive_frame_def receive_data_def set_obj_def Let_def)
    then show ?thesis using False Some by simp
  qed
qed

theorem receive_data_exact_witness:
  "\<exists>s'. map_of (streams (fst (receive_frame demo_server \<lparr>Kind = DataK, Stream = 1, Sequence = 0, Body = [7, 8]\<rparr>))) 1 = Some s'
     \<and> concat (map Body (input_q s')) = [7, 8] \<and> inputReady s'"
proof -
  have "map_of (streams demo_server) 1 = Some demo_stream" using demo_server_stream by simp
  with receive_data_exact [OF demo_server_reachable, of "\<lparr>Kind = DataK, Stream = 1, Sequence = 0, Body = [7, 8]\<rparr>"] show ?thesis
    by (auto simp: demo_stream_def update_conv' intro: exI)
qed

text \<open>A client peer that opened a stream and read three bytes to send.\<close>

definition demo_opened :: peer where
  "demo_opened = fst (Open (New False) ''a:1'')"

definition demo_read :: peer where
  "demo_read = read_return demo_opened 1 (the (obj demo_opened 1)) [1, 2, 3] NoErr"

definition demo_client :: peer where
  "demo_client = read_sent demo_read 1 (the (obj demo_read 1))
     \<lparr>Kind = DataK, Stream = 1, Sequence = 0, Body = [1, 2, 3]\<rparr> NoErr"

lemma demo_client_reachable: "mux_reachable demo_client"
proof -
  have start: "peer_start (New False)" by (auto simp: peer_start_def)
  have "mux_reachable demo_opened"
    unfolding demo_opened_def by (rule mux_reachable_step [OF mux_reachable_start [OF start] open_call])
  moreover have "obj demo_opened 1 \<noteq> None \<and> reader (the (obj demo_opened 1)) = R_read" by code_simp
  then have "peer_step demo_opened demo_read"
    unfolding demo_read_def by (intro read_data) auto
  moreover have "obj demo_read 1 \<noteq> None \<and> reader (the (obj demo_read 1)) =
      R_send \<lparr>Kind = DataK, Stream = 1, Sequence = 0, Body = [1, 2, 3]\<rparr> NoErr
      \<and> length (output_q (the (obj demo_read 1))) = 0" by code_simp
  then have "peer_step demo_read demo_client"
    unfolding demo_client_def by (intro read_offer) auto
  ultimately show ?thesis using mux_reachable_step by blast
qed

text \<open>
  C10. Conservation. A call of \<open>Take\<close> loses, duplicates and reorders no byte: for every
  stream object, the payload it sent followed by the payload still queued is the payload that
  was queued before, and the credit shrinks by exactly the bytes sent, never below zero.
\<close>

theorem Take_conserves:
  assumes "mux_reachable p"
  shows "sent k (snd (Take p bud)) @ unsent (fst (Take p bud)) k = unsent p k
    \<and> credit_of p k = credit_of (fst (Take p bud)) k + length (sent k (snd (Take p bud)))"
  using take_frames_sends [OF mux_reachable_inv [OF assms], of False bud]
  by (simp add: sends_def Take_def)

theorem Take_conserves_witness:
  "sent 1 (snd (Take demo_client 100)) @ unsent (fst (Take demo_client 100)) 1 = [1, 2, 3]
   \<and> sent 1 (snd (Take demo_client 100)) = [1, 2, 3]"
proof -
  have "unsent demo_client 1 = [1, 2, 3]" by code_simp
  moreover have "sent 1 (snd (Take demo_client 100)) = [1, 2, 3]" by code_simp
  ultimately show ?thesis using Take_conserves [OF demo_client_reachable, of 1 100] by simp
qed

text \<open>
  C11. Whatever a reachable peer returns from \<open>Take\<close> for the space of a cell can be encoded
  into a cell of that capacity and decodes to the same frames: the scheduler never
  overfills a cell and emits only frame kinds of the format.
\<close>

theorem Take_encodes:
  assumes "mux_reachable p" and "int Header \<le> capacity" and "capacity \<le> int MaxCell"
    and "fills rand" and "\<forall>n. rand n \<noteq> None"
  shows "\<exists>body. Encode rand seq capacity (snd (Take p (capacity - int Header))) = Ok body
    \<and> length body = nat capacity
    \<and> (\<exists>n. Decode body = Ok (seq, snd (Take p (capacity - int Header)), n))"
  using data_source.encode_taken [OF mux_reachable_inv [OF assms(1)] assms(2-4)] assms(5) by blast

theorem Take_encodes_witness:
  "\<exists>body. Encode (\<lambda>n. Some (replicate n 0)) 5 1024 (snd (Take demo_client (1024 - int Header))) = Ok body
     \<and> length body = 1024"
proof -
  have "fills (\<lambda>n. Some (replicate n 0))" by (simp add: fills_def)
  from Take_encodes [OF demo_client_reachable _ _ this, of 1024 5] show ?thesis by auto
qed

text \<open>
  \<open>TakeControls\<close> sends no DATA: its frames carry no stream payload, and the payload and
  credit of every stream stay as they were.
\<close>

lemma TakeControls_no_data:
  assumes "mux_reachable p"
  shows "list_all (\<lambda>f. Kind f \<noteq> DataK) (snd (TakeControls p bud))
    \<and> unsent (fst (TakeControls p bud)) k = unsent p k
    \<and> credit_of (fst (TakeControls p bud)) k = credit_of p k"
proof -
  let ?fs = "snd (TakeControls p bud)" and ?q = "fst (TakeControls p bud)"
  have s: "sends True p bud ?q ?fs"
    using take_frames_sends [OF mux_reachable_inv [OF assms], of True bud] by (simp add: TakeControls_def)
  then have kinds: "list_all (\<lambda>f. Kind f \<noteq> DataK) ?fs" by (auto simp: sends_def list_all_iff)
  then have "sent k ?fs = []" by (auto simp: sent_def list_all_iff)
  moreover have "sent k ?fs @ unsent ?q k = unsent p k"
    "credit_of p k = credit_of ?q k + length (sent k ?fs)"
    using s unfolding sends_def by blast+
  ultimately show ?thesis using kinds by simp
qed

text \<open>
  C13. No starvation. If some active stream has anything it may send within the budget,
  \<open>Take\<close> returns at least one frame: a call gives up only after every stream was visited.
\<close>

theorem Take_progress:
  assumes "mux_reachable p" and "\<not> peer_closed p" and "int FrameHeader \<le> bud"
    and "map_of (streams p) k = Some s" and "\<not> finished s" and "sendable bud False s"
  shows "snd (Take p bud) \<noteq> []"
  using take_frames_progress [OF mux_reachable_inv [OF assms(1)] assms(2-6)] by (simp add: Take_def)

theorem Take_progress_witness: "snd (Take demo_client 64) \<noteq> []"
proof -
  have open': "\<not> peer_closed demo_client" by code_simp
  have "\<exists>s. map_of (streams demo_client) 1 = Some s \<and> \<not> finished s \<and> sendable 64 False s"
  proof
    show "map_of (streams demo_client) 1 = Some (the (map_of (streams demo_client) 1))
      \<and> \<not> finished (the (map_of (streams demo_client) 1))
      \<and> sendable 64 False (the (map_of (streams demo_client) 1))" by code_simp
  qed
  then show ?thesis using Take_progress [OF demo_client_reachable open', of 64 1] by auto
qed

text \<open>
  C14. Round-robin order. Removing a stream takes exactly its id out of the schedule and
  keeps the turn of every other stream: the ids still to be visited, from the cursor
  on, are the same as before without the removed one.
\<close>

theorem removeStream_keeps_turns:
  assumes "mux_reachable p"
  shows "upcoming (removeStream p k) = remove1 k (upcoming p)
    \<and> streams (removeStream p k) = AList.delete k (streams p)"
  using mux_reachable_inv [OF assms] upcoming_removeStream_aux [of p k] streams_removeStream [of p k]
  by (simp add: peer_inv_def)

theorem removeStream_keeps_turns_witness: "upcoming (removeStream demo_client 1) = []"
proof -
  have "upcoming demo_client = [1]" by code_simp
  then show ?thesis using removeStream_keeps_turns [OF demo_client_reachable, of 1] by simp
qed

text \<open>
  C15. Stream ids are never reused: the id that \<open>Open\<close> returns, and the id of an OPEN frame
  that is accepted, names no stream object the peer ever had and is above all of them.
\<close>

theorem stream_ids_fresh:
  assumes "mux_reachable p"
  shows "(snd (Open p a) = Ok k \<longrightarrow> obj p k = None \<and> highest p < k \<and> highest (fst (Open p a)) = k)
    \<and> (snd (receive_open p f) = Ok () \<longrightarrow>
         obj p (Stream f) = None \<and> highest p < Stream f \<and> highest (fst (receive_open p f)) = Stream f)"
proof -
  have inv: "peer_inv p" by (rule mux_reachable_inv [OF assms])
  have fresh: "obj p j = None" if "highest p < j" for j
  proof (rule ccontr)
    assume "obj p j \<noteq> None"
    then have "j \<in> fst ` set (streams p) \<union> fst ` set (retired p)"
      by (auto simp: obj_def dom_keys split: option.splits)
    then have "j \<le> highest p" using inv unfolding peer_inv_def by blast
    then show False using that by simp
  qed
  have "highest p < k \<and> highest (fst (Open p a)) = k" if "snd (Open p a) = Ok k"
  proof -
    have no: "\<not> (peer_closed p \<or> has_dial p \<or> length (streams p) \<ge> MaxStreams \<or> length a > 512
        \<or> highest p = - 1)"
      using that by (intro notI) (simp add: Open_def)
    then have h: "highest (fst (Open p a)) = highest p + 1" "snd (Open p a) = Ok (highest p + 1)"
      by (simp_all add: Open_def Let_def newStream_def notify_def)
    then show ?thesis using that no word_less_Suc [of "highest p"] by simp
  qed
  moreover have "highest p < Stream f \<and> highest (fst (receive_open p f)) = Stream f"
    if "snd (receive_open p f) = Ok ()"
    using that by (auto simp: receive_open_def Let_def newStream_def split: if_splits outcome.splits)
  ultimately show ?thesis using fresh [of k] fresh [of "Stream f"] by simp
qed

theorem stream_ids_fresh_witness:
  "obj demo_server 2 = None \<and> snd (receive_open demo_server (demo_open\<lparr>Stream := 2\<rparr>)) = Ok ()"
proof -
  have "snd (receive_open demo_server (demo_open\<lparr>Stream := 2\<rparr>)) = Ok ()" by code_simp
  then show ?thesis
    using stream_ids_fresh [OF demo_server_reachable, of _ _ "demo_open\<lparr>Stream := 2\<rparr>"] by auto
qed

end
