(* ===== verification/Packet_Conn.thy ===== *)
theory Packet_Conn
  imports Prelude "HOL-Library.AList"
begin

text \<open>
  The reliable byte stream of \<^verbatim>\<open>internal/packet/conn.go\<close>: uploads numbered by the client are
  reassembled into an input of chunks, and written bytes become numbered blocks that are kept
  for replay until they are acknowledged. Every method runs under the connection's mutex
  and is one function on the state; a method that waits for a change is one pass of its
  loop, whose result says whether it returned or waits. Closing \<^verbatim>\<open>c.changed\<close> and replacing
  it wakes every waiter; the model counts these signals. Time is an integer, a zero
  \<^verbatim>\<open>time.Time\<close> is \<open>None\<close>, and \<open>sha\<close> stands for \<^verbatim>\<open>sha256.Sum256\<close>.
\<close>

section \<open>State\<close>

definition MaxBlock :: nat where [simp]: "MaxBlock = 64 * 1024"
definition UploadSlots :: nat where [simp]: "UploadSlots = 16"
definition UploadLimit :: nat where [simp]: "UploadLimit = UploadSlots * MaxBlock"
definition ReplayLimit :: nat where [simp]: "ReplayLimit = 8 * 1024 * 1024"
definition ReceiptCount :: nat where [simp]: "ReceiptCount = 2 * UploadSlots"
definition ReplaySlots :: nat where [simp]: "ReplaySlots = 512"

text \<open>The chunk size that \<open>Put\<close> writes as a literal.\<close>

definition inputChunk :: nat where [simp]: "inputChunk = 16384"

datatype conn_err =
  ErrSequence | ErrConflict | ErrFull | ErrGone | ErrGeneration
| ErrNetClosed | ErrDeadlineExceeded | ErrContext | ErrOther string

record Block =
  BlockSequence :: u64
  BlockBody :: bytes

record upload =
  up_body :: bytes
  up_hash :: bytes

record Conn =
  c_changed :: nat
  c_closed :: bool
  c_err :: "conn_err option"
  c_input :: "bytes list"
  inputOffset :: nat
  inputBytes :: int
  uploadNext :: u64
  c_pending :: "(u64 \<times> upload) list"
  receipts :: "(u64 \<times> bytes) list"
  c_output :: "Block list"
  outputBytes :: int
  outputNext :: u64
  outputFloor :: u64
  generation :: u64
  attached :: bool
  readDeadline :: "int option"
  writeDeadline :: "int option"
  readWaiting :: bool
  corked :: bool
  cork :: bytes

definition NewConn :: Conn where
  "NewConn = \<lparr>c_changed = 0, c_closed = False, c_err = None, c_input = [], inputOffset = 0,
     inputBytes = 0, uploadNext = 0, c_pending = [], receipts = [], c_output = [],
     outputBytes = 0, outputNext = 0, outputFloor = 0, generation = 0, attached = False,
     readDeadline = None, writeDeadline = None, readWaiting = False, corked = False,
     cork = []\<rparr>"

definition signal :: "Conn \<Rightarrow> Conn" where
  "signal c = c\<lparr>c_changed := c_changed c + 1\<rparr>"

definition closeError :: "Conn \<Rightarrow> conn_err" where
  "closeError c = (case c_err c of Some e \<Rightarrow> e | None \<Rightarrow> ErrNetClosed)"

definition deadlinePassed :: "int option \<Rightarrow> int \<Rightarrow> bool" where
  "deadlinePassed deadline now = (case deadline of None \<Rightarrow> False | Some t \<Rightarrow> \<not> now < t)"

section \<open>Put\<close>

text \<open>
  The inner loop of \<open>Put\<close>: the body is copied into chunks. A chunk longer than \<open>inputChunk\<close>
  would make the count negative and the slice panic.
\<close>

function put_chunks :: "bytes list \<Rightarrow> bytes \<Rightarrow> (conn_err, bytes list) outcome" where
  "put_chunks inp body =
     (if length body > 0 then
        let inp = (if inp = [] \<or> length (last inp) = inputChunk then inp @ [[]] else inp);
            tail = last inp
        in if length tail > inputChunk then Panic
           else
             let count = min (length body) (inputChunk - length tail)
             in put_chunks (butlast inp @ [tail @ take count body]) (drop count body)
      else Ok inp)"
  by pat_completeness auto
termination
  by (relation "measure (\<lambda>(inp, body). length body)") (auto split: if_splits)

declare put_chunks.simps [simp del]

text \<open>The outer loop: consecutive uploads move from \<open>pending\<close> to the input.\<close>

lemma length_delete_less:
  "map_of al k = Some v \<Longrightarrow> length (AList.delete k al) < length al"
proof (induction al)
  case (Cons a al)
  then show ?case using length_delete_le [of k al] by (auto split: if_splits simp: less_Suc_eq_le)
qed simp

function put_drain :: "Conn \<Rightarrow> Conn \<times> (conn_err, unit) outcome" where
  "put_drain c =
     (case map_of (c_pending c) (uploadNext c) of
        None \<Rightarrow> (c, Ok ())
      | Some current \<Rightarrow>
          (case put_chunks (c_input c) (up_body current) of
             Ok inp \<Rightarrow>
               let c = c\<lparr>c_input := inp,
                     receipts := AList.update (uploadNext c) (up_hash current) (receipts c),
                     c_pending := AList.delete (uploadNext c) (c_pending c),
                     uploadNext := uploadNext c + 1\<rparr>
               in put_drain
                    (if uploadNext c > of_nat ReceiptCount
                     then c\<lparr>receipts := AList.delete (uploadNext c - of_nat ReceiptCount - 1) (receipts c)\<rparr>
                     else c)
           | Fail e \<Rightarrow> (c, Fail e)
           | Panic \<Rightarrow> (c, Panic)))"
  by pat_completeness auto
termination
  by (relation "measure (\<lambda>c. length (c_pending c))") (auto simp: Let_def length_delete_less)

declare put_drain.simps [simp del]

definition Put ::
  "(bytes \<Rightarrow> bytes) \<Rightarrow> Conn \<Rightarrow> u64 \<Rightarrow> bytes \<Rightarrow> Conn \<times> u64 \<times> (conn_err, unit) outcome" where
  "Put sha c sequence body =
     (if length body = 0 \<or> length body > MaxBlock then (c, 0, Fail ErrSequence)
      else
        let hash = sha body in
        if c_closed c then (c, uploadNext c, Fail (closeError c))
        else if sequence < uploadNext c then
          (case map_of (receipts c) sequence of
             None \<Rightarrow> (c, uploadNext c, Fail ErrGone)
           | Some previous \<Rightarrow>
               if previous \<noteq> hash then (c, uploadNext c, Fail ErrConflict)
               else (c, uploadNext c, Ok ()))
        else if sequence = - 1 \<or> sequence - uploadNext c \<ge> of_nat UploadSlots
        then (c, uploadNext c, Fail ErrSequence)
        else
          case map_of (c_pending c) sequence of
            Some previous \<Rightarrow>
              if up_hash previous \<noteq> hash then (c, uploadNext c, Fail ErrConflict)
              else (c, uploadNext c, Ok ())
          | None \<Rightarrow>
              if int (length body) > int UploadLimit - inputBytes c
              then (c, uploadNext c, Fail ErrFull)
              else
                let c = c\<lparr>c_pending := AList.update sequence \<lparr>up_body = body, up_hash = hash\<rparr> (c_pending c),
                          inputBytes := inputBytes c + int (length body)\<rparr>
                in case put_drain c of
                     (c, Ok _) \<Rightarrow> let c = signal c in (c, uploadNext c, Ok ())
                   | (c, Fail e) \<Rightarrow> (c, uploadNext c, Fail e)
                   | (c, Panic) \<Rightarrow> (c, uploadNext c, Panic))"

section \<open>Waiting\<close>

text \<open>
  How \<open>waitLocked\<close> ends: a signal, the end of the caller's context, or the deadline, which has a
  timer only if it is set. The result is the error of the wait; a wake that cannot happen has no result.
\<close>

datatype wake_reason = Woken_changed | Woken_context | Woken_timeout

fun waitLocked :: "int option \<Rightarrow> wake_reason \<Rightarrow> conn_err option option" where
  "waitLocked deadline Woken_changed = Some None"
| "waitLocked deadline Woken_context = Some (Some ErrContext)"
| "waitLocked deadline Woken_timeout = (if deadline = None then None else Some (Some ErrDeadlineExceeded))"

section \<open>Read\<close>

text \<open>
  One pass of the loop of \<open>Read\<close> with a buffer of \<open>n\<close> bytes: the bytes it returns, an error, or
  \<open>None\<close> when it waits. \<open>read_resume\<close> is what follows the wait.
\<close>

definition Read :: "Conn \<Rightarrow> int \<Rightarrow> nat \<Rightarrow> Conn \<times> (conn_err, bytes option) outcome" where
  "Read c now n =
     (if n = 0 then (c, Ok (Some []))
      else if c_closed c then (c, Fail (closeError c))
      else if deadlinePassed (readDeadline c) now then (c, Fail ErrDeadlineExceeded)
      else case c_input c of
        [] \<Rightarrow> (signal (c\<lparr>readWaiting := True\<rparr>), Ok None)
      | chunk # rest \<Rightarrow>
          if inputOffset c > length chunk then (c, Panic)
          else
            let got = take n (drop (inputOffset c) chunk);
                c = c\<lparr>inputOffset := inputOffset c + length got,
                      inputBytes := inputBytes c - int (length got)\<rparr>;
                c = (if inputOffset c = length chunk
                     then c\<lparr>c_input := rest, inputOffset := 0\<rparr> else c)
            in (signal (c\<lparr>readWaiting := False\<rparr>), Ok (Some got)))"

definition read_resume :: "Conn \<Rightarrow> conn_err option \<Rightarrow> Conn \<times> (conn_err, unit) outcome" where
  "read_resume c werr =
     (c\<lparr>readWaiting := False\<rparr>, case werr of None \<Rightarrow> Ok () | Some e \<Rightarrow> Fail e)"

section \<open>Write\<close>

text \<open>
  \<open>writeLocked\<close> until it returns or waits: the state, the bytes written, the bytes left and
  the result, \<open>Ok False\<close> when it waits. Each turn that does not wait appends a block, and
  \<open>ReplaySlots\<close> bounds the blocks.
\<close>

function writeLocked ::
  "Conn \<Rightarrow> int \<Rightarrow> bytes \<Rightarrow> nat \<Rightarrow> nat \<Rightarrow> Conn \<times> nat \<times> bytes \<times> (conn_err, bool) outcome" where
  "writeLocked c now p blockSize written =
     (if length p > 0 then
        if c_closed c then (c, written, p, Fail (closeError c))
        else if deadlinePassed (writeDeadline c) now then (c, written, p, Fail ErrDeadlineExceeded)
        else
          let n = min (length p) blockSize in
          if int n > int ReplayLimit - outputBytes c \<or> length (c_output c) \<ge> ReplaySlots
          then (c, written, p, Ok False)
          else if outputNext c = - 1 then (c, written, p, Fail ErrSequence)
          else
            writeLocked
              (signal (c\<lparr>c_output := c_output c @ [\<lparr>BlockSequence = outputNext c, BlockBody = take n p\<rparr>],
                 outputNext := outputNext c + 1, outputBytes := outputBytes c + int n\<rparr>))
              now (drop n p) blockSize (written + n)
      else (c, written, [], Ok True))"
  by pat_completeness auto
termination
  by (relation "measure (\<lambda>(c, now, p, b, w). ReplaySlots - length (c_output c))")
    (auto simp: signal_def)

declare writeLocked.simps [simp del]

definition Write :: "Conn \<Rightarrow> int \<Rightarrow> bytes \<Rightarrow> Conn \<times> nat \<times> bytes \<times> (conn_err, bool) outcome" where
  "Write c now p =
     (if length p = 0 then (c, 0, [], Ok True)
      else if corked c then
        if c_closed c then (c, 0, p, Fail (closeError c))
        else (c\<lparr>cork := cork c @ p\<rparr>, length p, [], Ok True)
      else writeLocked c now p MaxBlock 0)"

definition Cork :: "Conn \<Rightarrow> Conn" where
  "Cork c = c\<lparr>corked := True\<rparr>"

definition uncork_size :: "nat \<Rightarrow> nat" where
  "uncork_size len =
     (let count = (len + MaxBlock - 1) div MaxBlock in (len + count - 1) div count)"

definition Uncork :: "Conn \<Rightarrow> int \<Rightarrow> Conn \<times> bytes \<times> (conn_err, bool) outcome" where
  "Uncork c now =
     (let data = cork c;
          c = c\<lparr>cork := [], corked := False\<rparr>
      in if length data = 0 then (c, [], Ok True)
         else case writeLocked c now data (uncork_size (length data)) 0 of
           (c, _, rest, r) \<Rightarrow> (c, rest, r))"

section \<open>Acknowledgement and replay\<close>

fun drop_acked :: "u64 \<Rightarrow> Block list \<Rightarrow> int \<Rightarrow> Block list \<times> int" where
  "drop_acked ack [] n = ([], n)"
| "drop_acked ack (b # bs) n =
     (if BlockSequence b < ack then drop_acked ack bs (n - int (length (BlockBody b)))
      else (b # bs, n))"

definition ackLocked :: "Conn \<Rightarrow> u64 \<Rightarrow> Conn \<times> (conn_err, unit) outcome" where
  "ackLocked c ack =
     (if c_closed c then (c, Fail (closeError c))
      else if ack > outputNext c then (c, Fail ErrSequence)
      else if ack < outputFloor c then (c, Fail ErrGone)
      else case drop_acked ack (c_output c) (outputBytes c) of
        (out, n) \<Rightarrow> (signal (c\<lparr>c_output := out, outputBytes := n, outputFloor := ack\<rparr>), Ok ()))"

definition Ack :: "Conn \<Rightarrow> u64 \<Rightarrow> Conn \<times> (conn_err, unit) outcome" where
  "Ack c ack = (if ack < outputFloor c then (c, Ok ()) else ackLocked c ack)"

definition Attach :: "Conn \<Rightarrow> u64 \<Rightarrow> u64 \<Rightarrow> Conn \<times> (conn_err, unit) outcome" where
  "Attach c gen ack =
     (if gen = 0 \<or> (attached c \<and> gen \<le> generation c) then (c, Fail ErrGeneration)
      else then_st (ackLocked c ack) (\<lambda>c _.
        (signal (c\<lparr>generation := gen, attached := True\<rparr>), Ok ())))"

text \<open>One pass of \<open>Next\<close> and of \<open>Flight\<close>; \<open>None\<close> when they wait.\<close>

definition Next :: "Conn \<Rightarrow> u64 \<Rightarrow> u64 \<Rightarrow> (conn_err, Block option) outcome" where
  "Next c gen n =
     (if c_closed c then Fail (closeError c)
      else if \<not> attached c \<or> gen \<noteq> generation c then Fail ErrGeneration
      else if n < outputFloor c then Fail ErrGone
      else if n > outputNext c then Fail ErrSequence
      else if n < outputNext c then
        let i = unat (n - outputFloor c)
        in if i < length (c_output c) then Ok (Some (c_output c ! i)) else Panic
      else Ok None)"

definition Flight :: "Conn \<Rightarrow> u64 \<Rightarrow> (conn_err, Block list option) outcome" where
  "Flight c n =
     (if c_closed c then Fail (closeError c)
      else if n < outputFloor c then Fail ErrGone
      else if n > outputNext c then Fail ErrSequence
      else if readWaiting c \<and> n < outputNext c then
        let i = unat (n - outputFloor c)
        in if i \<le> length (c_output c) then Ok (Some (drop i (c_output c))) else Panic
      else Ok None)"

definition Ready :: "Conn \<Rightarrow> u64 \<Rightarrow> u64 \<Rightarrow> bool" where
  "Ready c gen n \<longleftrightarrow> \<not> c_closed c \<and> attached c \<and> gen = generation c
     \<and> n \<ge> outputFloor c \<and> n < outputNext c"

definition Usage :: "Conn \<Rightarrow> int \<times> int" where
  "Usage c = (inputBytes c, outputBytes c)"

definition Uploaded :: "Conn \<Rightarrow> u64" where
  "Uploaded c = uploadNext c"

section \<open>Closing and deadlines\<close>

definition CloseWithError :: "Conn \<Rightarrow> conn_err option \<Rightarrow> Conn" where
  "CloseWithError c e =
     (if c_closed c then c
      else signal (c\<lparr>c_closed := True, c_err := e, c_input := [], c_pending := [], receipts := [],
             c_output := [], inputBytes := 0, outputBytes := 0\<rparr>))"

definition CloseConn :: "Conn \<Rightarrow> Conn" where
  "CloseConn c = CloseWithError c None"

definition SetDeadline :: "Conn \<Rightarrow> int option \<Rightarrow> Conn" where
  "SetDeadline c t = signal (c\<lparr>readDeadline := t, writeDeadline := t\<rparr>)"

definition SetReadDeadline :: "Conn \<Rightarrow> int option \<Rightarrow> Conn" where
  "SetReadDeadline c t = signal (c\<lparr>readDeadline := t\<rparr>)"

definition SetWriteDeadline :: "Conn \<Rightarrow> int option \<Rightarrow> Conn" where
  "SetWriteDeadline c t = signal (c\<lparr>writeDeadline := t\<rparr>)"

end
