(* ===== verification/Packet_Invariant.thy ===== *)
theory Packet_Invariant
  imports Packet_Conn "HOL-Library.Sublist"
begin

text \<open>
  The invariant of the packet connection, related to a history of what was accepted, read
  and written. The history is specification only: \<open>h_log\<close> maps an upload number to the body
  first accepted for it, \<open>h_read\<close> is everything \<open>Read\<close> returned, \<open>h_blocks\<close> are the blocks
  written, in order.
\<close>

section \<open>Chunks of the input\<close>

lemma put_chunks_spec:
  assumes "chunked inputChunk inp"
  shows "\<exists>out. put_chunks inp body = Ok out \<and> concat out = concat inp @ body \<and> chunked inputChunk out
    \<and> (inp \<noteq> [] \<longrightarrow> (\<exists>ext rest. out = (hd inp @ ext) # rest))"
  using assms
proof (induction inp body rule: put_chunks.induct)
  case (1 inp body)
  show ?case
  proof (cases "body = []")
    case True
    have "put_chunks inp body = Ok inp" using True by (subst put_chunks.simps) simp
    moreover have "inp \<noteq> [] \<longrightarrow> (\<exists>ext rest. inp = (hd inp @ ext) # rest)" by (cases inp) auto
    ultimately show ?thesis using "1.prems" True by auto
  next
    case False
    define full where "full \<longleftrightarrow> inp = [] \<or> length (last inp) = inputChunk"
    define inp' where "inp' = (if full then inp @ [[]] else inp)"
    define tail where "tail = last inp'"
    have ne: "inp \<noteq> []" if "\<not> full" using that by (simp add: full_def)
    have tail_less: "length tail < inputChunk"
    proof (cases full)
      case True
      then show ?thesis by (simp add: tail_def inp'_def)
    next
      case nf: False
      then have "last inp \<in> set inp" using ne by simp
      then have "length (last inp) \<le> inputChunk"
        using "1.prems" by (auto simp: chunked_def list_all_iff)
      then show ?thesis using nf by (simp add: tail_def inp'_def full_def del: inputChunk_def)
    qed
    define n where "n = min (length body) (inputChunk - length tail)"
    define nxt where "nxt = butlast inp' @ [tail @ take n body]"
    have n_pos: "0 < n" using False tail_less by (simp add: n_def del: inputChunk_def)
    have parts: "nxt = (if full then inp @ [take n body] else butlast inp @ [last inp @ take n body])"
      by (simp add: nxt_def inp'_def tail_def)
    have chk: "chunked inputChunk nxt"
    proof (cases full)
      case True
      have "take n body \<noteq> []" using n_pos False by simp
      moreover have "length (take n body) \<le> inputChunk" by (simp add: n_def min_le_iff_disj)
      moreover have "inp = [] \<or> length (last inp) = inputChunk" using True by (simp add: full_def)
      ultimately show ?thesis using chunked_snoc [OF "1.prems"] True by (simp add: parts)
    next
      case nf: False
      have "tail = last inp" using nf by (simp add: tail_def inp'_def)
      then have "length (last inp) + length (take n body) \<le> inputChunk"
        using tail_less by (simp add: n_def del: inputChunk_def)
      then show ?thesis using chunked_grow [OF "1.prems" ne [OF nf]] nf by (simp add: parts)
    qed
    have cat: "concat nxt = concat inp @ take n body"
    proof (cases full)
      case nf: False
      have "concat inp = concat (butlast inp) @ last inp"
        using ne [OF nf] by (metis append_butlast_last_id append_Nil2 concat.simps concat_append)
      with nf show ?thesis unfolding parts by simp
    qed (simp add: parts)
    have step: "put_chunks inp body = put_chunks nxt (drop n body)"
      using False tail_less
      by (subst put_chunks.simps) (simp add: Let_def full_def inp'_def tail_def n_def nxt_def)
    have IH: "\<exists>out. put_chunks nxt (drop n body) = Ok out
        \<and> concat out = concat nxt @ drop n body \<and> chunked inputChunk out
        \<and> (nxt \<noteq> [] \<longrightarrow> (\<exists>ext rest. out = (hd nxt @ ext) # rest))"
      using "1.IH" [OF _ inp'_def [unfolded full_def] tail_def _ n_def, folded nxt_def] chk False tail_less
      by simp
    then obtain out ext rest where out: "put_chunks nxt (drop n body) = Ok out"
      "concat out = concat nxt @ drop n body" "chunked inputChunk out" "out = (hd nxt @ ext) # rest"
      by (auto simp: nxt_def)
    have "\<exists>e. hd nxt = hd inp @ e" if ne': "inp \<noteq> []"
    proof (cases "full \<or> butlast inp \<noteq> []")
      case True
      then have "hd nxt = hd inp"
        using that unfolding parts by (cases full; cases inp; simp add: hd_append split: if_splits)
      then show ?thesis by simp
    next
      case nb: False
      then have "butlast inp = []" by simp
      then have one: "inp = [last inp]" using append_butlast_last_id [OF ne'] by simp
      then have "hd inp = last inp" by (metis list.sel(1))
      moreover have "nxt = [last inp @ take n body]" using nb by (simp add: parts)
      ultimately show ?thesis by simp
    qed
    then show ?thesis using out step cat by auto
  qed
qed

interpretation put_q: chunk_queue inputChunk "\<lambda>q. q" put_chunks "\<lambda>b. b"
proof (unfold_locales, goal_cases)
  case 1
  show ?case by simp
next
  case (2 q x)
  then show ?case using put_chunks_spec [of q x] by auto
qed

section \<open>History and invariant\<close>

record history =
  h_log :: "nat \<Rightarrow> bytes option"
  h_read :: bytes
  h_blocks :: "bytes list"

definition log_body :: "history \<Rightarrow> nat \<Rightarrow> bytes" where
  "log_body h i = (case h_log h i of Some b \<Rightarrow> b | None \<Rightarrow> [])"

text \<open>The bytes of the first \<open>n\<close> uploads in the order of their numbers.\<close>

definition uploaded :: "history \<Rightarrow> nat \<Rightarrow> bytes" where
  "uploaded h n = concat (map (log_body h) [0..<n])"

definition pending_bytes :: "Conn \<Rightarrow> nat" where
  "pending_bytes c = sum_list (map (\<lambda>(k, u). length (up_body u)) (c_pending c))"

fun offset_ok :: "bytes list \<Rightarrow> nat \<Rightarrow> bool" where
  "offset_ok [] off \<longleftrightarrow> off = 0"
| "offset_ok (chunk # rest) off \<longleftrightarrow> off < length chunk"

definition input_inv :: "Conn \<Rightarrow> history \<Rightarrow> bool" where
  "input_inv c h \<longleftrightarrow>
     chunked inputChunk (c_input c)
     \<and> offset_ok (c_input c) (inputOffset c)
     \<and> h_read h @ drop (inputOffset c) (concat (c_input c)) = uploaded h (unat (uploadNext c))"

definition pending_inv :: "(bytes \<Rightarrow> bytes) \<Rightarrow> Conn \<Rightarrow> history \<Rightarrow> bool" where
  "pending_inv sha c h \<longleftrightarrow>
     distinct (map fst (c_pending c))
     \<and> (\<forall>k u. map_of (c_pending c) k = Some u \<longrightarrow>
          unat (uploadNext c) \<le> unat k \<and> unat k < unat (uploadNext c) + UploadSlots \<and> k \<noteq> - 1
          \<and> up_body u \<noteq> [] \<and> up_hash u = sha (up_body u) \<and> h_log h (unat k) = Some (up_body u))
     \<and> (\<forall>i. h_log h i \<noteq> None \<longleftrightarrow>
          i < unat (uploadNext c) \<or> (\<exists>k. unat k = i \<and> map_of (c_pending c) k \<noteq> None))"

definition receipts_inv :: "(bytes \<Rightarrow> bytes) \<Rightarrow> Conn \<Rightarrow> history \<Rightarrow> bool" where
  "receipts_inv sha c h \<longleftrightarrow>
     (\<forall>k. map_of (receipts c) k =
        (if unat k < unat (uploadNext c) \<and> unat (uploadNext c) \<le> unat k + ReceiptCount
         then Some (sha (log_body h (unat k))) else None))"

definition bytes_inv :: "Conn \<Rightarrow> bool" where
  "bytes_inv c \<longleftrightarrow>
     inputBytes c + int (inputOffset c) = int (length (concat (c_input c)) + pending_bytes c)
     \<and> inputBytes c \<le> int UploadLimit"

definition output_inv :: "Conn \<Rightarrow> history \<Rightarrow> bool" where
  "output_inv c h \<longleftrightarrow>
     outputFloor c \<le> outputNext c \<and> length (h_blocks h) = unat (outputNext c)
     \<and> c_output c = map (\<lambda>i. \<lparr>BlockSequence = of_nat i, BlockBody = h_blocks h ! i\<rparr>)
         [unat (outputFloor c)..<unat (outputNext c)]
     \<and> outputBytes c = int (length (concat (map BlockBody (c_output c))))
     \<and> outputBytes c \<le> int ReplayLimit \<and> length (c_output c) \<le> ReplaySlots"

definition drained :: "Conn \<Rightarrow> bool" where
  "drained c \<longleftrightarrow> map_of (c_pending c) (uploadNext c) = None"

definition open_inv :: "(bytes \<Rightarrow> bytes) \<Rightarrow> Conn \<Rightarrow> history \<Rightarrow> bool" where
  "open_inv sha c h \<longleftrightarrow> input_inv c h \<and> pending_inv sha c h \<and> receipts_inv sha c h
     \<and> bytes_inv c \<and> output_inv c h"

text \<open>A closed connection keeps nothing, but what was read stays a prefix of the uploads.\<close>

definition conn_inv :: "(bytes \<Rightarrow> bytes) \<Rightarrow> Conn \<Rightarrow> history \<Rightarrow> bool" where
  "conn_inv sha c h \<longleftrightarrow>
     prefix (h_read h) (uploaded h (unat (uploadNext c)))
     \<and> (if c_closed c
        then c_input c = [] \<and> c_pending c = [] \<and> receipts c = [] \<and> c_output c = []
          \<and> inputBytes c = 0 \<and> outputBytes c = 0
        else open_inv sha c h \<and> drained c)"

lemmas open_inv_defs = open_inv_def input_inv_def pending_inv_def receipts_inv_def bytes_inv_def
  output_inv_def pending_bytes_def drained_def

lemma open_inv_signal [simp]:
  "open_inv sha (signal c) h = open_inv sha c h" "drained (signal c) = drained c"
  "c_closed (signal c) = c_closed c" "uploadNext (signal c) = uploadNext c"
  by (simp_all add: signal_def open_inv_defs)

lemma conn_inv_signal [simp]: "conn_inv sha (signal c) h = conn_inv sha c h"
proof -
  have "c_input (signal c) = c_input c" "c_pending (signal c) = c_pending c"
    "receipts (signal c) = receipts c" "c_output (signal c) = c_output c"
    "inputBytes (signal c) = inputBytes c" "outputBytes (signal c) = outputBytes c"
    by (simp_all add: signal_def)
  then show ?thesis by (simp add: conn_inv_def)
qed

lemma conn_inv_indep [simp]:
  "conn_inv sha (c\<lparr>readWaiting := b\<rparr>) h = conn_inv sha c h"
  "conn_inv sha (c\<lparr>readDeadline := t\<rparr>) h = conn_inv sha c h"
  "conn_inv sha (c\<lparr>writeDeadline := t\<rparr>) h = conn_inv sha c h"
  "conn_inv sha (c\<lparr>corked := b\<rparr>) h = conn_inv sha c h"
  "conn_inv sha (c\<lparr>cork := d\<rparr>) h = conn_inv sha c h"
  "conn_inv sha (c\<lparr>generation := g\<rparr>) h = conn_inv sha c h"
  "conn_inv sha (c\<lparr>attached := b\<rparr>) h = conn_inv sha c h"
  by (simp_all add: conn_inv_def open_inv_defs)

lemma open_prefix: "open_inv sha c h \<Longrightarrow> prefix (h_read h) (uploaded h (unat (uploadNext c)))"
  by (auto simp: open_inv_def input_inv_def prefix_def intro: sym)

section \<open>Put\<close>

lemma sum_delete:
  fixes f :: "'b \<Rightarrow> nat"
  assumes "distinct (map fst al)" and "map_of al k = Some v"
  shows "sum_list (map (\<lambda>(k, u). f u) al) = f v + sum_list (map (\<lambda>(k, u). f u) (AList.delete k al))"
  using assms
proof (induction al)
  case (Cons a al)
  show ?case
  proof (cases "fst a = k")
    case True
    then have "AList.delete k al = al" using Cons.prems(1) by (intro delete_id) auto
    then show ?thesis using True Cons.prems by (cases a) auto
  next
    case False
    then show ?thesis using Cons by (cases a) (auto simp: split_def)
  qed
qed simp

lemma sum_update_fresh:
  fixes f :: "'b \<Rightarrow> nat"
  shows "map_of al k = None \<Longrightarrow>
    sum_list (map (\<lambda>(k, u). f u) (AList.update k v al)) = sum_list (map (\<lambda>(k, u). f u) al) + f v"
  by (induction al) (auto split: if_splits)

lemma uploaded_Suc: "uploaded h (Suc n) = uploaded h n @ log_body h n"
  by (simp add: uploaded_def)

text \<open>One turn of the outer loop.\<close>

definition drain_step :: "Conn \<Rightarrow> upload \<Rightarrow> bytes list \<Rightarrow> Conn" where
  "drain_step c u inp =
     (let c = c\<lparr>c_input := inp,
           receipts := AList.update (uploadNext c) (up_hash u) (receipts c),
           c_pending := AList.delete (uploadNext c) (c_pending c),
           uploadNext := uploadNext c + 1\<rparr>
      in if uploadNext c > of_nat ReceiptCount
         then c\<lparr>receipts := AList.delete (uploadNext c - of_nat ReceiptCount - 1) (receipts c)\<rparr>
         else c)"

lemma drain_step_fields [simp]:
  "c_input (drain_step c u inp) = inp" "uploadNext (drain_step c u inp) = uploadNext c + 1"
  "c_pending (drain_step c u inp) = AList.delete (uploadNext c) (c_pending c)"
  "inputOffset (drain_step c u inp) = inputOffset c" "inputBytes (drain_step c u inp) = inputBytes c"
  "c_output (drain_step c u inp) = c_output c" "outputBytes (drain_step c u inp) = outputBytes c"
  "outputNext (drain_step c u inp) = outputNext c" "outputFloor (drain_step c u inp) = outputFloor c"
  "c_closed (drain_step c u inp) = c_closed c"
  by (simp_all add: drain_step_def Let_def)

lemma unat_Suc: "(w :: u64) \<noteq> - 1 \<Longrightarrow> unat (w + 1) = unat w + 1"
proof -
  assume "w \<noteq> - 1"
  then have "1 + w \<noteq> 0" by (simp add: eq_neg_iff_add_eq_0 add.commute)
  then show ?thesis using unatSuc [of w] by (simp add: add.commute)
qed

lemma receipts_drain_step:
  assumes inv: "receipts_inv sha c h" and max: "uploadNext c \<noteq> - 1"
    and hash: "up_hash u = sha (log_body h (unat (uploadNext c)))"
  shows "receipts_inv sha (drain_step c u inp) h"
proof -
  let ?n = "unat (uploadNext c)"
  have n: "unat (uploadNext c + 1) = ?n + 1" by (rule unat_Suc [OF max])
  have gt: "uploadNext c + 1 > of_nat ReceiptCount \<longleftrightarrow> ?n + 1 > 32"
    by (simp add: word_less_nat_alt n)
  have old: "unat (uploadNext c + 1 - of_nat ReceiptCount - 1) = ?n - 32" if "?n + 1 > 32"
  proof -
    have "uploadNext c + 1 - of_nat ReceiptCount - 1 = uploadNext c - 32" by simp
    moreover have "unat (uploadNext c - 32) = ?n - 32"
      using that by (subst unat_sub) (simp_all add: word_le_nat_alt)
    ultimately show ?thesis by simp
  qed
  have rc: "map_of (receipts (drain_step c u inp)) =
      (if ?n + 1 > 32 then ((map_of (receipts c))(uploadNext c \<mapsto> up_hash u))
         (uploadNext c + 1 - of_nat ReceiptCount - 1 := None)
       else (map_of (receipts c))(uploadNext c \<mapsto> up_hash u))"
    using gt by (simp add: drain_step_def Let_def)
  show ?thesis
    unfolding receipts_inv_def drain_step_fields n
  proof
    fix k :: u64
    have k: "k = uploadNext c \<longleftrightarrow> unat k = ?n" by (simp add: word_unat_eq_iff)
    have k': "k = uploadNext c + 1 - of_nat ReceiptCount - 1 \<longleftrightarrow> unat k = ?n - 32" if "?n + 1 > 32"
      using old [OF that] by (simp add: word_unat_eq_iff)
    have prev: "map_of (receipts c) k = (if unat k < ?n \<and> ?n \<le> unat k + ReceiptCount
        then Some (sha (log_body h (unat k))) else None)"
      using inv by (simp add: receipts_inv_def)
    show "map_of (receipts (drain_step c u inp)) k = (if unat k < ?n + 1 \<and> ?n + 1 \<le> unat k + ReceiptCount
        then Some (sha (log_body h (unat k))) else None)"
    proof (cases "?n + 1 > 32")
      case True
      then show ?thesis
        unfolding rc using prev k k' [OF True] hash by (auto simp: fun_upd_def)
    next
      case False
      then show ?thesis unfolding rc using prev k hash by (auto simp: fun_upd_def)
    qed
  qed
qed

lemma pending_drain_step:
  assumes inv: "pending_inv sha c h" and u: "map_of (c_pending c) (uploadNext c) = Some u"
  shows "pending_inv sha (drain_step c u inp) h"
proof -
  let ?n = "unat (uploadNext c)"
  have P: "unat (uploadNext c) \<le> unat k \<and> unat k < unat (uploadNext c) + UploadSlots \<and> k \<noteq> - 1
      \<and> up_body v \<noteq> [] \<and> up_hash v = sha (up_body v) \<and> h_log h (unat k) = Some (up_body v)"
    if "map_of (c_pending c) k = Some v" for k v
    using inv that unfolding pending_inv_def by blast
  have n: "unat (uploadNext c + 1) = ?n + 1" using P [OF u] by (intro unat_Suc) simp
  have L: "h_log h i \<noteq> None \<longleftrightarrow> i < ?n \<or> (\<exists>k. unat k = i \<and> map_of (c_pending c) k \<noteq> None)" for i
    using inv unfolding pending_inv_def by blast
  have "h_log h i \<noteq> None \<longleftrightarrow>
      i < ?n + 1 \<or> (\<exists>k. unat k = i \<and> (map_of (c_pending c)) k \<noteq> None \<and> k \<noteq> uploadNext c)" for i
    using L [of i] u by (auto simp: less_Suc_eq)
  moreover have "?n + 1 \<le> unat k \<and> unat k < ?n + 1 + UploadSlots"
    if "map_of (c_pending c) k = Some v" "k \<noteq> uploadNext c" for k v
    using P [OF that(1)] that(2) by (auto simp: word_unat_eq_iff)
  note new = this calculation
  have dist: "distinct (map fst (AList.delete (uploadNext c) (c_pending c)))"
    using inv by (intro distinct_delete) (simp add: pending_inv_def)
  have sel: "map_of (c_pending c) k = Some v \<and> k \<noteq> uploadNext c"
    if "map_of (AList.delete (uploadNext c) (c_pending c)) k = Some v" for k v
    using that by (auto split: if_splits)
  have ex: "(\<exists>k. unat k = i \<and> map_of (AList.delete (uploadNext c) (c_pending c)) k \<noteq> None)
      \<longleftrightarrow> (\<exists>k. unat k = i \<and> map_of (c_pending c) k \<noteq> None \<and> k \<noteq> uploadNext c)" for i
    by auto
  show ?thesis
    unfolding pending_inv_def drain_step_fields n ex
  proof (intro conjI allI impI)
    fix k v assume "map_of (AList.delete (uploadNext c) (c_pending c)) k = Some v"
    from sel [OF this] P new(1)
    show "?n + 1 \<le> unat k" "unat k < ?n + 1 + UploadSlots" "k \<noteq> - 1" "up_body v \<noteq> []"
      "up_hash v = sha (up_body v)" "h_log h (unat k) = Some (up_body v)" by blast+
  qed (use dist new(2) in blast)+
qed

lemma open_inv_drain_step:
  assumes inv: "open_inv sha c h" and u: "map_of (c_pending c) (uploadNext c) = Some u"
    and inp: "put_chunks (c_input c) (up_body u) = Ok inp"
  shows "open_inv sha (drain_step c u inp) h"
proof -
  have pi: "pending_inv sha c h" and ii: "input_inv c h" using inv by (auto simp: open_inv_def)
  have P: "uploadNext c \<noteq> - 1" "up_hash u = sha (up_body u)" "up_body u \<noteq> []"
    "log_body h (unat (uploadNext c)) = up_body u"
    using pi u unfolding pending_inv_def log_body_def by auto
  have ch: "chunked inputChunk (c_input c)" "offset_ok (c_input c) (inputOffset c)"
    "h_read h @ drop (inputOffset c) (concat (c_input c)) = uploaded h (unat (uploadNext c))"
    using ii by (auto simp: input_inv_def)
  obtain out where out: "concat inp = concat (c_input c) @ up_body u" "chunked inputChunk inp"
    "c_input c \<noteq> [] \<longrightarrow> (\<exists>ext rest. inp = (hd (c_input c) @ ext) # rest)"
    using put_chunks_spec [OF ch(1), of "up_body u"] inp by auto
  have off: "inputOffset c \<le> length (concat (c_input c))"
    using ch(2) by (cases "c_input c") auto
  have "offset_ok inp (inputOffset c)"
  proof (cases "c_input c")
    case Nil
    then have "inp \<noteq> []" "hd inp \<noteq> []"
      using out P(3) by (auto simp: chunked_def) (cases inp; simp)
    then show ?thesis using Nil ch(2) by (cases inp) auto
  next
    case (Cons d ds)
    then show ?thesis using out(3) ch(2) by auto
  qed
  then have "input_inv (drain_step c u inp) h"
    using ch(3) out(1,2) off P unat_Suc [OF P(1)] by (simp add: input_inv_def uploaded_Suc flip: append_assoc)
  moreover have "bytes_inv (drain_step c u inp)"
    using inv out(1) u pi sum_delete [of "c_pending c" "uploadNext c" u "\<lambda>u. length (up_body u)"]
    by (simp add: open_inv_def bytes_inv_def pending_bytes_def pending_inv_def)
  moreover have "receipts_inv sha (drain_step c u inp) h"
    using inv P by (intro receipts_drain_step) (auto simp: open_inv_def)
  moreover have "output_inv (drain_step c u inp) h" 
    using inv unfolding open_inv_def output_inv_def drain_step_fields by blast
  ultimately show ?thesis using pending_drain_step [OF pi u] by (simp add: open_inv_def)
qed

lemma put_drain_spec:
  assumes "open_inv sha c h"
  shows "\<exists>c'. put_drain c = (c', Ok ()) \<and> open_inv sha c' h \<and> drained c' \<and> c_closed c' = c_closed c
    \<and> uploadNext c \<le> uploadNext c'"
  using assms
proof (induction c rule: put_drain.induct)
  case (1 c)
  show ?case
  proof (cases "map_of (c_pending c) (uploadNext c)")
    case None
    then show ?thesis using "1.prems" by (subst put_drain.simps) (simp add: drained_def)
  next
    case (Some u)
    have ch: "chunked inputChunk (c_input c)" using "1.prems" by (simp add: open_inv_def input_inv_def)
    obtain inp where inp: "put_chunks (c_input c) (up_body u) = Ok inp"
      using put_chunks_spec [OF ch] by blast
    have step: "put_drain c = put_drain (drain_step c u inp)"
      using Some inp by (subst put_drain.simps) (simp add: drain_step_def Let_def)
    have inv: "open_inv sha (drain_step c u inp) h"
      by (rule open_inv_drain_step [OF "1.prems" Some inp])
    have "uploadNext c \<noteq> - 1" using "1.prems" Some by (auto simp: open_inv_def pending_inv_def)
    then have "uploadNext c \<le> uploadNext c + 1" by (intro less_imp_le word_less_Suc)
    moreover obtain c' where "put_drain (drain_step c u inp) = (c', Ok ())" "open_inv sha c' h" "drained c'"
      "c_closed c' = c_closed (drain_step c u inp)" "uploadNext (drain_step c u inp) \<le> uploadNext c'"
      using "1.IH" [OF Some inp refl, folded drain_step_def] inv
      by (auto simp: drain_step_def Let_def)
    ultimately show ?thesis using step by auto
  qed
qed

text \<open>When \<open>Put\<close> stores a new upload, and the connection it then drains.\<close>

definition put_accepts :: "Conn \<Rightarrow> u64 \<Rightarrow> bytes \<Rightarrow> bool" where
  "put_accepts c sequence body \<longleftrightarrow>
     0 < length body \<and> length body \<le> MaxBlock \<and> \<not> c_closed c
     \<and> \<not> sequence < uploadNext c \<and> sequence \<noteq> - 1 \<and> \<not> sequence - uploadNext c \<ge> of_nat UploadSlots
     \<and> map_of (c_pending c) sequence = None
     \<and> \<not> int (length body) > int UploadLimit - inputBytes c"

definition put_stored :: "(bytes \<Rightarrow> bytes) \<Rightarrow> Conn \<Rightarrow> u64 \<Rightarrow> bytes \<Rightarrow> Conn" where
  "put_stored sha c sequence body =
     c\<lparr>c_pending := AList.update sequence \<lparr>up_body = body, up_hash = sha body\<rparr> (c_pending c),
       inputBytes := inputBytes c + int (length body)\<rparr>"

definition log_put :: "Conn \<Rightarrow> u64 \<Rightarrow> bytes \<Rightarrow> history \<Rightarrow> history" where
  "log_put c sequence body h =
     (if put_accepts c sequence body then h\<lparr>h_log := (h_log h)(unat sequence \<mapsto> body)\<rparr> else h)"

lemma Put_rejects: "\<not> put_accepts c sequence body \<Longrightarrow> fst (Put sha c sequence body) = c"
  by (auto simp: Put_def put_accepts_def Let_def split: option.splits if_splits)

lemma Put_accepts:
  assumes "put_accepts c sequence body"
  shows "Put sha c sequence body = (case put_drain (put_stored sha c sequence body) of
     (c, Ok _) \<Rightarrow> (signal c, uploadNext c, Ok ())
   | (c, Fail e) \<Rightarrow> (c, uploadNext c, Fail e)
   | (c, Panic) \<Rightarrow> (c, uploadNext c, Panic))"
  using assms by (simp add: Put_def put_accepts_def put_stored_def Let_def)

lemma uploaded_cong:
  "(\<And>i. i < n \<Longrightarrow> log_body h i = log_body h' i) \<Longrightarrow> uploaded h n = uploaded h' n"
  unfolding uploaded_def by (rule arg_cong [where f = concat]) simp

lemma put_window:
  assumes "put_accepts c sequence body"
  shows "unat (uploadNext c) \<le> unat sequence \<and> unat sequence < unat (uploadNext c) + UploadSlots"
proof -
  have le: "uploadNext c \<le> sequence" "sequence - uploadNext c < of_nat UploadSlots"
    using assms by (auto simp: put_accepts_def not_less not_le)
  have "sequence - uploadNext c < of_nat UploadSlots" by (rule le(2))
  then have "unat (sequence - uploadNext c) < 16" by (simp add: word_less_nat_alt)
  moreover have "unat (sequence - uploadNext c) = unat sequence - unat (uploadNext c)"
    using le by (simp add: unat_sub word_le_nat_alt)
  ultimately show ?thesis using le by (simp add: word_le_nat_alt)
qed

lemma pending_put_stored:
  assumes inv: "pending_inv sha c h" and acc: "put_accepts c sequence body"
  shows "pending_inv sha (put_stored sha c sequence body) (h\<lparr>h_log := (h_log h)(unat sequence \<mapsto> body)\<rparr>)"
proof -
  let ?c = "put_stored sha c sequence body" and ?h = "h\<lparr>h_log := (h_log h)(unat sequence \<mapsto> body)\<rparr>"
  have flds: "c_pending ?c = AList.update sequence \<lparr>up_body = body, up_hash = sha body\<rparr> (c_pending c)"
    "uploadNext ?c = uploadNext c"
    by (simp_all add: put_stored_def)
  have P: "unat (uploadNext c) \<le> unat k \<and> unat k < unat (uploadNext c) + UploadSlots \<and> k \<noteq> - 1
      \<and> up_body v \<noteq> [] \<and> up_hash v = sha (up_body v) \<and> h_log h (unat k) = Some (up_body v)"
    if "map_of (c_pending c) k = Some v" for k v
    using inv that unfolding pending_inv_def by blast
  have L: "h_log h i \<noteq> None \<longleftrightarrow> i < unat (uploadNext c) \<or> (\<exists>k. unat k = i \<and> map_of (c_pending c) k \<noteq> None)" for i
    using inv unfolding pending_inv_def by blast
  have none: "map_of (c_pending c) sequence = None" using acc by (simp add: put_accepts_def)
  show ?thesis
    unfolding pending_inv_def flds
  proof (intro conjI allI impI)
    show "distinct (map fst (AList.update sequence \<lparr>up_body = body, up_hash = sha body\<rparr> (c_pending c)))"
      using inv by (intro distinct_update) (simp add: pending_inv_def)
  next
    fix k v
    assume "map_of (AList.update sequence \<lparr>up_body = body, up_hash = sha body\<rparr> (c_pending c)) k = Some v"
    then have cases: "(k = sequence \<and> v = \<lparr>up_body = body, up_hash = sha body\<rparr>)
        \<or> (k \<noteq> sequence \<and> map_of (c_pending c) k = Some v)"
      by (simp split: if_splits)
    show "unat (uploadNext c) \<le> unat k" "unat k < unat (uploadNext c) + UploadSlots" "k \<noteq> - 1"
      "up_body v \<noteq> []" "up_hash v = sha (up_body v)" "h_log ?h (unat k) = Some (up_body v)"
      using cases P put_window [OF acc] acc by (auto simp: put_accepts_def word_unat_eq_iff)
  next
    fix i
    show "h_log ?h i \<noteq> None \<longleftrightarrow> i < unat (uploadNext c) \<or> (\<exists>k. unat k = i
        \<and> map_of (AList.update sequence \<lparr>up_body = body, up_hash = sha body\<rparr> (c_pending c)) k \<noteq> None)"
    proof (cases "i = unat sequence")
      case True
      then show ?thesis by (auto intro!: exI [of _ sequence])
    next
      case False
      then have "(\<exists>k. unat k = i \<and> map_of (AList.update sequence \<lparr>up_body = body, up_hash = sha body\<rparr> (c_pending c)) k \<noteq> None)
          \<longleftrightarrow> (\<exists>k. unat k = i \<and> map_of (c_pending c) k \<noteq> None)"
        by auto
      then show ?thesis using L [of i] False by simp
    qed
  qed
qed

lemma open_inv_put_stored:
  assumes inv: "open_inv sha c h" and acc: "put_accepts c sequence body"
  shows "open_inv sha (put_stored sha c sequence body) (h\<lparr>h_log := (h_log h)(unat sequence \<mapsto> body)\<rparr>)"
proof -
  let ?c = "put_stored sha c sequence body" and ?h = "h\<lparr>h_log := (h_log h)(unat sequence \<mapsto> body)\<rparr>"
  have same: "log_body ?h i = log_body h i" if "i < unat (uploadNext c)" for i
    using that put_window [OF acc] by (simp add: log_body_def)
  have up: "uploaded ?h (unat (uploadNext c)) = uploaded h (unat (uploadNext c))"
    by (rule uploaded_cong) (rule same)
  have flds: "c_input ?c = c_input c" "inputOffset ?c = inputOffset c" "uploadNext ?c = uploadNext c"
    "receipts ?c = receipts c" "c_output ?c = c_output c" "outputBytes ?c = outputBytes c"
    "outputNext ?c = outputNext c" "outputFloor ?c = outputFloor c" "h_read ?h = h_read h" "h_blocks ?h = h_blocks h"
    by (simp_all add: put_stored_def)
  have "input_inv ?c ?h" using inv up unfolding open_inv_def input_inv_def flds by simp
  moreover have "receipts_inv sha ?c ?h"
    using inv same unfolding open_inv_def receipts_inv_def flds by auto
  moreover have "output_inv ?c ?h" using inv unfolding open_inv_def output_inv_def flds by blast
  moreover have "pending_bytes ?c = pending_bytes c + length body"
    using acc sum_update_fresh [of "c_pending c" sequence "\<lambda>u. length (up_body u)"]
    by (simp add: pending_bytes_def put_stored_def put_accepts_def)
  then have "bytes_inv ?c"
    using inv acc unfolding open_inv_def bytes_inv_def flds
    by (simp add: put_stored_def put_accepts_def)
  ultimately show ?thesis
    using inv pending_put_stored [OF _ acc] by (simp add: open_inv_def)
qed

text \<open>A call of \<open>Put\<close>: the result it returns and the state it leaves.\<close>

lemma Put_spec:
  assumes inv: "conn_inv sha c h"
  shows "conn_inv sha (fst (Put sha c sequence body)) (log_put c sequence body h)
    \<and> snd (snd (Put sha c sequence body)) \<noteq> Panic
    \<and> (put_accepts c sequence body \<longrightarrow> snd (snd (Put sha c sequence body)) = Ok ())
    \<and> uploadNext c \<le> uploadNext (fst (Put sha c sequence body))"
proof (cases "put_accepts c sequence body")
  case False
  have "snd (snd (Put sha c sequence body)) \<noteq> Panic"
    using False by (auto simp: Put_def put_accepts_def Let_def split: option.splits if_splits)
  then show ?thesis using False inv Put_rejects [OF False] by (simp add: log_put_def)
next
  case True
  then have "\<not> c_closed c" by (simp add: put_accepts_def)
  then have oi: "open_inv sha c h" using inv by (simp add: conn_inv_def)
  obtain c' where c': "put_drain (put_stored sha c sequence body) = (c', Ok ())"
    "open_inv sha c' (log_put c sequence body h)" "drained c'"
    "c_closed c' = c_closed (put_stored sha c sequence body)"
    "uploadNext (put_stored sha c sequence body) \<le> uploadNext c'"
    using put_drain_spec [OF open_inv_put_stored [OF oi True]] True by (auto simp: log_put_def)
  have "\<not> c_closed c'" using c'(4) \<open>\<not> c_closed c\<close> by (simp add: put_stored_def)
  then have "conn_inv sha c' (log_put c sequence body h)"
    using c'(2,3) open_prefix [OF c'(2)] by (simp add: conn_inv_def)
  moreover have "uploadNext c \<le> uploadNext c'" using c'(5) by (simp add: put_stored_def)
  ultimately show ?thesis by (simp add: Put_accepts [OF True] c'(1))
qed

end
