(* ===== verification/Packet_Steps.thy ===== *)
theory Packet_Steps
  imports Packet_Invariant
begin

text \<open>
  Every method of the packet connection keeps its invariant; the methods are the steps of
  a relation over the connection and its history, in any order.
\<close>

text \<open>Each part of the invariant depends on a few fields only.\<close>

lemma input_inv_cong:
  "c_input d = c_input c \<Longrightarrow> inputOffset d = inputOffset c \<Longrightarrow> uploadNext d = uploadNext c \<Longrightarrow>
    h_read g = h_read h \<Longrightarrow> log_body g = log_body h \<Longrightarrow> input_inv d g = input_inv c h"
  by (simp add: input_inv_def uploaded_def)

lemma pending_inv_cong:
  "c_pending d = c_pending c \<Longrightarrow> uploadNext d = uploadNext c \<Longrightarrow> h_log g = h_log h \<Longrightarrow>
    pending_inv sha d g = pending_inv sha c h"
  by (simp add: pending_inv_def)

lemma receipts_inv_cong:
  "receipts d = receipts c \<Longrightarrow> uploadNext d = uploadNext c \<Longrightarrow> log_body g = log_body h \<Longrightarrow>
    receipts_inv sha d g = receipts_inv sha c h"
  by (simp add: receipts_inv_def)

lemma output_inv_cong:
  "c_output d = c_output c \<Longrightarrow> outputBytes d = outputBytes c \<Longrightarrow> outputNext d = outputNext c \<Longrightarrow>
    outputFloor d = outputFloor c \<Longrightarrow> h_blocks g = h_blocks h \<Longrightarrow> output_inv d g = output_inv c h"
  by (simp add: output_inv_def)

lemma bytes_inv_cong:
  "c_input d = c_input c \<Longrightarrow> inputOffset d = inputOffset c \<Longrightarrow> inputBytes d = inputBytes c \<Longrightarrow>
    c_pending d = c_pending c \<Longrightarrow> bytes_inv d = bytes_inv c"
  by (simp add: bytes_inv_def pending_bytes_def)

lemmas inv_congs = input_inv_cong pending_inv_cong receipts_inv_cong output_inv_cong bytes_inv_cong

section \<open>Read\<close>

definition log_read :: "(conn_err, bytes option) outcome \<Rightarrow> history \<Rightarrow> history" where
  "log_read r h = (case r of Ok (Some got) \<Rightarrow> h\<lparr>h_read := h_read h @ got\<rparr> | _ \<Rightarrow> h)"

lemma log_body_indep [simp]: "log_body (h\<lparr>h_read := r\<rparr>) = log_body h"
  "log_body (h\<lparr>h_blocks := bs\<rparr>) = log_body h"
  by (simp_all add: log_body_def fun_eq_iff)

lemma uploaded_indep [simp]: "uploaded (h\<lparr>h_read := r\<rparr>) = uploaded h"
  "uploaded (h\<lparr>h_blocks := bs\<rparr>) = uploaded h"
  by (simp_all add: uploaded_def fun_eq_iff)

lemma drop_split: "drop i xs = take n (drop i xs) @ drop (i + length (take n (drop i xs))) xs"
proof (cases "n \<le> length (drop i xs)")
  case True
  then have "drop (i + length (take n (drop i xs))) xs = drop n (drop i xs)" by (simp add: add.commute)
  then show ?thesis by (metis append_take_drop_id)
next
  case False
  then show ?thesis by simp
qed

lemma input_inv_read:
  assumes inv: "input_inv c h" and inp: "c_input c = chunk # rest" and "0 < n"
  defines "got \<equiv> take n (drop (inputOffset c) chunk)"
  defines "off \<equiv> inputOffset c + length got"
  shows "got \<noteq> []" and "off \<le> length chunk"
    and "off = length chunk \<Longrightarrow>
      input_inv (c\<lparr>inputBytes := b, c_input := rest, inputOffset := 0\<rparr>) (h\<lparr>h_read := h_read h @ got\<rparr>)"
    and "off < length chunk \<Longrightarrow>
      input_inv (c\<lparr>inputOffset := off, inputBytes := b\<rparr>) (h\<lparr>h_read := h_read h @ got\<rparr>)"
proof -
  have o: "inputOffset c < length chunk" "chunked inputChunk (chunk # rest)"
    "h_read h @ drop (inputOffset c) (chunk @ concat rest) = uploaded h (unat (uploadNext c))"
    using inv inp by (auto simp: input_inv_def)
  show "got \<noteq> []" using o(1) assms(3) by (simp add: got_def)
  show le: "off \<le> length chunk" using o(1) by (simp add: off_def got_def)
  have split: "drop (inputOffset c) chunk = got @ drop off chunk"
    unfolding off_def got_def by (rule drop_split)
  have all: "h_read h @ got @ drop off chunk @ concat rest = uploaded h (unat (uploadNext c))"
    using o(1,3) split by simp
  have ch: "chunked inputChunk rest" using chunked_ConsD [OF o(2)] by simp
  show "input_inv (c\<lparr>inputBytes := b, c_input := rest, inputOffset := 0\<rparr>) (h\<lparr>h_read := h_read h @ got\<rparr>)"
    if "off = length chunk"
  proof -
    have "offset_ok rest 0" using ch by (cases rest) (auto dest: chunked_ConsD)
    then show ?thesis using all that ch by (simp add: input_inv_def)
  qed
  show "input_inv (c\<lparr>inputOffset := off, inputBytes := b\<rparr>) (h\<lparr>h_read := h_read h @ got\<rparr>)"
    if "off < length chunk"
    using that all o(2) inp by (simp add: input_inv_def)
qed

lemma Read_spec:
  assumes inv: "conn_inv sha c h"
  shows "conn_inv sha (fst (Read c now n)) (log_read (snd (Read c now n)) h)
    \<and> snd (Read c now n) \<noteq> Panic \<and> uploadNext (fst (Read c now n)) = uploadNext c"
proof (cases "n = 0 \<or> c_closed c \<or> deadlinePassed (readDeadline c) now \<or> c_input c = []")
  case True
  then show ?thesis using inv by (auto simp: Read_def log_read_def)
next
  case False
  then obtain chunk rest where inp: "c_input c = chunk # rest" by (cases "c_input c") auto
  have oi: "open_inv sha c h" "drained c" and nz: "0 < n" "\<not> c_closed c"
    using inv False by (auto simp: conn_inv_def)
  let ?got = "take n (drop (inputOffset c) chunk)"
  let ?off = "inputOffset c + length ?got" and ?b = "inputBytes c - int (length ?got)"
  let ?h = "h\<lparr>h_read := h_read h @ ?got\<rparr>"
  have ii: "input_inv c h" using oi by (simp add: open_inv_def)
  note rd = input_inv_read [OF ii inp nz(1)]
  have off: "inputOffset c < length chunk" using ii inp by (simp add: input_inv_def)
  define d where "d = (if ?off = length chunk
    then c\<lparr>inputBytes := ?b, c_input := rest, inputOffset := 0\<rparr> else c\<lparr>inputOffset := ?off, inputBytes := ?b\<rparr>)"
  have flds: "c_pending d = c_pending c" "uploadNext d = uploadNext c" "receipts d = receipts c"
    "c_output d = c_output c" "outputBytes d = outputBytes c" "outputNext d = outputNext c"
    "outputFloor d = outputFloor c" "c_closed d = c_closed c" "inputBytes d = ?b"
    by (simp_all add: d_def)
  have "input_inv d ?h" using rd(2-4) unfolding d_def by (cases "?off = length chunk") auto
  moreover have "pending_inv sha d ?h" "receipts_inv sha d ?h" "output_inv d ?h"
    using oi(1) pending_inv_cong [of d c ?h h sha] receipts_inv_cong [of d c ?h h sha]
      output_inv_cong [of d c ?h h]
    by (simp_all add: open_inv_def flds)
  moreover have "int (length (concat (c_input d))) - int (inputOffset d)
      = int (length (concat (c_input c))) - int (inputOffset c) - int (length ?got)"
    using rd(2) inp by (auto simp: d_def)
  then have "bytes_inv d"
    using oi(1) inp unfolding open_inv_def bytes_inv_def pending_bytes_def flds by auto
  ultimately have op: "open_inv sha d ?h" by (simp add: open_inv_def)
  have "conn_inv sha d ?h"
    using oi(2) nz(2) op open_prefix [OF op] by (simp add: conn_inv_def drained_def flds)
  moreover have "Read c now n = (signal (d\<lparr>readWaiting := False\<rparr>), Ok (Some ?got))"
    using False inp off nz by (simp add: Read_def d_def Let_def)
  ultimately show ?thesis by (simp add: log_read_def flds)
qed

section \<open>Write\<close>

lemma output_inv_block:
  assumes inv: "output_inv c h" and "outputNext c \<noteq> - 1" and "\<not> length (c_output c) \<ge> ReplaySlots"
    and "\<not> int (length b) > int ReplayLimit - outputBytes c"
  shows "output_inv (c\<lparr>c_output := c_output c @ [\<lparr>BlockSequence = outputNext c, BlockBody = b\<rparr>],
      outputNext := outputNext c + 1, outputBytes := outputBytes c + int (length b)\<rparr>)
    (h\<lparr>h_blocks := h_blocks h @ [b]\<rparr>)" (is "output_inv ?c ?h")
proof -
  let ?n = "unat (outputNext c)" and ?f = "unat (outputFloor c)"
  have n: "unat (outputNext c + 1) = ?n + 1" by (rule unat_Suc [OF assms(2)])
  have old: "c_output c = map (\<lambda>i. \<lparr>BlockSequence = of_nat i, BlockBody = h_blocks h ! i\<rparr>) [?f..<?n]"
    "length (h_blocks h) = ?n" "outputFloor c \<le> outputNext c"
    "outputBytes c = int (length (concat (map BlockBody (c_output c))))"
    using inv unfolding output_inv_def by blast+
  have le: "?f \<le> ?n" using old(3) by (simp add: word_le_nat_alt)
  have "c_output ?c = map (\<lambda>i. \<lparr>BlockSequence = of_nat i, BlockBody = h_blocks ?h ! i\<rparr>)
      [unat (outputFloor ?c)..<unat (outputNext ?c)]"
  proof -
    have "map (\<lambda>i. \<lparr>BlockSequence = of_nat i, BlockBody = (h_blocks h @ [b]) ! i\<rparr>) [?f..<?n] = c_output c"
      unfolding old(1) using old(2) by (intro map_cong) (auto simp: nth_append)
    then show ?thesis using le old(2) n by (simp add: nth_append)
  qed
  moreover have "outputFloor ?c \<le> outputNext ?c" "length (h_blocks ?h) = unat (outputNext ?c)"
    using old(2,3) n by (simp_all add: word_le_nat_alt)
  moreover have "outputBytes ?c = int (length (concat (map BlockBody (c_output ?c))))"
    using old(4) by simp
  moreover have "outputBytes ?c \<le> int ReplayLimit" "length (c_output ?c) \<le> ReplaySlots"
    using assms(3,4) by simp_all
  ultimately show ?thesis unfolding output_inv_def by blast
qed

lemma writeLocked_spec:
  assumes "conn_inv sha c h" and "writeLocked c now p blockSize w = (c', w', rest, r)"
  shows "\<exists>bs. concat bs @ rest = p \<and> w' = w + length (concat bs)
    \<and> conn_inv sha c' (h\<lparr>h_blocks := h_blocks h @ bs\<rparr>)
    \<and> list_all (\<lambda>b. length b \<le> blockSize) bs \<and> r \<noteq> Panic \<and> (r = Ok True \<longrightarrow> rest = [])
    \<and> uploadNext c' = uploadNext c \<and> outputFloor c' = outputFloor c \<and> cork c' = cork c
    \<and> (\<exists>ks. c_output c' = c_output c @ ks \<and> map BlockBody ks = bs)"
  using assms
proof (induction c now p blockSize w arbitrary: h rule: writeLocked.induct)
  case (1 c now p blockSize w)
  show ?case
  proof (cases "length p > 0 \<and> \<not> c_closed c \<and> \<not> deadlinePassed (writeDeadline c) now
      \<and> \<not> (int (min (length p) blockSize) > int ReplayLimit - outputBytes c \<or> length (c_output c) \<ge> ReplaySlots)
      \<and> outputNext c \<noteq> - 1")
    case False
    then have "c' = c \<and> w' = w \<and> rest = p \<and> r \<noteq> Panic \<and> (r = Ok True \<longrightarrow> rest = [])"
      using "1.prems"(2) by (subst (asm) writeLocked.simps) (auto simp: Let_def split: if_splits)
    then show ?thesis using "1.prems"(1) by (intro exI [of _ "[]"]) auto
  next
    case True
    define n where "n = min (length p) blockSize"
    define d where "d = signal (c\<lparr>c_output := c_output c @ [\<lparr>BlockSequence = outputNext c, BlockBody = take n p\<rparr>],
      outputNext := outputNext c + 1, outputBytes := outputBytes c + int n\<rparr>)"
    let ?h = "h\<lparr>h_blocks := h_blocks h @ [take n p]\<rparr>"
    have len: "length (take n p) = n" by (simp add: n_def)
    have oi: "open_inv sha c h" "drained c" using "1.prems"(1) True by (auto simp: conn_inv_def)
    define e where "e = c\<lparr>c_output := c_output c @ [\<lparr>BlockSequence = outputNext c, BlockBody = take n p\<rparr>],
      outputNext := outputNext c + 1, outputBytes := outputBytes c + int (length (take n p))\<rparr>"
    have flds: "c_input e = c_input c" "inputOffset e = inputOffset c" "inputBytes e = inputBytes c"
      "uploadNext e = uploadNext c" "c_pending e = c_pending c" "receipts e = receipts c" "c_closed e = c_closed c"
      by (simp_all add: e_def)
    have "output_inv e ?h"
      unfolding e_def using True len oi by (intro output_inv_block) (auto simp: open_inv_def n_def)
    then have op: "open_inv sha e ?h"
      using oi(1) input_inv_cong [of e c ?h h] pending_inv_cong [of e c ?h h sha]
        receipts_inv_cong [of e c ?h h sha] bytes_inv_cong [of e c]
      by (simp add: open_inv_def flds)
    have "conn_inv sha e ?h"
      using oi(2) True op open_prefix [OF op] by (simp add: conn_inv_def drained_def flds)
    then have "conn_inv sha d ?h" unfolding d_def e_def len conn_inv_signal .
    moreover have step: "writeLocked c now p blockSize w = writeLocked d now (drop n p) blockSize (w + n)"
      using True by (subst writeLocked.simps) (simp add: n_def d_def Let_def)
    ultimately have "\<exists>bs. concat bs @ rest = drop n p \<and> w' = w + n + length (concat bs)
        \<and> conn_inv sha c' (?h\<lparr>h_blocks := h_blocks ?h @ bs\<rparr>) \<and> list_all (\<lambda>b. length b \<le> blockSize) bs
        \<and> r \<noteq> Panic \<and> (r = Ok True \<longrightarrow> rest = [])
        \<and> uploadNext c' = uploadNext d \<and> outputFloor c' = outputFloor d \<and> cork c' = cork d
        \<and> (\<exists>ks. c_output c' = c_output d @ ks \<and> map BlockBody ks = bs)"
      using "1.IH" [OF _ _ _ n_def, folded d_def, of ?h] True "1.prems"(2) by (simp add: n_def)
    then obtain bs ks where bs: "concat bs @ rest = drop n p" "w' = w + n + length (concat bs)"
      "conn_inv sha c' (h\<lparr>h_blocks := (h_blocks h @ [take n p]) @ bs\<rparr>)" "list_all (\<lambda>b. length b \<le> blockSize) bs"
      "r \<noteq> Panic \<and> (r = Ok True \<longrightarrow> rest = [])"
      "uploadNext c' = uploadNext c \<and> outputFloor c' = outputFloor c \<and> cork c' = cork c"
      "c_output c' = c_output c @ \<lparr>BlockSequence = outputNext c, BlockBody = take n p\<rparr> # ks" "map BlockBody ks = bs"
      by (auto simp: d_def signal_def)
    then show ?thesis
      using len by (intro exI [of _ "take n p # bs"]) (auto simp: n_def)
  qed
qed

section \<open>Acknowledgement and replay\<close>

lemma drop_acked_eq:
  "drop_acked ack out n = (dropWhile (\<lambda>b. BlockSequence b < ack) out,
     n - int (length (concat (map BlockBody (takeWhile (\<lambda>b. BlockSequence b < ack) out)))))"
  by (induction ack out n rule: drop_acked.induct) auto

lemma dropWhile_blocks:
  assumes "i \<le> unat ack" and "unat ack \<le> j" and "j < 2 ^ 64"
  shows "dropWhile (\<lambda>b. BlockSequence b < ack) (map (\<lambda>i. \<lparr>BlockSequence = of_nat i, BlockBody = f i\<rparr>) [i..<j])
    = map (\<lambda>i. \<lparr>BlockSequence = of_nat i, BlockBody = f i\<rparr>) [unat ack..<j]"
proof -
  let ?B = "\<lambda>i. \<lparr>BlockSequence = of_nat i, BlockBody = f i\<rparr>"
  have lt: "(of_nat k :: u64) < ack \<longleftrightarrow> k < unat ack" if "k < j" for k
    using that assms(3) by (simp add: word_less_nat_alt unat_of_nat)
  have split: "map ?B [i..<j] = map ?B [i..<unat ack] @ map ?B [unat ack..<j]"
    using assms(1,2) upt_add_eq_append [of i "unat ack" "j - unat ack"] by simp
  have "dropWhile (\<lambda>b. BlockSequence b < ack) (map ?B [i..<unat ack] @ map ?B [unat ack..<j])
      = dropWhile (\<lambda>b. BlockSequence b < ack) (map ?B [unat ack..<j])"
    using lt assms(2) by (intro dropWhile_append2) auto
  also have "\<dots> = map ?B [unat ack..<j]"
    using lt [of "unat ack"] by (cases "unat ack < j") (auto simp: upt_conv_Cons)
  finally show ?thesis unfolding split .
qed

lemma output_inv_ack:
  assumes inv: "output_inv c h" and "\<not> ack > outputNext c" and "\<not> ack < outputFloor c"
    and da: "drop_acked ack (c_output c) (outputBytes c) = (out, n)"
  shows "output_inv (c\<lparr>c_output := out, outputBytes := n, outputFloor := ack\<rparr>) h"
proof -
  let ?P = "\<lambda>b. BlockSequence b < ack"
  have old: "c_output c = map (\<lambda>i. \<lparr>BlockSequence = of_nat i, BlockBody = h_blocks h ! i\<rparr>)
      [unat (outputFloor c)..<unat (outputNext c)]"
    "length (h_blocks h) = unat (outputNext c)"
    "outputBytes c = int (length (concat (map BlockBody (c_output c))))"
    "outputBytes c \<le> int ReplayLimit" "length (c_output c) \<le> ReplaySlots"
    using inv unfolding output_inv_def by blast+
  have le: "unat (outputFloor c) \<le> unat ack" "unat ack \<le> unat (outputNext c)" "ack \<le> outputNext c"
    using assms(2,3) by (auto simp: not_less word_le_nat_alt)
  have out: "out = dropWhile ?P (c_output c)"
    and n: "n = outputBytes c - int (length (concat (map BlockBody (takeWhile ?P (c_output c)))))"
    using da by (auto simp: drop_acked_eq)
  have shape: "out = map (\<lambda>i. \<lparr>BlockSequence = of_nat i, BlockBody = h_blocks h ! i\<rparr>)
      [unat ack..<unat (outputNext c)]"
    unfolding out old(1) using le unat_bound [of "outputNext c"] by (intro dropWhile_blocks) auto
  have "concat (map BlockBody (c_output c)) = concat (map BlockBody (takeWhile ?P (c_output c))) @ concat (map BlockBody out)"
    unfolding out by (metis concat_append map_append takeWhile_dropWhile_id)
  then have bytes: "n = int (length (concat (map BlockBody out)))" using n old(3) by simp
  have "length out \<le> length (c_output c)" unfolding out by (rule length_dropWhile_le)
  then have "length out \<le> ReplaySlots" "n \<le> int ReplayLimit" using old(4,5) n by auto
  moreover let ?d = "c\<lparr>c_output := out, outputBytes := n, outputFloor := ack\<rparr>"
  have "c_output ?d = out" "outputBytes ?d = n" "outputFloor ?d = ack" "outputNext ?d = outputNext c"
    by simp_all
  note flds = this
  ultimately show ?thesis
    using shape bytes le old(2) unfolding output_inv_def flds by blast
qed

lemma ackLocked_spec:
  assumes inv: "conn_inv sha c h"
  shows "conn_inv sha (fst (ackLocked c ack)) h \<and> snd (ackLocked c ack) \<noteq> Panic
    \<and> uploadNext (fst (ackLocked c ack)) = uploadNext c"
proof (cases "c_closed c \<or> ack > outputNext c \<or> ack < outputFloor c")
  case True
  then show ?thesis using inv by (auto simp: ackLocked_def)
next
  case False
  obtain out n where da: "drop_acked ack (c_output c) (outputBytes c) = (out, n)" by force
  let ?d = "c\<lparr>c_output := out, outputBytes := n, outputFloor := ack\<rparr>"
  have oi: "open_inv sha c h" "drained c" using inv False by (auto simp: conn_inv_def)
  have "output_inv ?d h" using oi(1) False da by (intro output_inv_ack) (auto simp: open_inv_def)
  then have op: "open_inv sha ?d h"
    using oi(1) input_inv_cong [of ?d c h h] pending_inv_cong [of ?d c h h sha]
      receipts_inv_cong [of ?d c h h sha] bytes_inv_cong [of ?d c]
    by (simp add: open_inv_def)
  have "conn_inv sha ?d h"
    using oi(2) False op open_prefix [OF op] by (simp add: conn_inv_def drained_def)
  moreover have "ackLocked c ack = (signal ?d, Ok ())" using False da by (simp add: ackLocked_def)
  ultimately show ?thesis by simp
qed

lemma Attach_spec:
  assumes inv: "conn_inv sha c h"
  shows "conn_inv sha (fst (Attach c gen ack)) h \<and> snd (Attach c gen ack) \<noteq> Panic
    \<and> uploadNext (fst (Attach c gen ack)) = uploadNext c"
proof -
  obtain d r where "ackLocked c ack = (d, r)" by force
  with ackLocked_spec [OF inv, of ack] inv show ?thesis by (cases r) (auto simp: Attach_def)
qed

lemma CloseWithError_inv: "conn_inv sha c h \<Longrightarrow> conn_inv sha (CloseWithError c e) h"
  by (auto simp: CloseWithError_def conn_inv_def signal_def)

text \<open>A block that is not acknowledged is replayed exactly, and only such a block.\<close>

lemma nth_output:
  assumes inv: "output_inv c h" and "\<not> n < outputFloor c" and "n < outputNext c"
  shows "unat (n - outputFloor c) < length (c_output c)"
    and "c_output c ! unat (n - outputFloor c) = \<lparr>BlockSequence = n, BlockBody = h_blocks h ! unat n\<rparr>"
proof -
  have le: "unat (outputFloor c) \<le> unat n" "unat n < unat (outputNext c)"
    using assms(2,3) by (auto simp: not_less word_le_nat_alt word_less_nat_alt)
  have d: "unat (n - outputFloor c) = unat n - unat (outputFloor c)"
    using assms(2) by (simp add: unat_sub not_less)
  have out: "c_output c = map (\<lambda>i. \<lparr>BlockSequence = of_nat i, BlockBody = h_blocks h ! i\<rparr>)
      [unat (outputFloor c)..<unat (outputNext c)]"
    using inv unfolding output_inv_def by blast
  show "unat (n - outputFloor c) < length (c_output c)" using le by (simp add: out d)
  show "c_output c ! unat (n - outputFloor c) = \<lparr>BlockSequence = n, BlockBody = h_blocks h ! unat n\<rparr>"
  proof -
    have "[unat (outputFloor c)..<unat (outputNext c)] ! (unat n - unat (outputFloor c)) = unat n"
      using le by (subst nth_upt) simp_all
    then show ?thesis using le by (simp add: out d)
  qed
qed

lemma Next_spec:
  assumes "conn_inv sha c h"
  shows "Next c gen n \<noteq> Panic"
    and "Next c gen n = Ok (Some b) \<Longrightarrow> unat n < length (h_blocks h) \<and> b = \<lparr>BlockSequence = n, BlockBody = h_blocks h ! unat n\<rparr>"
proof -
  have oi: "output_inv c h" if "\<not> c_closed c" using assms that by (simp add: conn_inv_def open_inv_def)
  then have len: "length (h_blocks h) = unat (outputNext c)" if "\<not> c_closed c"
    using that by (simp add: output_inv_def)
  show "Next c gen n \<noteq> Panic" using nth_output [OF oi] by (auto simp: Next_def Let_def)
  show "unat n < length (h_blocks h) \<and> b = \<lparr>BlockSequence = n, BlockBody = h_blocks h ! unat n\<rparr>"
    if "Next c gen n = Ok (Some b)"
    using that nth_output [OF oi] len
    by (auto simp: Next_def Let_def word_less_nat_alt split: if_splits)
qed

lemma Flight_spec:
  assumes inv: "conn_inv sha c h"
  shows "Flight c n \<noteq> Panic"
    and "Flight c n = Ok (Some bs) \<Longrightarrow> bs = map (\<lambda>i. \<lparr>BlockSequence = of_nat i, BlockBody = h_blocks h ! i\<rparr>)
      [unat n..<length (h_blocks h)]"
proof -
  have oi: "output_inv c h" if "\<not> c_closed c" using inv that by (simp add: conn_inv_def open_inv_def)
  show "Flight c n \<noteq> Panic" 
    using less_imp_le [OF nth_output(1) [OF oi]] by (auto simp: Flight_def Let_def)
  assume fl: "Flight c n = Ok (Some bs)"
  then have cond: "\<not> c_closed c" "\<not> n < outputFloor c" "n < outputNext c"
    and bs: "bs = drop (unat (n - outputFloor c)) (c_output c)"
    by (auto simp: Flight_def Let_def split: if_splits)
  have d: "unat (n - outputFloor c) = unat n - unat (outputFloor c)" "unat (outputFloor c) \<le> unat n"
    using cond(2) by (simp_all add: unat_sub not_less word_le_nat_alt)
  have "c_output c = map (\<lambda>i. \<lparr>BlockSequence = of_nat i, BlockBody = h_blocks h ! i\<rparr>)
      [unat (outputFloor c)..<unat (outputNext c)]" "length (h_blocks h) = unat (outputNext c)"
    using oi [OF cond(1)] unfolding output_inv_def by blast+
  then show "bs = map (\<lambda>i. \<lparr>BlockSequence = of_nat i, BlockBody = h_blocks h ! i\<rparr>) [unat n..<length (h_blocks h)]"
    using d by (simp add: bs drop_map)
qed

section \<open>The step relation\<close>

definition log_write :: "Conn \<Rightarrow> Conn \<Rightarrow> history \<Rightarrow> history" where
  "log_write c c' h = h\<lparr>h_blocks := h_blocks h @ map BlockBody (drop (length (c_output c)) (c_output c'))\<rparr>"

lemma log_write_same [simp]: "log_write c c h = h" "c_output d = c_output c \<Longrightarrow> log_write c d h = h"
  by (simp_all add: log_write_def)

lemma writeLocked_log:
  assumes "conn_inv sha c h" and "writeLocked c now p k w = (c', w', rest, r)"
  shows "conn_inv sha c' (log_write c c' h) \<and> uploadNext c' = uploadNext c"
  using writeLocked_spec [OF assms] by (auto simp: log_write_def)

inductive conn_step :: "(bytes \<Rightarrow> bytes) \<Rightarrow> Conn \<times> history \<Rightarrow> Conn \<times> history \<Rightarrow> bool" for sha where
  do_put: "conn_step sha (c, h) (fst (Put sha c n body), log_put c n body h)"
| do_read: "conn_step sha (c, h) (fst (Read c now n), log_read (snd (Read c now n)) h)"
| do_resume: "conn_step sha (c, h) (fst (read_resume c werr), h)"
| do_write: "conn_step sha (c, h) (fst (Write c now p), log_write c (fst (Write c now p)) h)"
| do_write_more: "0 < k \<Longrightarrow> k \<le> MaxBlock \<Longrightarrow>
    conn_step sha (c, h) (fst (writeLocked c now p k w), log_write c (fst (writeLocked c now p k w)) h)"
| do_cork: "conn_step sha (c, h) (Cork c, h)"
| do_uncork: "conn_step sha (c, h) (fst (Uncork c now), log_write c (fst (Uncork c now)) h)"
| do_ack: "conn_step sha (c, h) (fst (Ack c n), h)"
| do_attach: "conn_step sha (c, h) (fst (Attach c gen n), h)"
| do_close: "conn_step sha (c, h) (CloseWithError c e, h)"
| do_deadline: "conn_step sha (c, h) (SetDeadline c t, h)"
| do_read_deadline: "conn_step sha (c, h) (SetReadDeadline c t, h)"
| do_write_deadline: "conn_step sha (c, h) (SetWriteDeadline c t, h)"

definition conn_start :: "Conn \<times> history \<Rightarrow> bool" where
  "conn_start s \<longleftrightarrow> s = (NewConn, \<lparr>h_log = \<lambda>_. None, h_read = [], h_blocks = []\<rparr>)"

lemma conn_inv_start: "conn_start s \<Longrightarrow> conn_inv sha (fst s) (snd s)"
  by (auto simp: conn_start_def NewConn_def conn_inv_def open_inv_defs uploaded_def)

lemma Write_inv:
  assumes inv: "conn_inv sha c h"
  shows "conn_inv sha (fst (Write c now p)) (log_write c (fst (Write c now p)) h)"
proof -
  obtain c' w' rest r where "writeLocked c now p MaxBlock 0 = (c', w', rest, r)" by (metis prod_cases4)
  with writeLocked_log [OF inv this] inv show ?thesis by (simp add: Write_def)
qed

lemma Uncork_inv:
  assumes inv: "conn_inv sha c h"
  shows "conn_inv sha (fst (Uncork c now)) (log_write c (fst (Uncork c now)) h)"
proof -
  let ?c = "c\<lparr>cork := [], corked := False\<rparr>"
  obtain c' w' rest r where w: "writeLocked ?c now (cork c) (uncork_size (length (cork c))) 0 = (c', w', rest, r)"
    by (metis prod_cases4)
  have "conn_inv sha ?c h" using inv by simp
  from writeLocked_log [OF this w] w inv show ?thesis by (simp add: Uncork_def Let_def log_write_def)
qed

lemma conn_inv_step:
  assumes "conn_inv sha (fst s) (snd s)" and "conn_step sha s t"
  shows "conn_inv sha (fst t) (snd t)"
  using assms(2,1)
proof cases
  case (do_write_more k c h now p w)
  obtain c' w' rest r where "writeLocked c now p k w = (c', w', rest, r)" by (metis prod_cases4)
  with writeLocked_log [of sha c h now p k w] do_write_more assms(1) show ?thesis by simp
qed (auto simp: Put_spec Read_spec read_resume_def Write_inv Cork_def Uncork_inv Ack_def ackLocked_spec
    Attach_spec CloseWithError_inv SetDeadline_def SetReadDeadline_def SetWriteDeadline_def)

definition conn_reachable :: "(bytes \<Rightarrow> bytes) \<Rightarrow> Conn \<Rightarrow> history \<Rightarrow> bool" where
  "conn_reachable sha c h \<longleftrightarrow> (\<exists>s. conn_start s \<and> (conn_step sha)\<^sup>*\<^sup>* s (c, h))"

interpretation packet_conn: step_system conn_start "conn_step sha" "\<lambda>s. conn_inv sha (fst s) (snd s)" for sha
  by unfold_locales (auto intro: conn_inv_start conn_inv_step)

lemma conn_reachable_inv: "conn_reachable sha c h \<Longrightarrow> conn_inv sha c h"
  unfolding conn_reachable_def using packet_conn.reachable_inv by fastforce

lemma conn_reachable_start: "conn_reachable sha NewConn \<lparr>h_log = \<lambda>_. None, h_read = [], h_blocks = []\<rparr>"
  by (auto simp: conn_reachable_def conn_start_def)

lemma conn_reachable_step: "conn_reachable sha c h \<Longrightarrow> conn_step sha (c, h) (d, g) \<Longrightarrow> conn_reachable sha d g"
  unfolding conn_reachable_def by (blast intro: rtranclp.rtrancl_into_rtrancl)

end
