(* ===== verification/Packet_Properties.thy ===== *)
theory Packet_Properties
  imports Packet_Steps
begin

text \<open>
  The properties of the packet connection, over every state that calls of its methods can
  reach in any order from a new connection.
\<close>

section \<open>Wake-ups\<close>

text \<open>What a waiting \<open>Read\<close>, \<open>Write\<close>, \<open>Next\<close> or \<open>Flight\<close> looks at, apart from \<open>readWaiting\<close>.\<close>

definition watch where
  "watch c = (c_closed c, c_err c, c_input c, inputOffset c, readDeadline c, writeDeadline c,
     c_output c, outputBytes c, outputNext c, outputFloor c, generation c, attached c)"

lemma put_drain_changed: "c_changed (fst (put_drain c)) = c_changed c"
proof (induction c rule: put_drain.induct)
  case (1 c)
  show ?case
  proof (cases "map_of (c_pending c) (uploadNext c)")
    case None
    then show ?thesis by (subst put_drain.simps) simp
  next
    case (Some u)
    then show ?thesis
      using "1.IH" [OF Some] by (subst put_drain.simps) (auto simp: Let_def split: outcome.splits)
  qed
qed

lemma writeLocked_changed:
  "writeLocked c now p k w = (c', w', rest, r) \<Longrightarrow> c' = c \<or> c_changed c < c_changed c'"
proof (induction c now p k w rule: writeLocked.induct)
  case (1 c now p k w)
  show ?case
  proof (cases "length p > 0 \<and> \<not> c_closed c \<and> \<not> deadlinePassed (writeDeadline c) now
      \<and> \<not> (int (min (length p) k) > int ReplayLimit - outputBytes c \<or> length (c_output c) \<ge> ReplaySlots)
      \<and> outputNext c \<noteq> - 1")
    case False
    then show ?thesis
      using "1.prems" by (subst (asm) writeLocked.simps) (auto simp: Let_def split: if_splits)
  next
    case True
    define n where "n = min (length p) k"
    define d where "d = signal (c\<lparr>c_output := c_output c @ [\<lparr>BlockSequence = outputNext c, BlockBody = take n p\<rparr>],
      outputNext := outputNext c + 1, outputBytes := outputBytes c + int n\<rparr>)"
    have "writeLocked c now p k w = writeLocked d now (drop n p) k (w + n)"
      using True by (subst writeLocked.simps) (simp add: n_def d_def Let_def)
    moreover have "c_changed c < c_changed d" by (simp add: d_def signal_def)
    ultimately show ?thesis
      using "1.IH" [OF _ _ _ n_def, folded d_def] True "1.prems" by (auto simp: n_def)
  qed
qed

lemma changed_signal [simp]: "c_changed (signal c) = Suc (c_changed c)"
  by (simp add: signal_def)

lemma step_wakes:
  assumes "conn_inv sha c h" and "conn_step sha (c, h) (d, g)"
  shows "c_changed c < c_changed d \<or> (watch d = watch c \<and> (readWaiting d \<longrightarrow> readWaiting c))"
  using assms(2)
proof cases
  case (do_put n body)
  show ?thesis
  proof (cases "put_accepts c n body")
    case False
    then show ?thesis using do_put Put_rejects by simp
  next
    case True
    have oi: "open_inv sha c h" using assms(1) True by (simp add: conn_inv_def put_accepts_def)
    obtain e where "put_drain (put_stored sha c n body) = (e, Ok ())"
      using put_drain_spec [OF open_inv_put_stored [OF oi True]] by blast
    moreover from this have "c_changed e = c_changed c"
      using put_drain_changed [of "put_stored sha c n body"] by (simp add: put_stored_def)
    ultimately show ?thesis using do_put by (simp add: Put_accepts [OF True])
  qed
next
  case (do_read now n)
  then show ?thesis by (auto simp: Read_def Let_def split: list.splits)
next
  case (do_write now p)
  obtain c' w' rest r where w: "writeLocked c now p MaxBlock 0 = (c', w', rest, r)" by (metis prod_cases4)
  from writeLocked_changed [OF w] w do_write show ?thesis by (auto simp: Write_def watch_def)
next
  case (do_write_more k now p w)
  obtain c' w' rest r where w: "writeLocked c now p k w = (c', w', rest, r)" by (metis prod_cases4)
  from writeLocked_changed [OF w] w do_write_more show ?thesis by auto
next
  case (do_uncork now)
  let ?c = "c\<lparr>cork := [], corked := False\<rparr>"
  obtain c' w' rest r where w: "writeLocked ?c now (cork c) (uncork_size (length (cork c))) 0 = (c', w', rest, r)"
    by (metis prod_cases4)
  from writeLocked_changed [OF w] w do_uncork show ?thesis by (auto simp: Uncork_def Let_def watch_def)
next
  case (do_attach gen n)
  then show ?thesis
    by (auto simp: Attach_def ackLocked_def split: prod.splits if_splits)
qed (auto simp: read_resume_def Cork_def Ack_def ackLocked_def CloseWithError_def SetDeadline_def
    SetReadDeadline_def SetWriteDeadline_def watch_def split: prod.splits)

lemma watch_passes:
  assumes "watch d = watch c"
  shows "Next d gen n = Next c gen n"
    and "snd (Read c now m) = Ok None \<Longrightarrow> snd (Read d now m) = Ok None"
    and "writeLocked c now p k w = (c, w, p, Ok False) \<Longrightarrow> writeLocked d now p k w = (d, w, p, Ok False)"
proof -
  have flds: "c_closed d = c_closed c" "c_err d = c_err c" "c_input d = c_input c" "readDeadline d = readDeadline c"
    "writeDeadline d = writeDeadline c" "c_output d = c_output c" "outputBytes d = outputBytes c"
    "outputNext d = outputNext c" "outputFloor d = outputFloor c" "generation d = generation c" "attached d = attached c"
    using assms by (auto simp: watch_def)
  show "Next d gen n = Next c gen n" by (simp add: Next_def Let_def flds closeError_def)
  show "snd (Read d now m) = Ok None" if "snd (Read c now m) = Ok None"
    using that by (auto simp: Read_def flds Let_def split: list.splits if_splits)
  assume w: "writeLocked c now p k w = (c, w, p, Ok False)"
  have "length p > 0 \<and> \<not> c_closed c \<and> \<not> deadlinePassed (writeDeadline c) now
      \<and> (int (min (length p) k) > int ReplayLimit - outputBytes c \<or> length (c_output c) \<ge> ReplaySlots)"
  proof (rule ccontr)
    assume no: "\<not> ?thesis"
    define n where "n = min (length p) k"
    define e where "e = signal (c\<lparr>c_output := c_output c @ [\<lparr>BlockSequence = outputNext c, BlockBody = take n p\<rparr>],
      outputNext := outputNext c + 1, outputBytes := outputBytes c + int n\<rparr>)"
    have "writeLocked e now (drop n p) k (w + n) = (c, w, p, Ok False)"
      using w no by (subst (asm) writeLocked.simps) (auto simp: Let_def n_def e_def split: if_splits)
    from writeLocked_changed [OF this] show False by (auto simp: e_def signal_def dest: arg_cong [where f = c_changed])
  qed
  then show "writeLocked d now p k w = (d, w, p, Ok False)"
    by (subst writeLocked.simps) (auto simp: flds Let_def)
qed

section \<open>A connection for the witnesses\<close>

text \<open>Uploads 1 and 0 arrive in this order, one byte is read, three bytes are written.\<close>

definition demo_sha :: "bytes \<Rightarrow> bytes" where "demo_sha b = b"

definition empty_history :: history where
  "empty_history = \<lparr>h_log = \<lambda>_. None, h_read = [], h_blocks = []\<rparr>"

definition demo_h1 :: history where "demo_h1 = log_put NewConn 1 [5, 6] empty_history"
definition demo_c1 :: Conn where "demo_c1 = fst (Put demo_sha NewConn 1 [5, 6])"
definition demo_h2 :: history where "demo_h2 = log_put demo_c1 0 [7] demo_h1"
definition demo_c2 :: Conn where "demo_c2 = fst (Put demo_sha demo_c1 0 [7])"
definition demo_h3 :: history where "demo_h3 = log_read (snd (Read demo_c2 0 2)) demo_h2"
definition demo_c3 :: Conn where "demo_c3 = fst (Read demo_c2 0 2)"
definition demo_c4 :: Conn where "demo_c4 = fst (Write demo_c3 0 [1, 2, 3])"
definition demo_h4 :: history where "demo_h4 = log_write demo_c3 demo_c4 demo_h3"
definition demo_c5 :: Conn where "demo_c5 = fst (Attach demo_c4 1 0)"

lemma demo_c1_eq: "demo_c1 = NewConn\<lparr>c_changed := 1, inputBytes := 2,
    c_pending := [(1, \<lparr>up_body = [5, 6], up_hash = [5, 6]\<rparr>)]\<rparr>"
  by (simp add: demo_c1_def Put_def NewConn_def put_drain.simps demo_sha_def signal_def Let_def
      word_le_nat_alt word_less_nat_alt)

lemma demo_c2_eq: "demo_c2 = NewConn\<lparr>c_changed := 2, c_input := [[7, 5, 6]], inputBytes := 3, uploadNext := 2,
    receipts := [(0, [7]), (1, [5, 6])]\<rparr>"
  by (simp add: demo_c2_def demo_c1_eq Put_def NewConn_def put_drain.simps put_chunks.simps demo_sha_def signal_def
      Let_def word_le_nat_alt word_less_nat_alt)

lemma demo_h2_eq: "demo_h2 = empty_history\<lparr>h_log := [1 \<mapsto> [5, 6], 0 \<mapsto> [7]]\<rparr>"
proof -
  have "put_accepts NewConn 1 [5, 6]" "put_accepts demo_c1 0 [7]"
    by (simp_all add: demo_c1_eq put_accepts_def NewConn_def word_le_nat_alt word_less_nat_alt)
  then show ?thesis by (simp add: demo_h2_def demo_h1_def log_put_def empty_history_def)
qed

lemma demo_c5_eq: "demo_c5 = NewConn\<lparr>c_changed := 6, c_input := [[7, 5, 6]], inputOffset := 2, inputBytes := 1,
    uploadNext := 2, receipts := [(0, [7]), (1, [5, 6])],
    c_output := [\<lparr>BlockSequence = 0, BlockBody = [1, 2, 3]\<rparr>], outputBytes := 3, outputNext := 1,
    generation := 1, attached := True\<rparr>"
  by (simp add: demo_c5_def demo_c4_def demo_c3_def demo_c2_eq NewConn_def Read_def Write_def writeLocked.simps
      Attach_def ackLocked_def signal_def deadlinePassed_def Let_def)

lemma demo_h4_eq: "demo_h4 = \<lparr>h_log = [1 \<mapsto> [5, 6], 0 \<mapsto> [7]], h_read = [7, 5], h_blocks = [[1, 2, 3]]\<rparr>"
  by (simp add: demo_h4_def demo_h3_def demo_h2_eq demo_c4_def demo_c3_def demo_c2_eq NewConn_def Read_def Write_def
      writeLocked.simps log_read_def log_write_def empty_history_def signal_def deadlinePassed_def Let_def)

lemmas demo_conn = demo_c5_eq demo_h4_eq NewConn_def

lemma demo_conn_reachable: "conn_reachable demo_sha demo_c5 demo_h4"
proof -
  note start = conn_reachable_start [of demo_sha, folded empty_history_def]
  have "conn_reachable demo_sha demo_c1 demo_h1"
    unfolding demo_c1_def demo_h1_def by (rule conn_reachable_step [OF start do_put])
  then have "conn_reachable demo_sha demo_c2 demo_h2"
    unfolding demo_c2_def demo_h2_def by (rule conn_reachable_step [OF _ do_put])
  then have "conn_reachable demo_sha demo_c3 demo_h3"
    unfolding demo_c3_def demo_h3_def by (rule conn_reachable_step [OF _ do_read])
  then have "conn_reachable demo_sha demo_c4 demo_h4"
    unfolding demo_c4_def demo_h4_def by (rule conn_reachable_step [OF _ do_write])
  then show ?thesis unfolding demo_c5_def by (rule conn_reachable_step [OF _ do_attach])
qed


section \<open>Properties\<close>

text \<open>
  C16. Reliable upload. Whatever order the uploads arrive in and however often they are
  repeated, the bytes that \<open>Read\<close> has returned are a prefix of the bodies of uploads \<open>0, 1, 2\<close>
  and so on, each exactly once and in order; on an open connection the bytes still in the
  input complete them to everything up to \<open>uploadNext\<close>, and every upload below \<open>uploadNext\<close>
  was accepted.
\<close>

theorem packet_in_order_once:
  assumes "conn_reachable sha c h"
  shows "prefix (h_read h) (uploaded h (unat (uploadNext c)))
    \<and> (\<not> c_closed c \<longrightarrow>
        h_read h @ drop (inputOffset c) (concat (c_input c)) = uploaded h (unat (uploadNext c))
        \<and> (\<forall>i < unat (uploadNext c). h_log h i \<noteq> None))"
proof -
  have inv: "conn_inv sha c h" by (rule conn_reachable_inv [OF assms])
  then show ?thesis
    unfolding conn_inv_def open_inv_def input_inv_def pending_inv_def by auto
qed

theorem packet_in_order_once_witness:
  "h_read demo_h4 @ drop (inputOffset demo_c5) (concat (c_input demo_c5)) = [7, 5, 6] \<and> h_read demo_h4 = [7, 5]"
proof -
  have "[0..<2] = [0, 1 :: nat]" by (simp add: upt_rec)
  then have "\<not> c_closed demo_c5" "h_read demo_h4 = [7, 5]" "uploaded demo_h4 (unat (uploadNext demo_c5)) = [7, 5, 6]"
    by (simp_all add: demo_conn uploaded_def log_body_def)
  then show ?thesis using packet_in_order_once [OF demo_conn_reachable] by simp
qed

text \<open>A repeated number: the answer depends on its age and its digest.\<close>

lemma Put_logged:
  assumes inv: "open_inv sha c h" and "\<not> c_closed c" and "h_log h (unat n) = Some b"
    and "0 < length body" and "length body \<le> MaxBlock"
  shows "Put sha c n body = (c, uploadNext c,
    if unat n + ReceiptCount < unat (uploadNext c) then Fail ErrGone
    else if sha body = sha b then Ok () else Fail ErrConflict)"
proof (cases "n < uploadNext c")
  case True
  then have lt: "unat n < unat (uploadNext c)" by (simp add: word_less_nat_alt)
  have "map_of (receipts c) n = (if unat n < unat (uploadNext c) \<and> unat (uploadNext c) \<le> unat n + ReceiptCount
      then Some (sha (log_body h (unat n))) else None)"
    using inv unfolding open_inv_def receipts_inv_def by blast
  moreover have "log_body h (unat n) = b" using assms(3) by (simp add: log_body_def)
  ultimately show ?thesis using True lt assms(2,4,5) by (auto simp: Put_def Let_def)
next
  case False
  then have ge: "\<not> unat n < unat (uploadNext c)" by (simp add: word_less_nat_alt)
  have pi: "pending_inv sha c h" using inv by (simp add: open_inv_def)
  obtain u where u: "map_of (c_pending c) n = Some u"
    using pi assms(3) ge unfolding pending_inv_def by (auto simp: word_unat_eq_iff [symmetric])
  have w: "unat (uploadNext c) \<le> unat n" "unat n < unat (uploadNext c) + UploadSlots" "n \<noteq> - 1"
    "up_hash u = sha (up_body u)" "h_log h (unat n) = Some (up_body u)"
    using pi u unfolding pending_inv_def by blast+
  have "unat (n - uploadNext c) < 16"
    using w(1,2) by (simp add: unat_sub word_le_nat_alt)
  then have "\<not> n - uploadNext c \<ge> of_nat UploadSlots" by (simp add: word_le_nat_alt)
  then show ?thesis using False ge w u assms by (auto simp: Put_def Let_def)
qed

text \<open>A new number is not behind the next expected one and does not wait yet.\<close>

lemma Put_unlogged:
  assumes inv: "open_inv sha c h" and "\<not> c_closed c" and log: "h_log h (unat n) = None"
    and "0 < length body" and "length body \<le> MaxBlock"
  shows "n = - 1 \<or> unat (uploadNext c) + UploadSlots \<le> unat n \<Longrightarrow> Put sha c n body = (c, uploadNext c, Fail ErrSequence)"
    and "n \<noteq> - 1 \<Longrightarrow> unat n < unat (uploadNext c) + UploadSlots \<Longrightarrow> int (length body) > int UploadLimit - inputBytes c
      \<Longrightarrow> Put sha c n body = (c, uploadNext c, Fail ErrFull)"
    and "n \<noteq> - 1 \<Longrightarrow> unat n < unat (uploadNext c) + UploadSlots \<Longrightarrow> int (length body) \<le> int UploadLimit - inputBytes c
      \<Longrightarrow> put_accepts c n body"
proof -
  have pi: "pending_inv sha c h" using inv by (simp add: open_inv_def)
  have new: "\<not> n < uploadNext c" "map_of (c_pending c) n = None"
    using pi log unfolding pending_inv_def by (metis word_less_nat_alt)+
  then have le: "unat (uploadNext c) \<le> unat n" by (simp add: not_less word_le_nat_alt)
  have far: "n - uploadNext c \<ge> of_nat UploadSlots \<longleftrightarrow> unat (uploadNext c) + UploadSlots \<le> unat n"
    using le by (auto simp: word_le_nat_alt unat_sub)
  note f = far [unfolded UploadSlots_def, simplified]
  show "n = - 1 \<or> unat (uploadNext c) + UploadSlots \<le> unat n \<Longrightarrow> Put sha c n body = (c, uploadNext c, Fail ErrSequence)"
    using new far assms(2,4,5) by (auto simp: Put_def Let_def simp del: UploadSlots_def)
  show "n \<noteq> - 1 \<Longrightarrow> unat n < unat (uploadNext c) + UploadSlots \<Longrightarrow> int (length body) > int UploadLimit - inputBytes c
      \<Longrightarrow> Put sha c n body = (c, uploadNext c, Fail ErrFull)"
    using new far assms(2,4,5) by (auto simp: Put_def Let_def simp del: UploadSlots_def UploadLimit_def)
  show "n \<noteq> - 1 \<Longrightarrow> unat n < unat (uploadNext c) + UploadSlots \<Longrightarrow> int (length body) \<le> int UploadLimit - inputBytes c
      \<Longrightarrow> put_accepts c n body"
    using new far assms(2,4,5) by (auto simp: put_accepts_def simp del: UploadSlots_def UploadLimit_def)
qed

text \<open>An accepted upload is logged, and the next expected number is then the least one that is missing.\<close>

lemma Put_new:
  assumes "conn_reachable sha c h" and acc: "put_accepts c n body"
  shows "\<exists>c'. Put sha c n body = (c', uploadNext c', Ok ())
    \<and> conn_reachable sha c' (h\<lparr>h_log := (h_log h)(unat n \<mapsto> body)\<rparr>)
    \<and> (\<forall>i < unat (uploadNext c'). ((h_log h)(unat n \<mapsto> body)) i \<noteq> None)
    \<and> ((h_log h)(unat n \<mapsto> body)) (unat (uploadNext c')) = None"
proof -
  let ?h = "h\<lparr>h_log := (h_log h)(unat n \<mapsto> body)\<rparr>" and ?c = "fst (Put sha c n body)"
  have log: "log_put c n body h = ?h" using acc by (simp add: log_put_def)
  have inv: "conn_inv sha c h" by (rule conn_reachable_inv [OF assms(1)])
  have res: "Put sha c n body = (?c, uploadNext ?c, Ok ())"
    using Put_accepts [OF acc, of sha] Put_spec [OF inv, of n body] acc
    by (auto simp: split: prod.splits outcome.splits)
  have reach: "conn_reachable sha ?c ?h" using conn_reachable_step [OF assms(1) do_put [of sha c h n body]] log by simp
  have "\<not> c_closed ?c"
  proof -
    have "open_inv sha c h" using inv acc by (simp add: conn_inv_def put_accepts_def)
    from put_drain_spec [OF open_inv_put_stored [OF this acc]]
    show ?thesis using Put_accepts [OF acc, of sha] acc by (auto simp: put_stored_def put_accepts_def)
  qed
  then have oi: "open_inv sha ?c ?h" "drained ?c" using conn_reachable_inv [OF reach] by (auto simp: conn_inv_def)
  have L: "h_log ?h i \<noteq> None \<longleftrightarrow> i < unat (uploadNext ?c) \<or> (\<exists>k. unat k = i \<and> map_of (c_pending ?c) k \<noteq> None)" for i
    using oi(1) unfolding open_inv_def pending_inv_def by blast
  have "h_log ?h (unat (uploadNext ?c)) = None"
    using L [of "unat (uploadNext ?c)"] oi(2) by (auto simp: drained_def word_unat_eq_iff [symmetric])
  then show ?thesis using res reach L by (intro exI [of _ ?c]) auto
qed

text \<open>
  C17. Uploads, on every branch, in terms of what was accepted so far. An empty body or one that is too long is
  refused. On an open connection, repeating an upload number that was accepted before
  changes nothing, and the answer depends only on its age and its digest: success for the same
  digest, \<open>ErrConflict\<close> for another one, and \<open>ErrGone\<close> once the number is more than
  \<open>ReceiptCount\<close> behind. A number that was not accepted before is refused with \<open>ErrSequence\<close> if it is the last
  one or \<open>UploadSlots\<close> or more ahead, and with \<open>ErrFull\<close> if its body does not fit; otherwise it is accepted, and
  the answer is the least number that is still missing. On a closed connection the answer is the error it was closed with.
\<close>

theorem Put_retry:
  assumes "conn_reachable sha c h"
  shows "if body = [] \<or> length body > MaxBlock then Put sha c n body = (c, 0, Fail ErrSequence)
    else if c_closed c then Put sha c n body = (c, uploadNext c, Fail (closeError c))
    else case h_log h (unat n) of
      Some b \<Rightarrow> Put sha c n body = (c, uploadNext c,
        if unat n + ReceiptCount < unat (uploadNext c) then Fail ErrGone
        else if sha body = sha b then Ok () else Fail ErrConflict)
    | None \<Rightarrow>
        if n = - 1 \<or> unat (uploadNext c) + UploadSlots \<le> unat n then Put sha c n body = (c, uploadNext c, Fail ErrSequence)
        else if int (length body) > int UploadLimit - fst (Usage c) then Put sha c n body = (c, uploadNext c, Fail ErrFull)
        else \<exists>c'. Put sha c n body = (c', uploadNext c', Ok ())
          \<and> conn_reachable sha c' (h\<lparr>h_log := (h_log h)(unat n \<mapsto> body)\<rparr>)
          \<and> (\<forall>i < unat (uploadNext c'). ((h_log h)(unat n \<mapsto> body)) i \<noteq> None)
          \<and> ((h_log h)(unat n \<mapsto> body)) (unat (uploadNext c')) = None"
proof (cases "body = [] \<or> length body > MaxBlock \<or> c_closed c")
  case True
  then show ?thesis by (auto simp: Put_def Let_def)
next
  case False
  then have nb: "0 < length body" "length body \<le> MaxBlock" and op: "\<not> c_closed c" by auto
  have inv: "open_inv sha c h" using conn_reachable_inv [OF assms] op by (simp add: conn_inv_def)
  show ?thesis
  proof (cases "h_log h (unat n)")
    case None
    note un = Put_unlogged [OF inv op None nb]
    from un Put_new [OF assms] False None show ?thesis
      by (simp add: Usage_def not_le not_less del: UploadSlots_def UploadLimit_def MaxBlock_def fun_upd_apply)
  next
    case (Some b)
    from Put_logged [OF inv op this nb] show ?thesis using False Some by (simp del: MaxBlock_def)
  qed
qed

theorem Put_retry_witness:
  "Put demo_sha demo_c5 1 [5, 9] = (demo_c5, uploadNext demo_c5, Fail ErrConflict)
   \<and> Put demo_sha demo_c5 99 [5, 9] = (demo_c5, uploadNext demo_c5, Fail ErrSequence)"
proof -
  have d: "\<not> c_closed demo_c5" "h_log demo_h4 (unat 1) = Some [5, 6]" "h_log demo_h4 (unat (99 :: u64)) = None" "uploadNext demo_c5 = 2"
    by (simp_all add: demo_conn)
  then show ?thesis
    using Put_retry [OF demo_conn_reachable, of "[5, 9]" 1] Put_retry [OF demo_conn_reachable, of "[5, 9]" 99]
    by (simp add: demo_sha_def)
qed


text \<open>The reader takes the last byte and waits.\<close>

definition demo_c6 :: Conn where "demo_c6 = fst (Read (fst (Read demo_c5 0 9)) 0 9)"
definition demo_h6 :: history where
  "demo_h6 = log_read (snd (Read (fst (Read demo_c5 0 9)) 0 9)) (log_read (snd (Read demo_c5 0 9)) demo_h4)"

lemma demo_waiting: "conn_reachable demo_sha demo_c6 demo_h6"
  unfolding demo_c6_def demo_h6_def
  by (rule conn_reachable_step [OF conn_reachable_step [OF demo_conn_reachable do_read] do_read])


text \<open>
  C19. Memory bounds. Whatever the remote side sends, an open connection holds at most
  \<open>UploadLimit\<close> bytes of input and \<open>ReplayLimit\<close> bytes in at most \<open>ReplaySlots\<close> blocks of
  output, its counters are exact, uploads wait only within the \<open>UploadSlots\<close> window and
  at most \<open>ReceiptCount\<close> receipts are kept.
\<close>

theorem packet_conn_bounds:
  assumes "conn_reachable sha c h" and "\<not> c_closed c"
  shows "Usage c = (int (length (concat (c_input c)) + pending_bytes c) - int (inputOffset c),
      int (length (concat (map BlockBody (c_output c)))))
    \<and> fst (Usage c) \<le> int UploadLimit \<and> snd (Usage c) \<le> int ReplayLimit
    \<and> length (c_output c) \<le> ReplaySlots
    \<and> (\<forall>k. map_of (c_pending c) k \<noteq> None \<longrightarrow> unat (uploadNext c) < unat k \<and> unat k < unat (uploadNext c) + UploadSlots)
    \<and> (\<forall>k. map_of (receipts c) k \<noteq> None \<longleftrightarrow> unat k < unat (uploadNext c) \<and> unat (uploadNext c) \<le> unat k + ReceiptCount)"
proof -
  have inv: "open_inv sha c h" "drained c"
    using conn_reachable_inv [OF assms(1)] assms(2) by (auto simp: conn_inv_def)
  have "unat (uploadNext c) < unat k \<and> unat k < unat (uploadNext c) + UploadSlots"
    if "map_of (c_pending c) k \<noteq> None" for k
  proof -
    have "k \<noteq> uploadNext c" using that inv(2) by (auto simp: drained_def)
    moreover have "unat (uploadNext c) \<le> unat k \<and> unat k < unat (uploadNext c) + UploadSlots"
      using inv(1) that unfolding open_inv_def pending_inv_def by blast
    ultimately show ?thesis by (simp add: word_unat_eq_iff)
  qed
  moreover have "map_of (receipts c) k \<noteq> None \<longleftrightarrow> unat k < unat (uploadNext c) \<and> unat (uploadNext c) \<le> unat k + ReceiptCount" for k
    using inv(1) unfolding open_inv_def receipts_inv_def by simp
  moreover have b: "inputBytes c + int (inputOffset c) = int (length (concat (c_input c)) + pending_bytes c)"
    "inputBytes c \<le> int UploadLimit" "outputBytes c = int (length (concat (map BlockBody (c_output c))))"
    "outputBytes c \<le> int ReplayLimit" "length (c_output c) \<le> ReplaySlots"
    using inv(1) unfolding open_inv_def bytes_inv_def output_inv_def by blast+
  then have "inputBytes c = int (length (concat (c_input c)) + pending_bytes c) - int (inputOffset c)" by linarith
  ultimately show ?thesis using b unfolding Usage_def by (auto simp del: UploadLimit_def ReplayLimit_def)
qed

theorem packet_conn_bounds_witness: "Usage demo_c5 = (1, 3) \<and> snd (Usage demo_c5) \<le> int ReplayLimit"
proof -
  have "\<not> c_closed demo_c5" "Usage demo_c5 = (1, 3)" by (simp_all add: demo_conn Usage_def)
  then show ?thesis using packet_conn_bounds [OF demo_conn_reachable] by simp
qed

text \<open>
  C20. No lost wake-up. A step that leaves the channel \<open>changed\<close> in place cannot end the wait of
  any caller: if \<open>Next\<close>, \<open>Flight\<close>, \<open>Read\<close> or \<open>Write\<close> waits, it still waits after the step. So
  every change that lets a waiter go on also signals it.
\<close>

theorem packet_no_lost_wakeup:
  assumes "conn_reachable sha c h" and "conn_step sha (c, h) (d, g)" and "c_changed d = c_changed c"
  shows "(Next c gen n = Ok None \<longrightarrow> Next d gen n = Ok None)
    \<and> (Flight c n = Ok None \<longrightarrow> Flight d n = Ok None)
    \<and> (snd (Read c now m) = Ok None \<longrightarrow> snd (Read d now m) = Ok None)
    \<and> (writeLocked c now p k w = (c, w, p, Ok False) \<longrightarrow> writeLocked d now p k w = (d, w, p, Ok False))"
proof -
  have same: "watch d = watch c" and rw: "readWaiting d \<longrightarrow> readWaiting c"
    using step_wakes [OF conn_reachable_inv [OF assms(1)] assms(2)] assms(3) by auto
  have "Flight d n = Ok None" if "Flight c n = Ok None"
    using that same rw by (auto simp: Flight_def Let_def watch_def split: if_splits)
  then show ?thesis using watch_passes [OF same] by auto
qed

theorem packet_no_lost_wakeup_witness:
  "c_changed (Cork demo_c5) = c_changed demo_c5 \<and> Next demo_c5 1 1 = Ok None \<and> Next (Cork demo_c5) 1 1 = Ok None"
proof -
  have same: "c_changed (Cork demo_c5) = c_changed demo_c5" by (simp add: Cork_def)
  have "Next demo_c5 1 1 = Ok None" by (simp add: demo_conn Next_def)
  then show ?thesis
    using packet_no_lost_wakeup [OF demo_conn_reachable do_cork same] same by blast
qed

section \<open>Writes end\<close>

text \<open>There is room for the next block of \<open>p\<close>.\<close>

definition write_room :: "Conn \<Rightarrow> bytes \<Rightarrow> nat \<Rightarrow> bool" where
  "write_room c p k \<longleftrightarrow> int (min (length p) k) \<le> int ReplayLimit - snd (Usage c) \<and> length (c_output c) < ReplaySlots"

lemma writeLocked_result:
  "writeLocked c now p k w = (c', w', rest, r) \<Longrightarrow>
     r = (if rest = [] then Ok True else if c_closed c' then Fail (closeError c')
          else if deadlinePassed (writeDeadline c') now then Fail ErrDeadlineExceeded
          else if \<not> write_room c' rest k then Ok False else Fail ErrSequence)
     \<and> (r = Fail ErrSequence \<and> \<not> c_closed c' \<longrightarrow> outputNext c' = - 1) \<and> length rest \<le> length p"
proof (induction c now p k w rule: writeLocked.induct)
  case (1 c now p k w)
  show ?case
  proof (cases "length p > 0 \<and> \<not> c_closed c \<and> \<not> deadlinePassed (writeDeadline c) now
      \<and> \<not> (int (min (length p) k) > int ReplayLimit - outputBytes c \<or> length (c_output c) \<ge> ReplaySlots)
      \<and> outputNext c \<noteq> - 1")
    case False
    then show ?thesis
      using "1.prems" by (subst (asm) writeLocked.simps) (auto simp: Let_def write_room_def Usage_def split: if_splits)
  next
    case True
    then have "writeLocked (signal (c\<lparr>c_output := c_output c @ [\<lparr>BlockSequence = outputNext c, BlockBody = take (min (length p) k) p\<rparr>],
        outputNext := outputNext c + 1, outputBytes := outputBytes c + int (min (length p) k)\<rparr>)) now
        (drop (min (length p) k) p) k (w + min (length p) k) = (c', w', rest, r)"
      using "1.prems" by (subst (asm) writeLocked.simps) (simp add: Let_def)
    from "1.IH" [OF _ _ _ refl _ _ this] True have ih: "r = (if rest = [] then Ok True else if c_closed c' then Fail (closeError c')
          else if deadlinePassed (writeDeadline c') now then Fail ErrDeadlineExceeded
          else if \<not> write_room c' rest k then Ok False else Fail ErrSequence)"
      "r = Fail ErrSequence \<and> \<not> c_closed c' \<longrightarrow> outputNext c' = - 1" "length rest \<le> length (drop (min (length p) k) p)"
      by blast+
    then have "length rest \<le> length p" by (simp only: length_drop)
    with ih show ?thesis by blast
  qed
qed

text \<open>A wake-up that finds the connection open, the deadline not passed and room for a block of any size up to \<open>k\<close>.\<close>

definition can_write :: "nat \<Rightarrow> Conn \<times> int \<Rightarrow> bool" where
  "can_write k x \<longleftrightarrow> \<not> c_closed (fst x) \<and> \<not> deadlinePassed (writeDeadline (fst x)) (snd x) \<and> outputNext (fst x) \<noteq> - 1
     \<and> int k \<le> int ReplayLimit - snd (Usage (fst x)) \<and> length (c_output (fst x)) < ReplaySlots"

text \<open>What is left to write after a sequence of wake-ups, each with the state of the connection it finds.\<close>

fun write_wakes :: "(Conn \<times> int) list \<Rightarrow> bytes \<Rightarrow> nat \<Rightarrow> bytes" where
  "write_wakes [] p k = p"
| "write_wakes ((c, now) # wakes) p k = write_wakes wakes (fst (snd (snd (writeLocked c now p k 0)))) k"

lemma writeLocked_progress:
  assumes "can_write k (c, now)" and "0 < k" and "p \<noteq> []"
  shows "length (fst (snd (snd (writeLocked c now p k w)))) < length p"
proof -
  let ?c = "signal (c\<lparr>c_output := c_output c @ [\<lparr>BlockSequence = outputNext c, BlockBody = take (min (length p) k) p\<rparr>],
        outputNext := outputNext c + 1, outputBytes := outputBytes c + int (min (length p) k)\<rparr>)"
  obtain c' w' rest r where w: "writeLocked ?c now (drop (min (length p) k) p) k (w + min (length p) k) = (c', w', rest, r)"
    by (metis prod_cases4)
  then have "writeLocked c now p k w = (c', w', rest, r)"
    using assms by (subst writeLocked.simps) (auto simp: can_write_def Usage_def Let_def simp del: ReplayLimit_def ReplaySlots_def)
  moreover have "length rest \<le> length p - min (length p) k" using writeLocked_result [OF w] by (simp only: length_drop)
  ultimately show ?thesis using assms(2,3) by (cases "length p \<le> k") auto
qed

lemma write_wakes_end: "list_all (can_write k) wakes \<Longrightarrow> 0 < k \<Longrightarrow> length p \<le> length wakes \<Longrightarrow> write_wakes wakes p k = []"
proof (induction wakes p k rule: write_wakes.induct)
  case (2 c now wakes p k)
  show ?case
  proof (cases "p = []")
    case True
    then show ?thesis using 2 by (simp add: writeLocked.simps)
  next
    case False
    then show ?thesis using 2 writeLocked_progress [of k c now p 0] by simp
  qed
qed simp



lemma uncork_size_bounds:
  assumes "0 < len"
  shows "0 < uncork_size len \<and> uncork_size len \<le> MaxBlock \<and> len \<le> uncork_size len * ((len + MaxBlock - 1) div MaxBlock)"
proof -
  define n where "n = (len + MaxBlock - 1) div MaxBlock"
  have n: "0 < n" "len \<le> n * MaxBlock"
    using assms by (simp_all add: n_def div_greater_zero_iff)
  have s: "uncork_size len = (len + n - 1) div n" by (simp add: uncork_size_def n_def Let_def)
  have "len + n - 1 < (MaxBlock + 1) * n" using n by (simp add: algebra_simps)
  then have le: "(len + n - 1) div n \<le> MaxBlock"
    using n(1) by (metis Suc_eq_plus1 div_less_iff_less_mult less_Suc_eq_le)
  have "len + n - 1 < ((len + n - 1) div n) * n + n"
    using n(1) by (metis add.commute dividend_less_times_div mult.commute)
  then have "len \<le> (len + n - 1) div n * n" using n(1) by simp
  moreover have "0 < (len + n - 1) div n" using assms n(1) by (simp add: div_greater_zero_iff)
  ultimately show ?thesis using le unfolding n_def [symmetric] s by blast
qed

text \<open>
  \<open>Uncork\<close> sends the collected bytes, in order, in blocks of one size that is within
  \<open>MaxBlock\<close> and so large that no more blocks are needed than full blocks would be, and it
  leaves the cork empty.
\<close>

lemma Uncork_even_blocks:
  assumes "conn_reachable sha c h" and "cork c \<noteq> []" and "Uncork c now = (c', rest, r)"
  shows "uncork_size (length (cork c)) \<le> MaxBlock
    \<and> length (cork c) \<le> uncork_size (length (cork c)) * ((length (cork c) + MaxBlock - 1) div MaxBlock)
    \<and> (\<exists>ks. c_output c' = c_output c @ ks \<and> concat (map BlockBody ks) @ rest = cork c
        \<and> list_all (\<lambda>b. length (BlockBody b) \<le> uncork_size (length (cork c))) ks)
    \<and> cork c' = []"
proof -
  let ?c = "c\<lparr>cork := [], corked := False\<rparr>" and ?k = "uncork_size (length (cork c))"
  obtain w where w: "writeLocked ?c now (cork c) ?k 0 = (c', w, rest, r)"
    using assms(2,3) by (auto simp: Uncork_def Let_def split: prod.splits)
  have "conn_inv sha ?c h" using conn_reachable_inv [OF assms(1)] by simp
  from writeLocked_spec [OF this w] obtain bs ks where "concat bs @ rest = cork c"
    "list_all (\<lambda>b. length b \<le> ?k) bs" "c_output c' = c_output ?c @ ks" "map BlockBody ks = bs" "cork c' = cork ?c"
    by blast
  then have "(\<exists>ks. c_output c' = c_output c @ ks \<and> concat (map BlockBody ks) @ rest = cork c
        \<and> list_all (\<lambda>b. length (BlockBody b) \<le> ?k) ks) \<and> cork c' = []"
    by (auto simp: list_all_iff)
  then show ?thesis using uncork_size_bounds [of "length (cork c)"] assms(2) by simp
qed

end
