(* ===== verification/Packet_Auth.thy ===== *)
theory Packet_Auth
  imports Prelude
begin

text \<open>
  Authentication of packet requests, \<^verbatim>\<open>internal/packet/auth.go\<close>. \<open>sha\<close> stands for
  \<^verbatim>\<open>sha256.Sum256\<close> and \<open>hmac\<close> for HMAC-SHA256 of a key and the concatenation of everything
  written to it.
\<close>

definition ExporterLabel :: string where "ExporterLabel = ''EXPORTER-NaiveFox-packet''"
definition ExporterContext :: string where "ExporterContext = ''naivefox/https''"

text \<open>\<open>Secret\<close> asks the TLS connection, a parameter, for 32 bytes of keying material.\<close>

definition Secret :: "(string \<Rightarrow> bytes \<Rightarrow> nat \<Rightarrow> (string, bytes) outcome) \<Rightarrow> (string, bytes) outcome" where
  "Secret export = export ExporterLabel (to_bytes ExporterContext) 32"

definition mac_field :: "bytes \<Rightarrow> bytes" where
  "mac_field field = put_u32 (of_nat (length field)) @ field"

definition mac_message ::
  "(bytes \<Rightarrow> bytes) \<Rightarrow> string \<Rightarrow> string \<Rightarrow> u64 \<Rightarrow> u64 \<Rightarrow> bytes \<Rightarrow> bytes" where
  "mac_message sha operation session sequence cursor body =
     concat (map mac_field [to_bytes ''naivefox-packet'', to_bytes operation, to_bytes session])
     @ put_u64 sequence @ put_u64 cursor @ sha body"

definition MAC ::
  "(bytes \<Rightarrow> bytes \<Rightarrow> bytes) \<Rightarrow> (bytes \<Rightarrow> bytes) \<Rightarrow> bytes \<Rightarrow> string \<Rightarrow> string \<Rightarrow> u64 \<Rightarrow> u64 \<Rightarrow> bytes \<Rightarrow> bytes" where
  "MAC hmac sha secret operation session sequence cursor body =
     hmac secret (mac_message sha operation session sequence cursor body)"

text \<open>\<^verbatim>\<open>hmac.Equal\<close> compares two byte strings.\<close>

definition Verify ::
  "(bytes \<Rightarrow> bytes \<Rightarrow> bytes) \<Rightarrow> (bytes \<Rightarrow> bytes) \<Rightarrow> bytes \<Rightarrow> string \<Rightarrow> string \<Rightarrow> u64 \<Rightarrow> u64 \<Rightarrow> bytes \<Rightarrow> bytes \<Rightarrow> bool" where
  "Verify hmac sha secret operation session sequence cursor body tag \<longleftrightarrow>
     length secret = 32 \<and> length tag = 32
     \<and> tag = MAC hmac sha secret operation session sequence cursor body"

section \<open>The message determines every field\<close>

lemma mac_field_append:
  assumes "length f < 2 ^ 32" and "length g < 2 ^ 32"
  shows "mac_field f @ r = mac_field g @ s \<longleftrightarrow> f = g \<and> r = s"
proof
  assume eq: "mac_field f @ r = mac_field g @ s"
  then have "put_u32 (of_nat (length f)) = put_u32 (of_nat (length g))" and tl: "f @ r = g @ s"
    by (auto simp: mac_field_def append_eq_append_conv)
  then have "(of_nat (length f) :: u32) = of_nat (length g)" by simp
  then have "length f = length g"
    using assms of_nat_word_inject [where 'a = 32, of "length f" "length g"] by simp
  then show "f = g \<and> r = s" using tl by simp
qed simp

lemma inj_to_bytes: "to_bytes s = to_bytes t \<longleftrightarrow> s = t"
proof -
  have "inj (of_char :: char \<Rightarrow> u8)"
  proof (rule injI)
    fix a b :: char assume "(of_char a :: u8) = of_char b"
    then have "(of_nat (of_char a) :: u8) = of_nat (of_char b)" by (simp only: of_nat_of_char)
    moreover have "of_char a < (256 :: nat)" "of_char b < (256 :: nat)"
      using nat_of_char_less_256 by blast+
    ultimately have "(of_char a :: nat) = of_char b"
      using of_nat_word_inject [where 'a = 8, of "of_char a" "of_char b"] by simp
    then show "a = b" by simp
  qed
  then show ?thesis by (simp add: to_bytes_def inj_map_eq_map)
qed

lemma mac_message_inject:
  assumes "length op1 < 2 ^ 32" and "length op2 < 2 ^ 32" and "length s1 < 2 ^ 32" and "length s2 < 2 ^ 32"
    and "mac_message sha op1 s1 q1 c1 b1 = mac_message sha op2 s2 q2 c2 b2"
  shows "op1 = op2 \<and> s1 = s2 \<and> q1 = q2 \<and> c1 = c2 \<and> sha b1 = sha b2"
proof -
  have f: "mac_field (to_bytes x) @ r = mac_field (to_bytes y) @ s \<longleftrightarrow> x = y \<and> r = s"
    if "length x < 2 ^ 32" "length y < 2 ^ 32" for x y r s
    using mac_field_append [of "to_bytes x" "to_bytes y"] that by (simp add: inj_to_bytes)
  have "put_u64 q1 @ put_u64 c1 @ sha b1 = put_u64 q2 @ put_u64 c2 @ sha b2" "op1 = op2" "s1 = s2"
    using assms f by (auto simp: mac_message_def)
  then show ?thesis by (auto simp: append_eq_append_conv)
qed

section \<open>Properties\<close>

text \<open>
  C23. A tag binds its request. If one tag verifies for two requests under one secret, and
  neither the HMAC of the two messages nor the digest of the two bodies collide, then the
  requests agree in operation, session, both counters and body: a tag of one operation,
  session or position is never accepted for another.
\<close>

theorem Verify_binds:
  assumes "Verify hmac sha secret op1 s1 q1 c1 b1 tag" and "Verify hmac sha secret op2 s2 q2 c2 b2 tag"
    and "length op1 < 2 ^ 32" and "length op2 < 2 ^ 32" and "length s1 < 2 ^ 32" and "length s2 < 2 ^ 32"
    and "hmac secret (mac_message sha op1 s1 q1 c1 b1) = hmac secret (mac_message sha op2 s2 q2 c2 b2) \<longrightarrow>
      mac_message sha op1 s1 q1 c1 b1 = mac_message sha op2 s2 q2 c2 b2"
    and "sha b1 = sha b2 \<longrightarrow> b1 = b2"
  shows "op1 = op2 \<and> s1 = s2 \<and> q1 = q2 \<and> c1 = c2 \<and> b1 = b2"
  using assms mac_message_inject [OF assms(3-6), of sha q1 c1 b1 q2 c2 b2]
  by (auto simp: Verify_def MAC_def)

text \<open>A concrete digest and code, for the witness: the first 32 bytes, padded.\<close>

definition pad32 :: "bytes \<Rightarrow> bytes" where
  "pad32 b = take 32 (b @ replicate 32 0)"

theorem Verify_binds_witness:
  "Verify (\<lambda>k m. pad32 (drop 45 m)) pad32 (replicate 32 1) ''upload'' ''s'' 3 4 [9]
     (pad32 (drop 45 (mac_message pad32 ''upload'' ''s'' 3 4 [9])))
   \<and> \<not> Verify (\<lambda>k m. pad32 (drop 19 m)) pad32 (replicate 32 1) ''down'' ''s'' 3 4 [9]
     (pad32 (drop 19 (mac_message pad32 ''upload'' ''s'' 3 4 [9])))"
proof -
  let ?hmac = "\<lambda>k m. pad32 (drop 19 m)" and ?tag = "pad32 (drop 19 (mac_message pad32 ''upload'' ''s'' 3 4 [9]))"
  let ?k = "replicate 32 1 :: bytes"
  have len: "length (pad32 b) = 32" for b by (simp add: pad32_def)
  have up: "Verify ?hmac pad32 ?k ''upload'' ''s'' 3 4 [9] ?tag" by (simp add: Verify_def MAC_def len)
  have ne: "pad32 (drop 19 (mac_message pad32 ''upload'' ''s'' 3 4 [9])) \<noteq> pad32 (drop 19 (mac_message pad32 ''down'' ''s'' 3 4 [9]))"
    by code_simp
  have "\<not> Verify ?hmac pad32 ?k ''down'' ''s'' 3 4 [9] ?tag"
    using Verify_binds [OF up, of "''down''" "''s''" 3 4 "[9]"] ne by auto
  then show ?thesis by (simp add: Verify_def MAC_def len)
qed

end
