(* ===== verification/Session.thy ===== *)
theory Session
  imports Mux_Properties Go_Std
begin

text \<open>
  A carrier session: the state of \<^verbatim>\<open>session\<close> and \<^verbatim>\<open>counters\<close> in \<^verbatim>\<open>transport.go\<close>, the capacities of
  download cells, one received carrier cell (\<^verbatim>\<open>receiveRealtime\<close>) and one turn of the loop
  that sends cells (\<^verbatim>\<open>writeCells\<close>) of \<^verbatim>\<open>realtime.go\<close>. A Go map that may be nil is an option
  of a function; writing to a nil map panics. Time is an integer.
\<close>

section \<open>State\<close>

type_synonym tally = "string \<Rightarrow> u64"

definition bump :: "string \<Rightarrow> tally \<Rightarrow> tally" where
  "bump key m = m(key := m key + 1)"

record counters =
  PacketPeaks :: "u64 list"
  PacketOpened :: u64
  PacketUploads :: u64
  PacketDownloads :: u64
  StartupReplays :: u64
  H3Opened :: u64
  H3Closed :: u64
  H3Uploads :: u64
  H3Downloads :: u64
  WSOpened :: u64
  WSClosed :: u64
  WSMessagesIn :: u64
  WSMessagesOut :: u64
  WSCellCapacities :: "tally option"
  WSSubprotocols :: "tally option"
  WSUploadBytes :: u64
  WSDownloadBytes :: u64
  WSUploadFiller :: u64
  WSDownloadFiller :: u64
  WSUploadUseful :: u64
  WSDownloadUseful :: u64
  WSStartupMinUp :: u32
  WSStartupMinDown :: u32
  StartupCompleted :: u64
  IdleHeartbeats :: u64
  CellCapacities :: tally
  WriteErrors :: u64
  Peers :: "Stats list"
  Requests :: tally
  Protocols :: tally
  UploadBytes :: u64
  DownloadBytes :: u64
  UploadFiller :: u64
  DownloadFiller :: u64
  UploadUseful :: u64
  DownloadUseful :: u64
  Opens :: u64
  Rejected :: u64

text \<open>
  The journal of startup results holds addresses of results; the results themselves are in
  the startup component, since writers share them. A pending upload of the HTTP/3 carrier names the
  request it came from, whose context may end at any time. The table of pending uploads is nil
  until the HTTP/3 carrier opens.
\<close>

record pendingUpload =
  p_ctx :: nat
  p_body :: bytes

record session =
  ip :: string
  last_used :: int
  authed :: bool
  up :: u32
  down :: u32
  s_peer :: peer
  wake :: bool
  startupSteps :: nat
  startupInvalid :: bool
  startupDeadline :: "int option"
  startupJournal :: "nat option list"
  startupBytes :: int
  h3Active :: nat
  h3 :: bool
  packet :: bool
  pendingUploads :: "(u32 \<times> pendingUpload) list option"
  realtime :: bool
  realtimeConn :: bool
  ackPending :: bool
  ackSequence :: u32
  wsStartupUp :: u32
  wsStartupDown :: u32

text \<open>The payload bytes and OPEN frames that the handlers count.\<close>

definition useful_bytes :: "frame list \<Rightarrow> u64" where
  "useful_bytes fs = sum_list (map (\<lambda>f. of_nat (length (Body f))) (filter (\<lambda>f. Kind f = DataK) fs))"

definition count_opens :: "frame list \<Rightarrow> u64" where
  "count_opens fs = of_nat (length (filter (\<lambda>f. Kind f = OpenK) fs))"

section \<open>Download capacities\<close>

definition realtimeCreditFloor :: int where
  "realtimeCreditFloor = 8192 - int Header - int FrameHeader"

definition realtimeFramedBytes :: "Pressure \<Rightarrow> int" where
  "realtimeFramedBytes p = Bytes p + FrameOverhead p + int Header + int FrameHeader"

definition realtimeReadyDownCapacity :: "Pressure \<Rightarrow> int" where
  "realtimeReadyDownCapacity p =
     (if Bytes p = 0 then 512
      else let size = realtimeFramedBytes p
        in if size \<ge> int MaxCell then int MaxCell
           else if size \<ge> 65536 then 65536
           else 8192)"

definition realtimeCoalescingDownCapacity :: "int \<Rightarrow> int" where
  "realtimeCoalescingDownCapacity bytes =
     (if bytes \<ge> 131072 then int MaxCell
      else if bytes \<ge> 32768 then 65536
      else if bytes > 0 then 8192
      else 512)"

definition maxDownCell :: "session \<Rightarrow> int" where
  "maxDownCell s = (if h3 s \<or> packet s then 65536 else int MaxCell)"

definition readyDownCapacity :: "session \<Rightarrow> Pressure \<Rightarrow> int" where
  "readyDownCapacity s p =
     (if h3 s \<and> realtimeFramedBytes p \<le> 512 then 512
      else min (realtimeReadyDownCapacity p) (maxDownCell s))"

section \<open>Receiving a cell\<close>

definition upload_capacity_ok :: "session \<Rightarrow> nat \<Rightarrow> bool" where
  "upload_capacity_ok s n \<longleftrightarrow> n = 512 \<or> n = 4096 \<or> n = 16384 \<or> n = 131072 \<or> (packet s \<and> n = 8192)"

definition control_frame :: "frame \<Rightarrow> bool" where
  "control_frame f \<longleftrightarrow> Kind f = AuthK \<or> Kind f = AckK \<or> Kind f = HelloK \<or> Stream f = 0"

text \<open>The counters after an accepted upload; only a WebSocket carrier counts capacities.\<close>

definition count_upload ::
  "counters \<Rightarrow> session \<Rightarrow> nat \<Rightarrow> nat \<Rightarrow> frame list \<Rightarrow> (string, counters) outcome" where
  "count_upload t s len filler frames =
     and_then
       (if packet s then Ok (t\<lparr>PacketUploads := PacketUploads t + 1\<rparr>)
        else if h3 s then Ok (t\<lparr>H3Uploads := H3Uploads t + 1\<rparr>)
        else case WSCellCapacities t of
          None \<Rightarrow> Panic
        | Some m \<Rightarrow> Ok (t\<lparr>WSMessagesIn := WSMessagesIn t + 1,
            WSCellCapacities := Some (bump (''in '' @ itoa len) m)\<rparr>))
       (\<lambda>t.
         let t = t\<lparr>UploadBytes := UploadBytes t + of_nat len,
               UploadFiller := UploadFiller t + of_nat filler,
               UploadUseful := UploadUseful t + useful_bytes frames\<rparr>;
             t = (if \<not> h3 s \<and> \<not> packet s
                  then t\<lparr>WSUploadBytes := WSUploadBytes t + of_nat len,
                    WSUploadFiller := WSUploadFiller t + of_nat filler,
                    WSUploadUseful := WSUploadUseful t + useful_bytes frames\<rparr>
                  else t)
         in Ok (t\<lparr>Opens := Opens t + count_opens frames\<rparr>))"

definition accept_cell :: "session \<Rightarrow> peer \<Rightarrow> int \<Rightarrow> u32 \<Rightarrow> frame list \<Rightarrow> session" where
  "accept_cell s p now sequence frames =
     (let s = s\<lparr>s_peer := p, up := up s + 1, last_used := now, wake := True\<rparr>
      in if length frames \<noteq> 0 then s\<lparr>ackPending := True, ackSequence := sequence\<rparr> else s)"

definition receiveRealtime ::
  "counters \<times> session \<Rightarrow> int \<Rightarrow> bytes \<Rightarrow> (counters \<times> session) \<times> (string, unit) outcome" where
  "receiveRealtime ts now body =
     (case ts of (t, s) \<Rightarrow>
      if \<not> upload_capacity_ok s (length body) then (ts, Fail ''realtime capacity'')
      else case Decode body of
        Fail e \<Rightarrow> (ts, Fail e)
      | Panic \<Rightarrow> (ts, Panic)
      | Ok (sequence, frames, filler) \<Rightarrow>
          if list_ex control_frame frames then (ts, Fail ''realtime control'')
          else if sequence \<noteq> up s \<or> up s = - 1 \<or> (\<not> authed s \<and> length frames \<noteq> 0)
          then (ts, Fail ''realtime sequence or authentication'')
          else case Receive (s_peer s) frames of
            (p, Fail e) \<Rightarrow> ((t, s\<lparr>s_peer := p\<rparr>), Fail e)
          | (p, Panic) \<Rightarrow> ((t, s\<lparr>s_peer := p\<rparr>), Panic)
          | (p, Ok _) \<Rightarrow>
              let s = accept_cell s p now sequence frames
              in case count_upload t s (length body) filler frames of
                   Ok t \<Rightarrow> ((t, s), Ok ())
                 | Fail e \<Rightarrow> ((t, s), Fail e)
                 | Panic \<Rightarrow> ((t, s), Panic))"

section \<open>Sending a cell\<close>

definition down_pressure :: "session \<Rightarrow> Pressure" where
  "down_pressure s = PressureWithCreditFloor (s_peer s) realtimeCreditFloor"

definition pressure_idle :: "session \<Rightarrow> bool" where
  "pressure_idle s \<longleftrightarrow> Bytes (down_pressure s) = 0 \<and> Controls (down_pressure s) = 0 \<and> \<not> ackPending s"

text \<open>Whether a turn of the loop waits to collect more bytes, and when that wait ends early.\<close>

definition coalesces :: "session \<Rightarrow> bool" where
  "coalesces s \<longleftrightarrow> (let p = down_pressure s in
     Bytes p > 0 \<and> readyDownCapacity s p \<noteq> 512
     \<and> realtimeFramedBytes p < min (realtimeCoalescingDownCapacity (Bytes p)) (maxDownCell s))"

definition coalesce_done :: "session \<Rightarrow> bool" where
  "coalesce_done s \<longleftrightarrow> (let p = down_pressure s in
     Bytes p = 0 \<or> realtimeReadyDownCapacity p \<ge> maxDownCell s)"

definition packet_batch_done :: "session \<Rightarrow> int \<Rightarrow> int \<Rightarrow> bool" where
  "packet_batch_done s now until \<longleftrightarrow> (let p = down_pressure s in
     OpenedP p > 0 \<or> \<not> now < until \<or> realtimeFramedBytes p \<ge> maxDownCell s)"

definition batch_closed :: "session \<Rightarrow> bool" where
  "batch_closed s \<longleftrightarrow> (let p = down_pressure s in
     Bytes p = 0 \<or> Queued p > Bytes p \<or> realtimeFramedBytes p < readyDownCapacity s p)"

text \<open>
  The locked section of a turn: it stops the carrier, starts the loop again, waits for a change
  when nothing could be taken, fails to encode, or yields a cell.
\<close>

datatype cell_turn = T_stop | T_again | T_wait | T_error string | T_panic | T_cell bytes "frame list" int

definition write_cell ::
  "(nat \<Rightarrow> bytes option) \<Rightarrow> session \<Rightarrow> int \<Rightarrow> bool \<Rightarrow> session \<times> cell_turn" where
  "write_cell rand s now idleHeartbeat =
     (let pressure = down_pressure s in
      if down s = - 1 then (s, T_stop)
      else if \<not> idleHeartbeat \<and> Bytes pressure = 0 \<and> Controls pressure = 0 \<and> \<not> ackPending s
      then (s, T_again)
      else
        let capacity = readyDownCapacity s pressure;
            frames = (if ackPending s
                      then [\<lparr>Kind = AckK, Stream = 0, Sequence = ackSequence s, Body = []\<rparr>] else []);
            budget = capacity - int Header - (if ackPending s then int FrameHeader else 0);
            s = s\<lparr>ackPending := False\<rparr>;
            (p, taken) = (if Bytes pressure = 0 then TakeControls (s_peer s) budget
                          else Take (s_peer s) budget);
            s = s\<lparr>s_peer := p\<rparr>;
            frames = frames @ taken
        in if length frames = 0 \<and> \<not> idleHeartbeat then (s, T_wait)
           else case Encode rand (down s) capacity frames of
             Ok body \<Rightarrow> (s\<lparr>down := down s + 1, last_used := now\<rparr>, T_cell body frames capacity)
           | Fail e \<Rightarrow> (s, T_error e)
           | Panic \<Rightarrow> (s, T_panic))"

text \<open>The counters after the cell was written.\<close>

definition count_download ::
  "counters \<Rightarrow> session \<Rightarrow> bool \<Rightarrow> bytes \<Rightarrow> frame list \<Rightarrow> int \<Rightarrow> (string, counters) outcome" where
  "count_download t s idleHeartbeat body frames capacity =
     (let used = Header + total_size frames;
          filler = of_int (int (length body) - int used) :: u64;
          t = (if idleHeartbeat \<and> length frames = 0 then t\<lparr>IdleHeartbeats := IdleHeartbeats t + 1\<rparr> else t)
      in and_then
       (if packet s then Ok (t\<lparr>PacketDownloads := PacketDownloads t + 1\<rparr>)
        else if h3 s then Ok (t\<lparr>H3Downloads := H3Downloads t + 1\<rparr>)
        else case WSCellCapacities t of
          None \<Rightarrow> Panic
        | Some m \<Rightarrow> Ok (t\<lparr>WSMessagesOut := WSMessagesOut t + 1,
            WSCellCapacities := Some (bump (''out '' @ itoa (nat capacity)) m)\<rparr>))
       (\<lambda>t.
         let t = t\<lparr>DownloadBytes := DownloadBytes t + of_nat (length body),
               DownloadFiller := DownloadFiller t + filler,
               DownloadUseful := DownloadUseful t + useful_bytes frames\<rparr>;
             t = (if \<not> h3 s \<and> \<not> packet s
                  then t\<lparr>WSDownloadBytes := WSDownloadBytes t + of_nat (length body),
                    WSDownloadFiller := WSDownloadFiller t + filler,
                    WSDownloadUseful := WSDownloadUseful t + useful_bytes frames\<rparr>
                  else t)
         in Ok (t\<lparr>CellCapacities := bump (itoa (nat capacity)) (CellCapacities t)\<rparr>)))"

end
