(* ===== verification/Net_Addr.thy ===== *)
theory Net_Addr
  imports Go_Std
begin

text \<open>
  What the destination policy uses of Go's \<^verbatim>\<open>net\<close> and \<^verbatim>\<open>netip\<close> packages: the textual forms of IPv4
  and IPv6 addresses without zones, CIDR networks and membership of an address in a network. An
  address is its 4 or 16 bytes.
\<close>

unbundle bit_operations_syntax

section \<open>Addresses\<close>

datatype addr = V4 bytes | V6 bytes

definition v4InV6Prefix :: bytes where
  "v4InV6Prefix = replicate 10 0 @ [0xFF, 0xFF]"

fun As16 :: "addr \<Rightarrow> bytes" where
  "As16 (V4 b) = v4InV6Prefix @ b"
| "As16 (V6 b) = b"

fun BitLen :: "addr \<Rightarrow> nat" where
  "BitLen (V4 _) = 32"
| "BitLen (V6 _) = 128"

definition To4 :: "bytes \<Rightarrow> bytes option" where
  "To4 ip =
     (if length ip = 4 then Some ip
      else if length ip = 16 \<and> take 12 ip = v4InV6Prefix then Some (drop 12 ip)
      else None)"

text \<open>Four decimal fields without leading zeros.\<close>

definition ipv4_field :: "string \<Rightarrow> u8 option" where
  "ipv4_field f =
     (if f \<noteq> [] \<and> list_all is_digit f \<and> (length f = 1 \<or> hd f \<noteq> CHR ''0'') \<and> digits_value f \<le> 255
      then Some (of_nat (digits_value f)) else None)"

definition parse_ipv4 :: "string \<Rightarrow> bytes option" where
  "parse_ipv4 s =
     (case map ipv4_field (split_on CHR ''.'' s) of
        [Some a, Some b, Some c, Some d] \<Rightarrow> Some [a, b, c, d]
      | _ \<Rightarrow> None)"

text \<open>
  The groups of an IPv6 address: at most \<open>n\<close> more fit, \<open>acc\<close> is what was read and
  \<open>ell\<close> the place of the ellipsis. The result is the bytes and the place of the ellipsis.
\<close>

definition hex_number :: "string \<Rightarrow> nat" where
  "hex_number ds = foldl (\<lambda>a c. a * 16 + the (hex_value c)) 0 ds"

fun ipv6_groups :: "nat \<Rightarrow> bytes \<Rightarrow> nat option \<Rightarrow> string \<Rightarrow> (bytes \<times> nat option) option" where
  "ipv6_groups 0 acc ell s = (if s = [] then Some (acc, ell) else None)"
| "ipv6_groups (Suc n) acc ell s =
     (let ds = takeWhile (\<lambda>c. hex_value c \<noteq> None) s;
          rest = dropWhile (\<lambda>c. hex_value c \<noteq> None) s
      in if ds = [] \<or> length ds > 4 then None
         else if rest \<noteq> [] \<and> hd rest = CHR ''.'' then
           (if (ell = None \<and> length acc \<noteq> 12) \<or> length acc + 4 > 16 then None
            else map_option (\<lambda>b. (acc @ b, ell)) (parse_ipv4 s))
         else
           let acc = acc @ be_put 2 (hex_number ds) in
           case rest of
             [] \<Rightarrow> Some (acc, ell)
           | [_] \<Rightarrow> None
           | c # d # cs \<Rightarrow>
               if c \<noteq> CHR '':'' then None
               else if d \<noteq> CHR '':'' then ipv6_groups n acc ell (d # cs)
               else if ell \<noteq> None then None
               else if cs = [] then Some (acc, Some (length acc))
               else ipv6_groups n acc (Some (length acc)) cs)"

definition expand_ellipsis :: "bytes \<Rightarrow> nat option \<Rightarrow> bytes option" where
  "expand_ellipsis acc ell =
     (case ell of
        None \<Rightarrow> if length acc < 16 then None else Some acc
      | Some e \<Rightarrow> if length acc < 16 then Some (take e acc @ replicate (16 - length acc) 0 @ drop e acc) else None)"

definition parse_ipv6 :: "string \<Rightarrow> bytes option" where
  "parse_ipv6 s =
     (if CHR ''%'' \<in> set s then None
      else if take 2 s = ''::'' then
        (if length s = 2 then Some (replicate 16 0)
         else Option.bind (ipv6_groups 8 [] (Some 0) (drop 2 s)) (\<lambda>(acc, ell). expand_ellipsis acc ell))
      else Option.bind (ipv6_groups 8 [] None s) (\<lambda>(acc, ell). expand_ellipsis acc ell))"

text \<open>\<^verbatim>\<open>netip.ParseAddr\<close>, restricted to addresses without a zone, which is all that is accepted here.\<close>

definition ParseAddr :: "string \<Rightarrow> addr option" where
  "ParseAddr s =
     (case dropWhile (\<lambda>c. c \<notin> set ''.:%'') s of
        [] \<Rightarrow> None
      | c # _ \<Rightarrow> if c = CHR ''.'' then map_option V4 (parse_ipv4 s)
                 else if c = CHR '':'' then map_option V6 (parse_ipv6 s)
                 else None)"

definition ParseIP :: "string \<Rightarrow> bytes option" where
  "ParseIP s = map_option As16 (ParseAddr s)"

section \<open>Networks\<close>

record IPNet =
  IP :: bytes
  Mask :: bytes

text \<open>\<open>ones\<close> bits of one, then zeros.\<close>

fun CIDRMask :: "nat \<Rightarrow> nat \<Rightarrow> bytes" where
  "CIDRMask ones 0 = []"
| "CIDRMask ones (Suc n) =
     (if ones \<ge> 8 then 0xFF # CIDRMask (ones - 8) n
      else (NOT (drop_bit ones 0xFF)) # CIDRMask 0 n)"

definition mask_bytes :: "bytes \<Rightarrow> bytes \<Rightarrow> bytes" where
  "mask_bytes ip m = map2 (AND) ip m"

definition ParseCIDR :: "string \<Rightarrow> IPNet option" where
  "ParseCIDR s =
     (case index_byte CHR ''/'' s of
        None \<Rightarrow> None
      | Some i \<Rightarrow>
          case ParseAddr (take i s) of
            None \<Rightarrow> None
          | Some a \<Rightarrow>
              let m = drop (i + 1) s in
              if m = [] \<or> \<not> list_all is_digit m \<or> digits_value m > BitLen a then None
              else let mask = CIDRMask (digits_value m) (BitLen a div 8) in
                Some \<lparr>IP = mask_bytes (case a of V4 b \<Rightarrow> b | V6 b \<Rightarrow> b) mask, Mask = mask\<rparr>)"

text \<open>\<^verbatim>\<open>networkNumberAndMask\<close> and \<^verbatim>\<open>IPNet.Contains\<close>.\<close>

definition network_number :: "IPNet \<Rightarrow> (bytes \<times> bytes) option" where
  "network_number n =
     (case To4 (IP n) of
        Some ip \<Rightarrow> if length (Mask n) = 4 then Some (ip, Mask n)
                   else if length (Mask n) = 16 then Some (ip, drop 12 (Mask n)) else None
      | None \<Rightarrow> if length (IP n) = 16 \<and> length (Mask n) = 16 then Some (IP n, Mask n) else None)"

definition Contains :: "IPNet \<Rightarrow> bytes \<Rightarrow> bool" where
  "Contains n ip =
     (case network_number n of
        None \<Rightarrow> False
      | Some (nn, m) \<Rightarrow>
          let ip = (case To4 ip of Some x \<Rightarrow> x | None \<Rightarrow> ip)
          in length ip = length nn \<and> mask_bytes nn m = mask_bytes ip m)"

end
