(* ===== verification/Policy.thy ===== *)
theory Policy
  imports Net_Addr
begin

text \<open>
  Where a stream may connect to: \<^verbatim>\<open>policy.go\<close> and \<^verbatim>\<open>dialTransportDestination\<close> of \<^verbatim>\<open>transport.go\<close>.
  The resolver, the dialer, the upstream proxy and the parser of the upstream URL are parameters. A
  dial also returns the addresses it tried, in order, so that theorems can speak about attempts.
\<close>

section \<open>Configuration\<close>

record Credential =
  Username :: string
  Password :: string

record ACLRule =
  Subjects :: "string list"
  Allow :: bool

record AccessConfig =
  Credentials :: "Credential list"
  ACL :: "ACLRule list"
  AllowedPorts :: "int list"
  DialTimeout :: int
  Upstream :: string

record destinationRule =
  allow :: bool
  network :: "IPNet option"
  domain :: string
  subdomains :: bool

record upstream_url =
  Scheme :: string
  Hostname :: string

record tcpPolicy =
  rules :: "destinationRule list"
  ports :: "int list"
  timeout :: int
  upstream :: "upstream_url option"

text \<open>Nanoseconds of a second.\<close>

definition Second :: int where "Second = 1000000000"

section \<open>Rules\<close>

definition domain_char :: "char \<Rightarrow> bool" where
  "domain_char c \<longleftrightarrow> (let n = of_char c :: nat in
     (97 \<le> n \<and> n \<le> 122) \<or> (65 \<le> n \<and> n \<le> 90) \<or> (48 \<le> n \<and> n \<le> 57) \<or> c = CHR ''-'' \<or> c = CHR ''_'')"

definition label_ok :: "string \<Rightarrow> bool" where
  "label_ok label \<longleftrightarrow> length label \<noteq> 0 \<and> \<not> length label > 63 \<and> list_all domain_char label"

definition compileDestinationRule :: "string \<Rightarrow> bool \<Rightarrow> destinationRule \<times> string option" where
  "compileDestinationRule subject al =
     (let rule = \<lparr>allow = al, network = None, domain = [], subdomains = False\<rparr> in
      if subject = ''all'' then (rule, None)
      else case ParseCIDR subject of
        Some net \<Rightarrow> (rule\<lparr>network := Some net\<rparr>, None)
      | None \<Rightarrow>
          case ParseIP subject of
            Some addr \<Rightarrow>
              (case To4 addr of
                 Some v4 \<Rightarrow> (rule\<lparr>network := Some \<lparr>IP = v4, Mask = CIDRMask 32 4\<rparr>\<rparr>, None)
               | None \<Rightarrow> (rule\<lparr>network := Some \<lparr>IP = addr, Mask = CIDRMask 128 16\<rparr>\<rparr>, None))
          | None \<Rightarrow>
              let rule = rule\<lparr>subdomains := has_prefix subject ''*.'',
                    domain := to_lower (trim_prefix subject ''*.'')\<rparr>
              in if list_all label_ok (split_on CHR ''.'' (domain rule)) then (rule, None)
                 else (rule, Some ''invalid NaiveFox ACL domain''))"

definition matches :: "destinationRule \<Rightarrow> string \<Rightarrow> bytes option \<Rightarrow> bool" where
  "matches r host addr =
     (case network r of
        Some net \<Rightarrow> (case addr of None \<Rightarrow> False | Some a \<Rightarrow> Contains net a)
      | None \<Rightarrow>
          if domain r = [] then True
          else let host = to_lower (trim_suffix (trim_prefix host ''.'') ''.'')
            in host = domain r \<or> (subdomains r \<and> has_suffix host (''.'' @ domain r)))"

fun add_ports :: "int list \<Rightarrow> int list \<Rightarrow> (string, int list) outcome" where
  "add_ports [] ps = Ok ps"
| "add_ports (port # rest) ps =
     (if port < 1 \<or> port > 65535 then Fail ''invalid allowed port''
      else add_ports rest (List.insert port ps))"

fun add_subjects ::
  "string list \<Rightarrow> bool \<Rightarrow> destinationRule list \<Rightarrow> (string, destinationRule list) outcome" where
  "add_subjects [] al rs = Ok rs"
| "add_subjects (subject # rest) al rs =
     (case compileDestinationRule subject al of
        (compiled, Some e) \<Rightarrow> Fail e
      | (compiled, None) \<Rightarrow> add_subjects rest al (rs @ [compiled]))"

fun add_rules :: "ACLRule list \<Rightarrow> destinationRule list \<Rightarrow> (string, destinationRule list) outcome" where
  "add_rules [] rs = Ok rs"
| "add_rules (rule # rest) rs =
     and_then (add_subjects (Subjects rule) (Allow rule) rs) (\<lambda>rs. add_rules rest rs)"

definition private_cidrs :: "string list" where
  "private_cidrs = [''10.0.0.0/8'', ''127.0.0.0/8'', ''172.16.0.0/12'', ''192.168.0.0/16'', ''::1/128'', ''fe80::/10'']"

definition default_rules :: "destinationRule list" where
  "default_rules = map (\<lambda>cidr. fst (compileDestinationRule cidr False)) private_cidrs
     @ [\<lparr>allow = True, network = None, domain = [], subdomains = False\<rparr>]"

definition newTCPPolicy ::
  "(string \<Rightarrow> upstream_url option) \<Rightarrow> AccessConfig \<Rightarrow> (string, tcpPolicy) outcome" where
  "newTCPPolicy parse_url fp =
     (let timeout = (if DialTimeout fp \<le> 0 then 30 * Second else DialTimeout fp) in
      and_then (add_ports (AllowedPorts fp) []) (\<lambda>ports.
      and_then (add_rules (ACL fp) []) (\<lambda>explicit.
      let p = \<lparr>rules = explicit @ default_rules, ports = ports, timeout = timeout, upstream = None\<rparr> in
      if Upstream fp = [] then Ok p
      else case parse_url (Upstream fp) of
        None \<Rightarrow> Fail ''invalid NaiveFox upstream URL''
      | Some u \<Rightarrow>
          if Hostname u = [] \<or> (Scheme u \<noteq> ''http'' \<and> Scheme u \<noteq> ''https'' \<and> Scheme u \<noteq> ''socks5'' \<and> Scheme u \<noteq> ''socks5h'')
          then Fail ''invalid NaiveFox upstream URL''
          else Ok (p\<lparr>upstream := Some u\<rparr>))))"

section \<open>Dialling\<close>

text \<open>
  The world a dial sees: whether its context is over, what the resolver answers, what a connection
  attempt gives and whether the context ended during it, and the upstream proxy.
\<close>

record 'c dial_env =
  ctx_err :: "string option"
  lookup :: "string \<Rightarrow> (string, bytes list) outcome"
  connect :: "bytes \<Rightarrow> string \<Rightarrow> (string, 'c) outcome"
  late_err :: "bytes \<Rightarrow> string option"
  dialUpstream :: "string \<Rightarrow> upstream_url \<Rightarrow> int \<Rightarrow> (string, 'c) outcome"

text \<open>The first rule that matches decides.\<close>

fun permitted :: "destinationRule list \<Rightarrow> string \<Rightarrow> bytes \<Rightarrow> bool" where
  "permitted [] host addr = False"
| "permitted (r # rs) host addr = (if matches r host (Some addr) then allow r else permitted rs host addr)"

fun domain_denied :: "destinationRule list \<Rightarrow> string \<Rightarrow> bool" where
  "domain_denied [] host = False"
| "domain_denied (r # rs) host =
     (if domain r \<noteq> [] \<and> matches r host None then \<not> allow r else domain_denied rs host)"

fun dial_addresses ::
  "tcpPolicy \<Rightarrow> 'c dial_env \<Rightarrow> string \<Rightarrow> string \<Rightarrow> bytes list \<Rightarrow> bytes list \<times> (string, 'c) outcome" where
  "dial_addresses p env host port [] = ([], Fail ''no reachable permitted destination address'')"
| "dial_addresses p env host port (addr # rest) =
     (if \<not> permitted (rules p) host addr then dial_addresses p env host port rest
      else case connect env addr port of
        Ok conn \<Rightarrow> ([addr], Ok conn)
      | Panic \<Rightarrow> ([addr], Panic)
      | Fail e \<Rightarrow>
          case late_err env addr of
            Some e \<Rightarrow> ([addr], Fail e)
          | None \<Rightarrow> (case dial_addresses p env host port rest of (tried, r) \<Rightarrow> (addr # tried, r)))"

definition DialContext ::
  "tcpPolicy \<Rightarrow> 'c dial_env \<Rightarrow> string \<Rightarrow> bytes list \<times> (string, 'c) outcome" where
  "DialContext p env target =
     (case ctx_err env of Some e \<Rightarrow> ([], Fail e)
      | None \<Rightarrow>
      case SplitHostPort target of
        Ok (host, port) \<Rightarrow>
          if host = [] then ([], Fail ''invalid TCP destination'')
          else (case upstream p of
            Some u \<Rightarrow> ([], dialUpstream env target u (timeout p))
          | None \<Rightarrow>
            (case Atoi port of
               Ok number \<Rightarrow>
                 if number < 1 \<or> number > 65535 \<or> (length (ports p) > 0 \<and> number \<notin> set (ports p))
                 then ([], Fail ''destination port denied'')
                 else if domain_denied (rules p) host then ([], Fail ''destination domain denied'')
                 else (case lookup env host of
                     Ok addresses \<Rightarrow> dial_addresses p env host port addresses
                   | Fail e \<Rightarrow> ([], Fail e)
                   | Panic \<Rightarrow> ([], Panic))
             | _ \<Rightarrow> ([], Fail ''destination port denied'')))
      | _ \<Rightarrow> ([], Fail ''invalid TCP destination''))"

definition dialTransportDestination ::
  "tcpPolicy \<Rightarrow> 'c dial_env \<Rightarrow> string \<Rightarrow> bytes list \<times> (string, 'c) outcome" where
  "dialTransportDestination p env target =
     (case SplitHostPort target of
        Ok (host, port) \<Rightarrow>
          if host = [] \<or> contains_any host (map char_of [0 :: nat, 13, 10, 9, 32] @ ''/?#@'') \<or> port = []
          then ([], Fail ''invalid TCP destination'')
          else if \<not> list_all is_digit port then ([], Fail ''invalid TCP destination port'')
          else (case Atoi port of
              Ok number \<Rightarrow>
                if number < 1 \<or> number > 65535 then ([], Fail ''invalid TCP destination port'')
                else DialContext p env target
            | _ \<Rightarrow> ([], Fail ''invalid TCP destination port''))
      | _ \<Rightarrow> ([], Fail ''invalid TCP destination''))"

end
