(* ===== verification/Auth.thy ===== *)
theory Auth
  imports Policy
begin

text \<open>
  Basic credentials, \<^verbatim>\<open>auth.go\<close>: \<open>provisionAccess\<close> keeps a digest of the base64 text of every
  configured credential and \<open>authenticate\<close> compares the digest of what a client presents. \<open>sha\<close> stands
  for \<^verbatim>\<open>sha256.Sum256\<close>.
\<close>

section \<open>base64.StdEncoding\<close>

definition base64_alphabet :: string where
  "base64_alphabet = ''ABCDEFGHIJKLMNOPQRSTUVWXYZabcdefghijklmnopqrstuvwxyz0123456789+/''"

definition base64_digit :: "nat \<Rightarrow> char" where
  "base64_digit n = base64_alphabet ! (n mod 64)"

fun base64_encode :: "bytes \<Rightarrow> string" where
  "base64_encode [] = []"
| "base64_encode [a] =
     (let n = unat a * 65536 in map base64_digit [n div 262144, n div 4096] @ ''=='')"
| "base64_encode [a, b] =
     (let n = unat a * 65536 + unat b * 256 in map base64_digit [n div 262144, n div 4096, n div 64] @ ''='')"
| "base64_encode (a # b # c # rest) =
     (let n = unat a * 65536 + unat b * 256 + unat c
      in map base64_digit [n div 262144, n div 4096, n div 64, n] @ base64_encode rest)"

section \<open>Provisioning and authentication\<close>

definition maxAuthorization :: nat where "maxAuthorization = 4064"

definition credential_text :: "Credential \<Rightarrow> string" where
  "credential_text c = base64_encode (to_bytes (Username c @ '':'' @ Password c))"

fun auth_hashes :: "(bytes \<Rightarrow> bytes) \<Rightarrow> Credential list \<Rightarrow> bytes list \<Rightarrow> (string, bytes list) outcome" where
  "auth_hashes sha [] hs = Ok hs"
| "auth_hashes sha (c # rest) hs =
     (if (Username c = [] \<and> Password c = []) \<or> CHR '':'' \<in> set (Username c)
      then Fail ''invalid basic_auth credentials''
      else if length (credential_text c) + 6 > maxAuthorization then Fail ''authorization exceeds AUTH capacity''
      else auth_hashes sha rest (hs @ [sha (to_bytes (credential_text c))]))"

definition provisionAccess ::
  "(bytes \<Rightarrow> bytes) \<Rightarrow> (string \<Rightarrow> upstream_url option) \<Rightarrow> AccessConfig \<Rightarrow> (string, bytes list \<times> tcpPolicy) outcome" where
  "provisionAccess sha parse_url access =
     (if length (Credentials access) = 0 then Fail ''naivefox_transport requires basic_auth''
      else and_then (auth_hashes sha (Credentials access) []) (\<lambda>hs.
           and_then (newTCPPolicy parse_url access) (\<lambda>policy. Ok (hs, policy))))"

definition ConstantTimeCompare :: "bytes \<Rightarrow> bytes \<Rightarrow> nat" where
  "ConstantTimeCompare x y = (if x = y then 1 else 0)"

definition authenticate :: "(bytes \<Rightarrow> bytes) \<Rightarrow> bytes list \<Rightarrow> bytes \<Rightarrow> bool" where
  "authenticate sha authHashes authorization =
     (if length authorization > maxAuthorization then False
      else case split_on CHR '' '' (to_string authorization) of
        [scheme, param] \<Rightarrow>
          if to_lower scheme \<noteq> ''basic'' then False
          else let candidate = sha (to_bytes param)
            in foldl (\<lambda>matched expected. or matched (ConstantTimeCompare candidate expected)) 0 authHashes = 1
      | _ \<Rightarrow> False)"

section \<open>Lemmas\<close>

lemma alphabet_no_space: "CHR '' '' \<notin> set base64_alphabet" "length base64_alphabet = 64"
  by (simp_all add: base64_alphabet_def)

lemma base64_digit_no_space: "base64_digit n \<noteq> CHR '' ''"
proof -
  have "base64_digit n \<in> set base64_alphabet"
    unfolding base64_digit_def by (rule nth_mem) (simp add: alphabet_no_space)
  then show ?thesis using alphabet_no_space(1) by metis
qed

lemma base64_no_space: "CHR '' '' \<notin> set (base64_encode b)"
  using base64_digit_no_space by (induction b rule: base64_encode.induct) (force simp: Let_def)+

lemma fold_matched:
  "foldl (\<lambda>m e. or m (ConstantTimeCompare c e)) (if b then 1 else 0) hs = (if b \<or> c \<in> set hs then 1 else 0)"
proof (induction hs arbitrary: b)
  case (Cons h hs)
  have "or (if b then 1 else 0) (ConstantTimeCompare c h) = (if b \<or> c = h then 1 else (0 :: nat))"
    by (simp add: ConstantTimeCompare_def)
  then show ?case using Cons.IH [of "b \<or> c = h"] by auto
qed simp

lemma matched_iff:
  "foldl (\<lambda>m e. or m (ConstantTimeCompare c e)) 0 hs = 1 \<longleftrightarrow> c \<in> set hs"
  using fold_matched [of c False hs] by simp

lemma to_string_to_bytes [simp]: "to_string (to_bytes s) = s"
proof -
  have "char_of (unat (of_char c :: u8)) = c" for c
  proof -
    have "unat (of_char c :: u8) = of_char c"
      using unat_of_nat_small [where 'a = 8, of "of_char c"] nat_of_char_less_256 [of c]
      by (simp only: of_nat_of_char) simp
    then show ?thesis by simp
  qed
  then show ?thesis by (simp add: to_string_def to_bytes_def comp_def)
qed

lemma to_bytes_append: "to_bytes (s @ t) = to_bytes s @ to_bytes t"
  by (simp add: to_bytes_def)

lemma auth_hashes_Ok:
  assumes "auth_hashes sha cs hs = Ok hs'"
  shows "hs' = hs @ map (\<lambda>c. sha (to_bytes (credential_text c))) cs
    \<and> list_all (\<lambda>c. length (credential_text c) + 6 \<le> maxAuthorization) cs"
  using assms
proof (induction cs arbitrary: hs)
  case (Cons c cs)
  then have "auth_hashes sha cs (hs @ [sha (to_bytes (credential_text c))]) = Ok hs'"
    "length (credential_text c) + 6 \<le> maxAuthorization" by (auto split: if_splits)
  then show ?case using Cons.IH [of "hs @ [sha (to_bytes (credential_text c))]"] by simp
qed simp

section \<open>Properties\<close>

text \<open>
  C29. Authentication is exact: after provisioning, a presented header is accepted exactly if
  it is at most 4064 bytes long, consists of the word basic in any case, one space and a parameter,
  and the digest of the parameter is the digest of some configured credential. In particular every configured
  credential is accepted, and without a digest collision nothing else is.
\<close>

theorem authenticate_exact:
  assumes "provisionAccess sha parse_url access = Ok (hs, policy)"
  shows "(authenticate sha hs authorization \<longleftrightarrow>
      length authorization \<le> maxAuthorization \<and>
      (\<exists>scheme param. split_on CHR '' '' (to_string authorization) = [scheme, param] \<and> to_lower scheme = ''basic''
         \<and> (\<exists>c \<in> set (Credentials access). sha (to_bytes param) = sha (to_bytes (credential_text c)))))
    \<and> (\<forall>c \<in> set (Credentials access). authenticate sha hs (to_bytes (''Basic '' @ credential_text c)))"
proof -
  have hs: "hs = map (\<lambda>c. sha (to_bytes (credential_text c))) (Credentials access)"
    and len: "list_all (\<lambda>c. length (credential_text c) + 6 \<le> maxAuthorization) (Credentials access)"
    using assms auth_hashes_Ok by (fastforce simp: provisionAccess_def and_then_Ok_iff split: if_splits)+
  have iff: "authenticate sha hs authorization \<longleftrightarrow> length authorization \<le> maxAuthorization \<and>
      (\<exists>scheme param. split_on CHR '' '' (to_string authorization) = [scheme, param] \<and> to_lower scheme = ''basic''
         \<and> (\<exists>c \<in> set (Credentials access). sha (to_bytes param) = sha (to_bytes (credential_text c))))" for authorization
    by (auto simp: authenticate_def matched_iff [simplified] hs Let_def split: list.splits)
  have "authenticate sha hs (to_bytes (''Basic '' @ credential_text c))" if c: "c \<in> set (Credentials access)" for c
  proof -
    have "split_on CHR '' '' (''Basic '' @ credential_text c) = [''Basic'', credential_text c]"
      using base64_no_space by (simp add: split_on_no_sep credential_text_def)
    moreover have "to_lower ''Basic'' = ''basic''" by code_simp
    ultimately show ?thesis using c len unfolding iff by (auto simp: list_all_iff)
  qed
  then show ?thesis using iff by blast
qed

definition demo_credentials :: AccessConfig where
  "demo_credentials = \<lparr>Credentials = [\<lparr>Username = ''u'', Password = ''p''\<rparr>], ACL = [], AllowedPorts = [],
     DialTimeout = 0, Upstream = []\<rparr>"

theorem authenticate_exact_witness:
  "authenticate (\<lambda>b. b) [to_bytes ''dTpw''] (to_bytes ''Basic dTpw'')"
proof -
  have enc: "credential_text \<lparr>Username = ''u'', Password = ''p''\<rparr> = ''dTpw''"
    by (simp add: credential_text_def to_bytes_def base64_digit_def base64_alphabet_def)
  have "\<exists>policy. provisionAccess (\<lambda>b. b) (\<lambda>_. None) demo_credentials = Ok ([to_bytes ''dTpw''], policy)"
    by (simp add: provisionAccess_def demo_credentials_def enc newTCPPolicy_def maxAuthorization_def Let_def)
  then obtain policy where "provisionAccess (\<lambda>b. b) (\<lambda>_. None) demo_credentials = Ok ([to_bytes ''dTpw''], policy)" ..
  from conjunct2 [OF authenticate_exact [OF this]]
  have "\<forall>c \<in> set (Credentials demo_credentials).
      authenticate (\<lambda>b. b) [to_bytes ''dTpw''] (to_bytes (''Basic '' @ credential_text c))" .
  then show ?thesis by (simp only: demo_credentials_def AccessConfig.simps enc list.set ball_simps append.simps)
qed

end
