(* ===== verification/Http.thy ===== *)
theory Http
  imports Go_Std
begin

text \<open>
  The parts of an HTTP request that the handlers branch on, the query parameters of
  \<^verbatim>\<open>net/url\<close>, and \<^verbatim>\<open>responseCacheControl\<close> and \<^verbatim>\<open>sessionClientIP\<close> of \<^verbatim>\<open>transport.go\<close>.
\<close>

section \<open>Requests\<close>

text \<open>
  \<open>Cookie\<close> is the value of the session cookie. \<open>TrustedProxy\<close> and \<open>ClientIP\<close> are the
  variables that the HTTP server puts into the context of the request; \<open>over\<close> says that its context is done.
\<close>

record request =
  Method :: string
  Path :: string
  RawQuery :: string
  Proto :: string
  ProtoMajor :: nat
  TLS :: bool
  RemoteAddr :: string
  Cookie :: "string option"
  Authorization :: string
  TrustedProxy :: bool
  ClientIP :: "string option"
  over :: bool
  ctx_id :: nat

section \<open>Query parameters\<close>

fun query_unescape :: "string \<Rightarrow> string option" where
  "query_unescape [] = Some []"
| "query_unescape (c # s) =
     (if c = CHR ''%'' then
        (case s of
           a # b # rest \<Rightarrow>
             (case (hex_value a, hex_value b) of
                (Some x, Some y) \<Rightarrow> map_option ((#) (char_of (16 * x + y))) (query_unescape rest)
              | _ \<Rightarrow> None)
         | _ \<Rightarrow> None)
      else map_option ((#) (if c = CHR ''+'' then CHR '' '' else c)) (query_unescape s))"

definition query_pair :: "string \<Rightarrow> (string \<times> string) option" where
  "query_pair piece =
     (if CHR '';'' \<in> set piece \<or> piece = [] then None
      else let k = takeWhile (\<lambda>c. c \<noteq> CHR ''='') piece; v = drop (length k + 1) piece
        in case (query_unescape k, query_unescape v) of
             (Some k, Some v) \<Rightarrow> Some (k, v)
           | _ \<Rightarrow> None)"

text \<open>\<^verbatim>\<open>r.URL.Query().Get(key)\<close>: malformed pairs are skipped, a missing key gives the empty string.\<close>

definition query_get :: "string \<Rightarrow> string \<Rightarrow> string" where
  "query_get raw key =
     (case List.find (\<lambda>p. case p of Some (k, _) \<Rightarrow> k = key | None \<Rightarrow> False)
         (map query_pair (split_on CHR ''&'' raw)) of
        Some (Some (_, v)) \<Rightarrow> v
      | _ \<Rightarrow> [])"

section \<open>Headers and the client address\<close>

definition responseCacheControl :: "request \<Rightarrow> bool \<Rightarrow> string" where
  "responseCacheControl r public =
     (if public then ''public, max-age=3600'' else ''no-store'') @ (if TrustedProxy r then '', no-transform'' else [])"

text \<open>\<open>parse_addr\<close> is \<^verbatim>\<open>netip.ParseAddr\<close> followed by \<^verbatim>\<open>Unmap\<close> and \<^verbatim>\<open>String\<close>.\<close>

definition sessionClientIP :: "(string \<Rightarrow> string option) \<Rightarrow> request \<Rightarrow> (string, string) outcome" where
  "sessionClientIP parse_addr r =
     (case SplitHostPort (RemoteAddr r) of
        Ok (host, _) \<Rightarrow>
          and_then
            (if TrustedProxy r
             then (case ClientIP r of None \<Rightarrow> Fail ''trusted client IP unavailable'' | Some c \<Rightarrow> Ok c)
             else Ok host)
            (\<lambda>addr. case parse_addr addr of None \<Rightarrow> Fail ''invalid client IP'' | Some a \<Rightarrow> Ok a)
      | _ \<Rightarrow> Fail ''peer'')"

section \<open>Lemmas\<close>

text \<open>A plain decimal parameter is read back.\<close>

lemma query_unescape_plain: "CHR ''%'' \<notin> set s \<Longrightarrow> CHR ''+'' \<notin> set s \<Longrightarrow> query_unescape s = Some s"
  by (induction s) auto

lemma digit_plain: "is_digit c \<Longrightarrow> c \<noteq> CHR ''%'' \<and> c \<noteq> CHR ''+'' \<and> c \<noteq> CHR '';'' \<and> c \<noteq> CHR ''&'' \<and> c \<noteq> CHR ''-''"
  by (auto simp: is_digit_def)

lemma query_get_seq:
  assumes "list_all is_digit v"
  shows "query_get (''seq='' @ v) ''seq'' = v"
proof -
  have plain: "CHR ''%'' \<notin> set v" "CHR ''+'' \<notin> set v" "CHR '';'' \<notin> set v" "CHR ''&'' \<notin> set v"
    using assms digit_plain by (auto simp: list_all_iff)
  have "split_on CHR ''&'' (''seq='' @ v) = [''seq='' @ v]"
    using plain by (intro split_on_no_sep) auto
  moreover have "query_pair (''seq='' @ v) = Some (''seq'', v)"
    using plain query_unescape_plain [of v] by (simp add: query_pair_def)
  ultimately show ?thesis by (simp add: query_get_def)
qed

lemma Atoi_itoa: "n < 2 ^ 63 \<Longrightarrow> Atoi (itoa n) = Ok (int n)"
proof -
  assume n: "n < 2 ^ 63"
  obtain c cs where i: "itoa n = c # cs" using itoa_digits [of n] by (cases "itoa n") auto
  have "c \<noteq> CHR ''-''" "c \<noteq> CHR ''+''" using itoa_digits [of n] i digit_plain [of c] by auto
  moreover have "list_all is_digit (c # cs)" "digits_value (c # cs) = n"
    using itoa_digits [of n] digits_value_itoa [of n] unfolding i by auto
  moreover have "int n \<le> 2 ^ 63 - 1" using n by (metis of_nat_less_numeral_power_cancel_iff zle_diff1_eq)
  ultimately show ?thesis unfolding i by (simp add: Atoi_def Let_def)
qed

end
