(* ===== verification/Startup.thy ===== *)
theory Startup
  imports Session Auth Http
begin

text \<open>
  The startup phase of a carrier: \<^verbatim>\<open>startup.go\<close>, the slots of \<^verbatim>\<open>contract.go\<close>, \<^verbatim>\<open>startupPath\<close>
  of \<^verbatim>\<open>realtime.go\<close> and \<^verbatim>\<open>session.close\<close> of \<^verbatim>\<open>transport.go\<close>. Forty requests alternate between an
  upload and a download; each result is kept in a journal so that a lost response can be asked for
  again. The journal of the session and every response being written hold a reference to the result, and
  a result counts against the quota of the process until its last reference is released. Results live in a
  store; the address of a result is its position there.
\<close>

section \<open>Constants\<close>

definition startupJournalLimit :: int where "startupJournalLimit = 64 * 1048576"

definition transportIdentity :: string where "transportIdentity = ''naivefox''"

definition startupSlots :: "int list" where
  "startupSlots = [8192, 8192, 8192, 8192, 32768, 32768,
     65536, 65536, 65536, 65536, 65536, 65536,
     65536, 65536, 65536, 65536, 65536, 65536,
     8192, 8192]"

definition startupPath :: "nat \<Rightarrow> string" where
  "startupPath round =
     (if round < 4 \<or> round \<ge> 18 then ''/api/events/brief''
      else if round < 6 then ''/api/events/state''
      else ''/media/chunk/'' @ itoa round)"

section \<open>Results and the quota\<close>

record startupResult =
  refs :: int
  digest :: bytes
  r_body :: bytes
  status :: nat

record startup_store =
  startupJournalBytes :: int
  results :: "startupResult list"

text \<open>
  The loop of compare-and-swap: an element of the list is the value the loop loads and the value
  it finds at the swap, after whatever other goroutines did in between.
\<close>

fun reserve_loop :: "int \<Rightarrow> (int \<times> int) list \<Rightarrow> (int \<times> bool) option" where
  "reserve_loop n [] = None"
| "reserve_loop n ((current, now) # rest) =
     (if n > startupJournalLimit - current then Some (now, False)
      else if now = current then Some (current + n, True)
      else reserve_loop n rest)"

definition reserveStartupBytes :: "int \<Rightarrow> startup_store \<Rightarrow> startup_store \<times> bool" where
  "reserveStartupBytes n st =
     (let current = startupJournalBytes st in
      case reserve_loop n [(current, current)] of
        Some (bytes, ok) \<Rightarrow> (st\<lparr>startupJournalBytes := bytes\<rparr>, ok)
      | None \<Rightarrow> (st, False))"

definition release :: "startup_store \<Rightarrow> nat \<Rightarrow> startup_store" where
  "release st a =
     (let r = results st ! a; r' = r\<lparr>refs := refs r - 1\<rparr>;
          st = st\<lparr>results := (results st)[a := r']\<rparr>
      in if refs r' = 0 then st\<lparr>startupJournalBytes := startupJournalBytes st - int (length (r_body r'))\<rparr> else st)"

definition retain :: "startup_store \<Rightarrow> nat \<Rightarrow> startup_store" where
  "retain st a = (let r = results st ! a in st\<lparr>results := (results st)[a := r\<lparr>refs := refs r + 1\<rparr>]\<rparr>)"

fun release_all :: "nat option list \<Rightarrow> startup_store \<Rightarrow> startup_store" where
  "release_all [] st = st"
| "release_all (None # rest) st = release_all rest st"
| "release_all (Some a # rest) st = release_all rest (release st a)"

definition clearStartupLocked :: "session \<times> startup_store \<Rightarrow> session \<times> startup_store" where
  "clearStartupLocked x =
     (case x of (s, st) \<Rightarrow>
        (s\<lparr>startupBytes := 0, startupJournal := replicate 40 None\<rparr>, release_all (startupJournal s) st))"

text \<open>\<open>session.close\<close>; closing the carrier's connection is an effect outside the model.\<close>

definition session_close :: "session \<times> startup_store \<Rightarrow> session \<times> startup_store" where
  "session_close x =
     (case x of (s, st) \<Rightarrow>
        (case clearStartupLocked (s\<lparr>startupInvalid := True\<rparr>, st) of
           (s, st) \<Rightarrow> (s\<lparr>s_peer := Close (s_peer s)\<rparr>, st)))"

section \<open>One request\<close>

definition is_upload :: "request \<Rightarrow> bool" where
  "is_upload r \<longleftrightarrow> Method r = ''POST'' \<and> Path r = ''/api/sync'' \<and> RawQuery r = []"

definition startup_round :: "request \<Rightarrow> u32 \<Rightarrow> nat option" where
  "startup_round r sequence =
     (if \<not> is_upload r then
        (case Atoi (query_get (RawQuery r) ''seq'') of
           Ok round \<Rightarrow>
             if round < 0 \<or> round \<ge> int (length startupSlots) \<or> Method r \<noteq> ''GET''
                \<or> RawQuery r \<noteq> ''seq='' @ itoa (nat round) \<or> Path r \<noteq> startupPath (nat round)
             then None else Some (nat round)
         | _ \<Rightarrow> None)
      else if sequence \<ge> of_nat (length startupSlots) then None
      else Some (unat sequence))"

text \<open>What the handler answers: a status, an error, or a result whose writer now holds a reference.\<close>

datatype startup_reply = S_reject | S_unavailable | S_error string | S_panic | S_result nat

text \<open>An AUTH frame may only be the single first frame of a session that is not authenticated.\<close>

definition startup_auth ::
  "(bytes \<Rightarrow> bytes) \<Rightarrow> bytes list \<Rightarrow> session \<Rightarrow> frame list \<Rightarrow> (session \<times> frame list) option" where
  "startup_auth sha hashes s frames =
     (case frames of
        f # rest \<Rightarrow>
          if Kind f = AuthK then
            (if authed s \<or> length frames \<noteq> 1 \<or> Stream f \<noteq> 0 \<or> Sequence f \<noteq> 0 \<or> \<not> authenticate sha hashes (Body f)
             then None else Some (s\<lparr>authed := True\<rparr>, rest))
          else Some (s, frames)
      | [] \<Rightarrow> Some (s, frames))"

text \<open>A step that was refused, failed or panicked, or a new result with its frames and filler.\<close>

datatype startup_step = St_refused startup_reply | St_new startupResult "frame list" int

definition startup_upload ::
  "(bytes \<Rightarrow> bytes) \<Rightarrow> bytes list \<Rightarrow> session \<times> startup_store \<Rightarrow> bytes \<Rightarrow> frame list \<Rightarrow> int
     \<Rightarrow> (session \<times> startup_store) \<times> startup_step" where
  "startup_upload sha hashes x body frames filler =
     (case x of (s, st) \<Rightarrow>
      case startup_auth sha hashes s frames of
        None \<Rightarrow> (x, St_refused S_reject)
      | Some (s, frames) \<Rightarrow>
          if \<not> authed s \<or> (length frames > 0 \<and> startupSteps s < 2) then ((s, st), St_refused S_reject)
          else case Receive (s_peer s) frames of
            (p, Fail _) \<Rightarrow>
              (clearStartupLocked (s\<lparr>s_peer := Close p, startupInvalid := True\<rparr>, st), St_refused S_reject)
          | (p, Panic) \<Rightarrow> ((s\<lparr>s_peer := p\<rparr>, st), St_refused S_panic)
          | (p, Ok _) \<Rightarrow>
              ((s\<lparr>s_peer := p, up := up s + 1, wake := True\<rparr>, st),
               St_new \<lparr>refs = 0, digest = sha body, r_body = [], status = 204\<rparr> frames filler))"

definition startup_download ::
  "(bytes \<Rightarrow> bytes) \<Rightarrow> (nat \<Rightarrow> bytes option) \<Rightarrow> string \<Rightarrow> session \<times> startup_store \<Rightarrow> bytes \<Rightarrow> nat
     \<Rightarrow> (session \<times> startup_store) \<times> startup_step" where
  "startup_download sha rand identity x body round =
     (case x of (s, st) \<Rightarrow>
      let capacity = startupSlots ! round in
      case reserveStartupBytes capacity st of
        (st, False) \<Rightarrow> ((s, st), St_refused S_unavailable)
      | (st, True) \<Rightarrow>
          let (p, frames) =
                (if down s = 0
                 then (s_peer s, [\<lparr>Kind = HelloK, Stream = 0, Sequence = 0,
                         Body = to_bytes (transportIdentity @ [char_of (10 :: nat)] @ identity)\<rparr>])
                 else Take (s_peer s) (capacity - int Header));
              s = s\<lparr>s_peer := p\<rparr>
          in case Encode rand (down s) capacity frames of
               Ok cell \<Rightarrow>
                 ((s\<lparr>startupBytes := startupBytes s + capacity, down := down s + 1\<rparr>, st),
                  St_new \<lparr>refs = 0, digest = sha body, r_body = cell, status = 200\<rparr> frames
                    (capacity - int (Header + total_size frames)))
             | Panic \<Rightarrow> ((s, st), St_refused S_panic)
             | Fail e \<Rightarrow>
                 (case clearStartupLocked (s\<lparr>startupInvalid := True\<rparr>,
                         st\<lparr>startupJournalBytes := startupJournalBytes st - capacity\<rparr>) of
                    (s, st) \<Rightarrow> ((s\<lparr>s_peer := Close (s_peer s)\<rparr>, st), St_refused (S_error e))))"

text \<open>Recording a new result: two references, one for the journal and one for the writer.\<close>

definition startup_commit ::
  "session \<times> startup_store \<Rightarrow> startupResult \<Rightarrow> nat \<Rightarrow> int \<Rightarrow> session \<times> startup_store" where
  "startup_commit x result index later =
     (case x of (s, st) \<Rightarrow>
        (s\<lparr>startupDeadline := (if startupDeadline s = None then Some (later + 120 * Second) else startupDeadline s),
           startupJournal := (startupJournal s)[index := Some (length (results st))],
           startupSteps := startupSteps s + 1\<rparr>,
         st\<lparr>results := results st @ [result\<lparr>refs := 2\<rparr>]\<rparr>))"

definition reject_count :: "counters \<Rightarrow> counters" where
  "reject_count t = t\<lparr>Rejected := Rejected t + 1\<rparr>"

definition startup_count ::
  "counters \<Rightarrow> session \<Rightarrow> bool \<Rightarrow> bytes \<Rightarrow> startupResult \<Rightarrow> frame list \<Rightarrow> int \<Rightarrow> counters" where
  "startup_count t s upload body result frames filler =
     (let t = (if startupSteps s = 40 then t\<lparr>StartupCompleted := StartupCompleted t + 1\<rparr> else t)
      in if upload
         then t\<lparr>UploadBytes := UploadBytes t + of_nat (length body),
                UploadFiller := UploadFiller t + of_int filler,
                UploadUseful := UploadUseful t + useful_bytes frames,
                Opens := Opens t + count_opens frames\<rparr>
         else t\<lparr>DownloadBytes := DownloadBytes t + of_nat (length (r_body result)),
                DownloadFiller := DownloadFiller t + of_int filler,
                DownloadUseful := DownloadUseful t + useful_bytes frames,
                CellCapacities := bump (itoa (length (r_body result))) (CellCapacities t)\<rparr>)"

definition startup_refused :: "counters \<Rightarrow> startup_reply \<Rightarrow> counters" where
  "startup_refused t reply = (if reply = S_reject then reject_count t else t)"

text \<open>A step that is not in the journal: it must be the next one, in order.\<close>

definition startup_new ::
  "(bytes \<Rightarrow> bytes) \<Rightarrow> bytes list \<Rightarrow> (nat \<Rightarrow> bytes option) \<Rightarrow> string \<Rightarrow> int \<Rightarrow> counters \<Rightarrow> session \<times> startup_store
     \<Rightarrow> request \<Rightarrow> bytes \<Rightarrow> u32 \<Rightarrow> frame list \<Rightarrow> int \<Rightarrow> nat \<Rightarrow> nat
     \<Rightarrow> counters \<times> (session \<times> startup_store) \<times> startup_reply" where
  "startup_new sha hashes rand identity later t x r body sequence frames filler round index =
     (let upload = is_upload r; s = fst x in
      if index \<noteq> startupSteps s \<or> (upload \<and> sequence \<noteq> up s) \<or> (\<not> upload \<and> of_nat round \<noteq> down s)
      then (reject_count t, x, S_reject)
      else case (if upload then startup_upload sha hashes x body frames filler
                 else startup_download sha rand identity x body round) of
        (x, St_refused reply) \<Rightarrow> (startup_refused t reply, x, reply)
      | (x, St_new result frames filler) \<Rightarrow>
          let a = length (results (snd x)); x = startup_commit x result index later
          in (startup_count t (fst x) upload body result frames filler, x, S_result a))"

text \<open>
  The handler. \<open>hashes\<close> are the digests of the credentials, \<open>identity\<close> the one of the
  application; the clock is read twice.
\<close>

definition startup ::
  "(bytes \<Rightarrow> bytes) \<Rightarrow> bytes list \<Rightarrow> (nat \<Rightarrow> bytes option) \<Rightarrow> string \<Rightarrow> int \<Rightarrow> int \<Rightarrow> counters \<Rightarrow> session \<times> startup_store
     \<Rightarrow> request \<Rightarrow> bytes \<Rightarrow> u32 \<Rightarrow> frame list \<Rightarrow> int \<Rightarrow> counters \<times> (session \<times> startup_store) \<times> startup_reply" where
  "startup sha hashes rand identity now later t x r body sequence frames filler =
     (case startup_round r sequence of
        None \<Rightarrow> (reject_count t, x, S_reject)
      | Some round \<Rightarrow>
          let upload = is_upload r; index = round * 2 + (if upload then 0 else 1); s = fst x; st = snd x
          in if realtime s \<or> startupInvalid s \<or> over r \<or> peer_closed (s_peer s) then (reject_count t, x, S_reject)
             else if (case startupDeadline s of None \<Rightarrow> False | Some d \<Rightarrow> \<not> now < d) then
               (case clearStartupLocked (s\<lparr>startupInvalid := True\<rparr>, st) of
                  (s, st) \<Rightarrow> (reject_count t, (s\<lparr>s_peer := Close (s_peer s)\<rparr>, st), S_reject))
             else case startupJournal s ! index of
               Some a \<Rightarrow>
                 if upload \<and> digest (results st ! a) \<noteq> sha body then (reject_count t, x, S_reject)
                 else (t\<lparr>StartupReplays := StartupReplays t + 1\<rparr>, (s, retain st a), S_result a)
             | None \<Rightarrow> startup_new sha hashes rand identity later t x r body sequence frames filler round index)"

text \<open>
  Writing the response: \<open>deadline\<close> is an error of setting the write deadline, \<open>wrote\<close> the
  result of the write. The writer's reference is released on every path.
\<close>

definition writeStartup ::
  "counters \<times> startup_store \<Rightarrow> nat \<Rightarrow> string option \<Rightarrow> nat \<times> string option \<Rightarrow> (counters \<times> startup_store) \<times> string option" where
  "writeStartup ts a deadline wrote =
     (case ts of (t, st) \<Rightarrow>
      let result = results st ! a in
      case deadline of
        Some e \<Rightarrow> ((t, release st a), Some e)
      | None \<Rightarrow>
          if status result = 204 then ((t, release st a), None)
          else let err = (case wrote of (n, None) \<Rightarrow> if n \<noteq> length (r_body result) then Some ''short write'' else None
                          | (_, Some e) \<Rightarrow> Some e);
                   t = (if err \<noteq> None then t\<lparr>WriteErrors := WriteErrors t + 1\<rparr> else t)
            in ((t, release st a), err))"

end
