(* ===== verification/Startup_Invariant.thy ===== *)
theory Startup_Invariant
  imports Startup "HOL-Library.Multiset"
begin

text \<open>
  The reference counts of startup results and the quota. The sessions' journals and the writers
  of responses are the holders of references; the invariant says that every result counts
  exactly its holders and that the quota is the size of all results that are held.
\<close>

section \<open>The store\<close>

definition addresses :: "nat option list \<Rightarrow> nat list" where
  "addresses j = concat (map (case_option [] (\<lambda>a. [a])) j)"

definition live :: "startupResult \<Rightarrow> int" where
  "live r = (if refs r = 0 then 0 else int (length (r_body r)))"

text \<open>\<open>k\<close> bytes are reserved for a result that is not in the store yet; \<open>H\<close> are the holders.\<close>

definition store_inv :: "int \<Rightarrow> startup_store \<Rightarrow> nat multiset \<Rightarrow> bool" where
  "store_inv k st H \<longleftrightarrow>
     set_mset H \<subseteq> {..<length (results st)}
     \<and> (\<forall>a < length (results st). refs (results st ! a) = int (count H a))
     \<and> startupJournalBytes st = sum_list (map live (results st)) + k
     \<and> startupJournalBytes st \<le> startupJournalLimit"

text \<open>The content of a result never changes; only its references do.\<close>

definition same_content :: "startup_store \<Rightarrow> startup_store \<Rightarrow> bool" where
  "same_content st st' \<longleftrightarrow> length (results st) \<le> length (results st')
     \<and> (\<forall>a < length (results st). r_body (results st' ! a) = r_body (results st ! a)
          \<and> digest (results st' ! a) = digest (results st ! a) \<and> status (results st' ! a) = status (results st ! a))"

lemma same_content_refl [simp]: "same_content st st"
  by (simp add: same_content_def)

lemma same_content_trans: "same_content a b \<Longrightarrow> same_content b c \<Longrightarrow> same_content a c"
  by (simp add: same_content_def)

lemma addresses_simps [simp]:
  "addresses [] = []" "addresses (None # j) = addresses j" "addresses (Some a # j) = a # addresses j"
  "addresses (replicate n None) = []"
  by (simp_all add: addresses_def)

lemma addresses_set: "a \<in> set (addresses j) \<longleftrightarrow> Some a \<in> set j"
  unfolding addresses_def by (induction j) (auto split: option.splits)

lemma live_nonneg: "0 \<le> sum_list (map live rs)"
  by (rule sum_list_nonneg) (auto simp: live_def)

lemma store_inv_bounds: "store_inv 0 st H \<Longrightarrow> 0 \<le> startupJournalBytes st \<and> startupJournalBytes st \<le> startupJournalLimit"
  using live_nonneg [of "results st"] by (simp add: store_inv_def)

lemma sum_list_update_int: "a < length xs \<Longrightarrow> sum_list (xs[a := y]) = sum_list xs + y - (xs ! a :: int)"
  by (induction xs arbitrary: a) (auto split: nat.splits)

lemma release_inv:
  assumes "store_inv k st (add_mset a H)"
  shows "store_inv k (release st a) H" and "same_content st (release st a)"
proof -
  let ?r = "results st ! a"
  have a: "a < length (results st)" and refs: "refs ?r = int (count H a) + 1"
    and other: "\<forall>b < length (results st). b \<noteq> a \<longrightarrow> refs (results st ! b) = int (count H b)"
    and sub: "set_mset H \<subseteq> {..<length (results st)}"
    using assms by (auto simp: store_inv_def)
  have nz: "refs ?r \<noteq> 0" using refs by simp
  have sum: "sum_list (map live ((results st)[a := ?r\<lparr>refs := refs ?r - 1\<rparr>])) =
      sum_list (map live (results st)) - (if refs ?r = 1 then int (length (r_body ?r)) else 0)"
    using a nz by (simp add: map_update sum_list_update_int live_def)
  show "store_inv k (release st a) H"
    using assms a refs other sub sum
    by (auto simp: store_inv_def release_def Let_def nth_list_update count_eq_zero_iff)
  show "same_content st (release st a)"
    using a by (auto simp: same_content_def release_def Let_def nth_list_update)
qed

lemma retain_inv:
  assumes "store_inv k st H" and "a \<in># H"
  shows "store_inv k (retain st a) (add_mset a H)" and "same_content st (retain st a)"
proof -
  let ?r = "results st ! a"
  have a: "a < length (results st)" and "refs ?r = int (count H a)" "count H a > 0"
    using assms by (auto simp: store_inv_def)
  then have refs: "refs ?r > 0" by simp
  have sum: "sum_list (map live ((results st)[a := ?r\<lparr>refs := refs ?r + 1\<rparr>])) = sum_list (map live (results st))"
    using a refs by (simp add: map_update sum_list_update_int live_def)
  show "store_inv k (retain st a) (add_mset a H)"
    using assms a sum by (auto simp: store_inv_def retain_def Let_def nth_list_update)
  show "same_content st (retain st a)"
    using a by (auto simp: same_content_def retain_def Let_def nth_list_update)
qed

lemma release_all_inv:
  "store_inv k st (mset (addresses j) + H) \<Longrightarrow> store_inv k (release_all j st) H \<and> same_content st (release_all j st)"
proof (induction j st rule: release_all.induct)
  case (3 a rest st)
  then have rel: "store_inv k st (add_mset a (mset (addresses rest) + H))" by simp
  from release_inv [OF rel] 3(1) show ?case by (auto intro: same_content_trans)
qed auto

lemma commit_inv:
  assumes "store_inv k st H" and "k = int (length (r_body r))"
  shows "store_inv 0 (st\<lparr>results := results st @ [r\<lparr>refs := 2\<rparr>]\<rparr>) (add_mset (length (results st)) (add_mset (length (results st)) H))"
proof -
  have fresh: "count H (length (results st)) = 0"
    using assms(1) by (auto simp: store_inv_def count_eq_zero_iff)
  show ?thesis
    using assms fresh
    by (auto simp: store_inv_def nth_append live_def less_Suc_eq)
qed

lemma reserve_eq:
  "reserveStartupBytes n st =
     (if n > startupJournalLimit - startupJournalBytes st then (st, False)
      else (st\<lparr>startupJournalBytes := startupJournalBytes st + n\<rparr>, True))"
  by (simp add: reserveStartupBytes_def Let_def)

text \<open>
  However other goroutines contend for the counter, the loop takes effect at one instant: where the swap succeeds the
  counter changes as by the uncontended reservation, and a refusal is that of the value loaded last. So the handler's
  model uses the uncontended reservation.
\<close>

lemma reserve_linear:
  "reserve_loop n turns = Some (v, ok) \<Longrightarrow> \<exists>current now. (current, now) \<in> set turns \<and>
     (if ok then reserveStartupBytes n (st\<lparr>startupJournalBytes := now\<rparr>) = (st\<lparr>startupJournalBytes := v\<rparr>, True)
      else v = now \<and> reserveStartupBytes n (st\<lparr>startupJournalBytes := current\<rparr>) = (st\<lparr>startupJournalBytes := current\<rparr>, False))"
  by (induction n turns rule: reserve_loop.induct) (auto simp: reserve_eq split: if_splits)

lemma reserve_ends: "(current, current) \<in> set turns \<Longrightarrow> reserve_loop n turns \<noteq> None"
  by (induction n turns rule: reserve_loop.induct) auto

lemma reserve_inv:
  assumes "store_inv 0 st H" and "reserveStartupBytes n st = (st', ok)"
  shows "store_inv (if ok then n else 0) st' H \<and> results st' = results st"
  using assms by (auto simp: store_inv_def reserve_eq split: if_splits)

lemma unreserve_inv:
  "0 \<le> k \<Longrightarrow> store_inv k st H \<Longrightarrow> store_inv 0 (st\<lparr>startupJournalBytes := startupJournalBytes st - k\<rparr>) H"
  by (auto simp: store_inv_def)

end
