(* ===== verification/Session_Properties.thy ===== *)
theory Session_Properties
  imports Session
begin

text \<open>
  Properties of a carrier session: cells are accepted once and in sequence, download cells
  always encode, and their capacities follow the amount of data that is ready.
\<close>

lemma count_upload_Ok:
  "packet s \<or> h3 s \<or> WSCellCapacities t \<noteq> None \<Longrightarrow> \<exists>t'. count_upload t s n filler fs = Ok t'"
  by (auto simp: count_upload_def Let_def)

lemma count_upload_not_Fail: "count_upload t s n filler fs \<noteq> Fail e"
  by (auto simp: count_upload_def Let_def split: option.splits)

text \<open>What an accepted cell means, and that a refused one changes neither the sequence nor the counters.\<close>

lemma receiveRealtime_cases:
  assumes "receiveRealtime (t, s) now body = ((t', s'), r)" and "r \<noteq> Panic"
  shows "if r = Ok () then
      upload_capacity_ok s (length body) \<and> up s \<noteq> - 1 \<and> up s' = up s + 1
      \<and> (\<exists>frames filler. Decode body = Ok (up s, frames, filler)
          \<and> list_all (\<lambda>f. \<not> control_frame f) frames \<and> (authed s \<or> frames = [])
          \<and> Receive (s_peer s) frames = (s_peer s', Ok ())
          \<and> (ackPending s' \<longleftrightarrow> frames \<noteq> [] \<or> ackPending s))
    else up s' = up s \<and> t' = t"
proof (cases "Decode body")
  case (Ok x)
  obtain sequence frames filler where x: "x = (sequence, frames, filler)" by (cases x)
  obtain p q where rc: "Receive (s_peer s) frames = (p, q)" by force
  show ?thesis
  proof (cases "upload_capacity_ok s (length body) \<and> \<not> list_ex control_frame frames
      \<and> \<not> (sequence \<noteq> up s \<or> up s = - 1 \<or> (\<not> authed s \<and> length frames \<noteq> 0))")
    case False
    then show ?thesis using assms Ok x by (auto simp: receiveRealtime_def split: if_splits)
  next
    case True
    then have nc: "list_all (\<lambda>f. \<not> control_frame f) frames" by (auto simp: list_all_iff list_ex_iff)
    show ?thesis
    proof (cases q)
      case ok: (Ok u)
      define e where "e = accept_cell s p now sequence frames"
      have "receiveRealtime (t, s) now body = (case count_upload t e (length body) filler frames of
          Ok t \<Rightarrow> ((t, e), Ok ()) | Fail x \<Rightarrow> ((t, e), Fail x) | Panic \<Rightarrow> ((t, e), Panic))"
        unfolding e_def using True Ok x rc ok by (cases u) (auto simp: receiveRealtime_def Let_def)
      then have "s' = e" "r = Ok ()"
        using assms count_upload_not_Fail by (auto split: outcome.splits)
      moreover have "up e = up s + 1" "s_peer e = p" "ackPending e \<longleftrightarrow> frames \<noteq> [] \<or> ackPending s"
        by (simp_all add: e_def accept_cell_def Let_def)
      ultimately show ?thesis using True Ok x rc ok nc by auto
    qed (use assms True Ok x rc in \<open>auto simp: receiveRealtime_def split: if_splits\<close>)
  qed
qed (use assms in \<open>auto simp: receiveRealtime_def split: if_splits\<close>)

section \<open>Properties\<close>

text \<open>What has to hold of a decoded cell.\<close>

definition cell_in_turn :: "session \<Rightarrow> nat \<Rightarrow> u32 \<Rightarrow> frame list \<Rightarrow> bool" where
  "cell_in_turn s len sequence frames \<longleftrightarrow> upload_capacity_ok s len \<and> list_all (\<lambda>f. \<not> control_frame f) frames
     \<and> sequence = up s \<and> up s \<noteq> - 1 \<and> (authed s \<or> frames = [])"

lemma Decode_safe: "Decode body \<noteq> Panic"
  by (auto simp: Decode_def Let_def and_then_Panic_iff decode_frames_no_panic split: prod.splits)

lemma cell_refused:
  "(\<And>sequence frames filler. Decode body = Ok (sequence, frames, filler) \<Longrightarrow> \<not> cell_in_turn s (length body) sequence frames)
     \<Longrightarrow> \<exists>e. receiveRealtime (t, s) now body = ((t, s), Fail e)"
  using Decode_safe [of body]
  by (cases "Decode body") (auto simp: receiveRealtime_def cell_in_turn_def list_all_iff list_ex_iff)

lemma cell_applied:
  assumes "Decode body = Ok (sequence, frames, filler)" and "cell_in_turn s (length body) sequence frames"
    and "Receive (s_peer s) frames = (p, Ok ())" and "h3 s \<or> packet s \<or> WSCellCapacities t \<noteq> None"
  shows "\<exists>t'. receiveRealtime (t, s) now body = ((t', s\<lparr>s_peer := p, up := up s + 1, last_used := now, wake := True,
        ackPending := (ackPending s \<or> frames \<noteq> []), ackSequence := (if frames \<noteq> [] then sequence else ackSequence s)\<rparr>), Ok ())
    \<and> UploadBytes t' = UploadBytes t + of_nat (length body) \<and> UploadFiller t' = UploadFiller t + of_nat filler
    \<and> UploadUseful t' = UploadUseful t + useful_bytes frames \<and> Opens t' = Opens t + count_opens frames"
proof -
  let ?s = "accept_cell s p now sequence frames"
  have s: "?s = s\<lparr>s_peer := p, up := up s + 1, last_used := now, wake := True,
      ackPending := (ackPending s \<or> frames \<noteq> []), ackSequence := (if frames \<noteq> [] then sequence else ackSequence s)\<rparr>"
    by (simp add: accept_cell_def Let_def)
  have "h3 ?s = h3 s" "packet ?s = packet s" by (simp_all add: s)
  then obtain t' where t': "count_upload t ?s (length body) filler frames = Ok t'"
    "UploadBytes t' = UploadBytes t + of_nat (length body)" "UploadFiller t' = UploadFiller t + of_nat filler"
    "UploadUseful t' = UploadUseful t + useful_bytes frames" "Opens t' = Opens t + count_opens frames"
    using assms(4) by (auto simp: count_upload_def Let_def)
  have "\<not> list_ex control_frame frames" using assms(2) by (auto simp: cell_in_turn_def list_all_iff list_ex_iff)
  then have "receiveRealtime (t, s) now body = ((t', ?s), Ok ())"
    using assms(1-3) t'(1) by (auto simp: receiveRealtime_def cell_in_turn_def Let_def)
  then show ?thesis using t'(2-5) unfolding s by blast
qed


text \<open>An empty first cell and a fresh authenticated session, for the witnesses.\<close>

definition demo_session :: session where
  "demo_session = \<lparr>ip = ''192.0.2.1'', last_used = 0, authed = True, up = 0, down = 0, s_peer = New True,
     wake = False, startupSteps = 40, startupInvalid = False, startupDeadline = None,
     startupJournal = replicate 40 None, startupBytes = 0, h3Active = 0, h3 = True, packet = False, pendingUploads = None,
     realtime = True, realtimeConn = True, ackPending = True, ackSequence = 3, wsStartupUp = 0, wsStartupDown = 0\<rparr>"

definition demo_counters :: counters where
  "demo_counters = \<lparr>PacketPeaks = replicate 33 0, PacketOpened = 0, PacketUploads = 0, PacketDownloads = 0, StartupReplays = 0, H3Opened = 0,
     H3Closed = 0, H3Uploads = 0, H3Downloads = 0, WSOpened = 0, WSClosed = 0, WSMessagesIn = 0, WSMessagesOut = 0,
     WSCellCapacities = None, WSSubprotocols = None, WSUploadBytes = 0, WSDownloadBytes = 0, WSUploadFiller = 0, WSDownloadFiller = 0,
     WSUploadUseful = 0, WSDownloadUseful = 0, WSStartupMinUp = 0, WSStartupMinDown = 0, StartupCompleted = 0, IdleHeartbeats = 0, CellCapacities = (\<lambda>_. 0),
     WriteErrors = 0, Peers = [], Requests = (\<lambda>_. 0), Protocols = (\<lambda>_. 0), UploadBytes = 0, DownloadBytes = 0, UploadFiller = 0, DownloadFiller = 0, UploadUseful = 0,
     DownloadUseful = 0, Opens = 0, Rejected = 0\<rparr>"

definition demo_cell :: bytes where
  "demo_cell = layout 0 [] (replicate 496 0)"

lemma demo_cell_decodes: "Decode demo_cell = Ok (0, [], 496)" "length demo_cell = 512"
proof -
  show "Decode demo_cell = Ok (0, [], 496)"
    unfolding demo_cell_def by (subst Decode_layout) simp_all
  show "length demo_cell = 512" by (simp add: demo_cell_def)
qed

lemma demo_session_accepts:
  "snd (receiveRealtime (demo_counters, demo_session) 9 demo_cell) = Ok ()"
proof -
  let ?e = "accept_cell demo_session (New True) 9 0 []"
  have "h3 ?e" by (simp add: accept_cell_def demo_session_def Let_def)
  then obtain t where "count_upload demo_counters ?e 512 496 [] = Ok t" using count_upload_Ok by blast
  moreover have "Receive (New True) [] = (New True, Ok ())" by (simp add: Receive_def New_def newPeer_def)
  moreover have "up demo_session = 0" "s_peer demo_session = New True" by (simp_all add: demo_session_def)
  ultimately show ?thesis
    by (simp add: receiveRealtime_def demo_cell_decodes upload_capacity_ok_def)
qed


lemma readyDownCapacity_cases:
  "readyDownCapacity s p = 512 \<or> readyDownCapacity s p = 8192
   \<or> readyDownCapacity s p = 65536 \<or> readyDownCapacity s p = 262144 \<and> \<not> h3 s \<and> \<not> packet s"
  by (auto simp: readyDownCapacity_def realtimeReadyDownCapacity_def maxDownCell_def Let_def)

lemma readyDownCapacity_choice:
  "readyDownCapacity s p \<in> {512, 8192, 65536, 262144} \<and> readyDownCapacity s p \<le> maxDownCell s
    \<and> (8192 < readyDownCapacity s p \<longrightarrow> readyDownCapacity s p \<le> realtimeFramedBytes p)"
proof (intro conjI)
  show "readyDownCapacity s p \<in> {512, 8192, 65536, 262144}" using readyDownCapacity_cases [of s p] by auto
  show "readyDownCapacity s p \<le> maxDownCell s"
    by (auto simp: readyDownCapacity_def maxDownCell_def)
  show "8192 < readyDownCapacity s p \<longrightarrow> readyDownCapacity s p \<le> realtimeFramedBytes p"
    by (auto simp: readyDownCapacity_def realtimeReadyDownCapacity_def maxDownCell_def Let_def min_def split: if_splits)
qed

text \<open>A waiting loop stops collecting exactly when the largest cell could be filled.\<close>

lemma coalesce_full:
  "0 \<le> Bytes p \<Longrightarrow> realtimeReadyDownCapacity p \<ge> maxDownCell s \<longleftrightarrow> 0 < Bytes p \<and> maxDownCell s \<le> realtimeFramedBytes p"
  by (auto simp: realtimeReadyDownCapacity_def maxDownCell_def Let_def)

text \<open>Whatever a turn takes, data or controls only, comes from a frame source.\<close>

interpretation cell_source: frame_source peer_inv "\<lambda>p bud. if c then TakeControls p bud else Take p bud" for c
  by unfold_locales (simp_all add: data_source.keeps control_source.keeps data_source.fits control_source.fits
      data_source.count control_source.count data_source.kinds control_source.kinds)

definition ack_frames :: "session \<Rightarrow> frame list" where
  "ack_frames s = (if ackPending s then [\<lparr>Kind = AckK, Stream = 0, Sequence = ackSequence s, Body = []\<rparr>] else [])"

definition turn_taken :: "session \<Rightarrow> peer \<times> frame list" where
  "turn_taken s =
     (let bud = readyDownCapacity s (down_pressure s) - int Header - int (total_size (ack_frames s))
      in if Bytes (down_pressure s) = 0 then TakeControls (s_peer s) bud else Take (s_peer s) bud)"

lemma ack_frames_size: "total_size (ack_frames s) = (if ackPending s then FrameHeader else 0)"
  by (simp add: ack_frames_def Size_def)

lemma write_cell_eq:
  "write_cell rand s now idle =
     (if down s = - 1 then (s, T_stop)
      else if \<not> idle \<and> pressure_idle s then (s, T_again)
      else let s' = s\<lparr>ackPending := False, s_peer := fst (turn_taken s)\<rparr>;
               frames = ack_frames s @ snd (turn_taken s)
        in if frames = [] \<and> \<not> idle then (s', T_wait)
           else case Encode rand (down s) (readyDownCapacity s (down_pressure s)) frames of
             Ok body \<Rightarrow> (s'\<lparr>down := down s + 1, last_used := now\<rparr>,
                 T_cell body frames (readyDownCapacity s (down_pressure s)))
           | Fail e \<Rightarrow> (s', T_error e)
           | Panic \<Rightarrow> (s', T_panic))"
  by (cases "ackPending s"; cases "Bytes (down_pressure s) = 0")
    (simp_all add: write_cell_def turn_taken_def pressure_idle_def ack_frames_def Size_def Let_def split_beta
      split: outcome.split)

lemma turn_encodable:
  assumes "peer_inv (s_peer s)"
    and "h3 s \<or> packet s \<or> \<not> ackPending s \<or> length (snd (turn_taken s)) < 4096"
  shows "encodable (readyDownCapacity s (down_pressure s)) (ack_frames s @ snd (turn_taken s))"
proof -
  let ?cap = "readyDownCapacity s (down_pressure s)" and ?c = "Bytes (down_pressure s) = 0"
  let ?bud = "?cap - int Header - int (total_size (ack_frames s))"
  have taken: "turn_taken s = (if ?c then TakeControls (s_peer s) ?bud else Take (s_peer s) ?bud)"
    by (simp add: turn_taken_def Let_def)
  have fit: "int Header + int (total_size (ack_frames s)) \<le> ?cap" "?cap \<le> int MaxCell"
    using readyDownCapacity_cases [of s "down_pressure s"] by (auto simp: ack_frames_size)
  have count: "length (snd (turn_taken s)) \<le> 4096"
    unfolding taken by (rule cell_source.count [OF assms(1)])
  have "length (ack_frames s) + length (snd (turn_taken s)) \<le> 4096"
  proof (cases "h3 s \<or> packet s")
    case True
    then have "?cap \<le> 65536" using readyDownCapacity_cases [of s "down_pressure s"] by auto
    moreover have "int FrameHeader * int (length (snd (turn_taken s))) \<le> ?bud"
      unfolding taken using fit by (intro cell_source.taken_count [OF assms(1)]) simp
    ultimately show ?thesis by (auto simp: ack_frames_def)
  next
    case False
    then show ?thesis using assms(2) count by (auto simp: ack_frames_def)
  qed
  then show ?thesis
    unfolding taken using fit by (intro cell_source.taken_encodable [OF assms(1)]) (auto simp: ack_frames_def kind_ok_iff)
qed



end
