(* ===== verification/Startup_Steps.thy ===== *)
theory Startup_Steps
  imports Startup_Invariant Session_Properties
begin

text \<open>
  The state of one session during startup, and that the handler keeps it: the journal holds the
  result of every step done so far, results of downloads are cells of the size of their slot and
  the sequence number of their round, and uploads and downloads alternate.
\<close>

section \<open>The invariant of a session\<close>

definition slot_ok :: "startup_store \<Rightarrow> nat \<Rightarrow> nat \<Rightarrow> bool" where
  "slot_ok st i a \<longleftrightarrow> a < length (results st) \<and>
     (let r = results st ! a in
      if even i then r_body r = [] \<and> status r = 204
      else status r = 200 \<and> length (r_body r) = nat (startupSlots ! (i div 2))
        \<and> (\<exists>frames n. Decode (r_body r) = Ok (of_nat (i div 2), frames, n)))"

definition journal_bytes :: "startup_store \<Rightarrow> nat option list \<Rightarrow> int" where
  "journal_bytes st j = sum_mset (image_mset (\<lambda>a. int (length (r_body (results st ! a)))) (mset (addresses j)))"

definition sess_inv :: "startup_store \<Rightarrow> session \<Rightarrow> bool" where
  "sess_inv st s \<longleftrightarrow>
     length (startupJournal s) = 40 \<and> startupSteps s \<le> 40 \<and> (0 < startupSteps s \<longrightarrow> authed s)
     \<and> (\<not> realtime s \<longrightarrow> unat (up s) = (startupSteps s + 1) div 2 \<and> unat (down s) = startupSteps s div 2)
     \<and> (\<forall>i < 40. \<forall>a. startupJournal s ! i = Some a \<longrightarrow> i < startupSteps s \<and> slot_ok st i a)
     \<and> (realtime s \<or> startupInvalid s \<or> (\<forall>i < startupSteps s. startupJournal s ! i \<noteq> None))
     \<and> startupBytes s = journal_bytes st (startupJournal s)"

lemma slot_ok_same: "same_content st st' \<Longrightarrow> slot_ok st i a \<Longrightarrow> slot_ok st' i a"
  by (auto simp: slot_ok_def same_content_def Let_def)

lemma journal_bytes_same:
  assumes "same_content st st'" and "set (addresses j) \<subseteq> {..<length (results st)}"
  shows "journal_bytes st' j = journal_bytes st j"
  unfolding journal_bytes_def
  using assms by (intro arg_cong [where f = sum_mset] image_mset_cong) (auto simp: same_content_def)

lemma sess_inv_addresses: "sess_inv st s \<Longrightarrow> set (addresses (startupJournal s)) \<subseteq> {..<length (results st)}"
proof
  fix a assume s: "sess_inv st s" and "a \<in> set (addresses (startupJournal s))"
  then obtain i where "i < length (startupJournal s)" "startupJournal s ! i = Some a"
    unfolding addresses_set by (metis in_set_conv_nth)
  then have "slot_ok st i a" using s unfolding sess_inv_def by auto
  then show "a \<in> {..<length (results st)}" by (simp add: slot_ok_def)
qed

lemma sess_inv_same:
  assumes "same_content st st'" and "sess_inv st s"
  shows "sess_inv st' s"
  using assms(2) slot_ok_same [OF assms(1)] journal_bytes_same [OF assms(1) sess_inv_addresses [OF assms(2)]]
  unfolding sess_inv_def by auto

lemma sess_inv_indep [simp]:
  "sess_inv st (s\<lparr>s_peer := p\<rparr>) = sess_inv st s"
  "sess_inv st (s\<lparr>wake := w\<rparr>) = sess_inv st s"
  "sess_inv st (s\<lparr>last_used := n\<rparr>) = sess_inv st s"
  by (simp_all add: sess_inv_def)

lemma sess_inv_invalid: "sess_inv st s \<Longrightarrow> sess_inv st (s\<lparr>startupInvalid := True\<rparr>)"
  by (simp add: sess_inv_def)

section \<open>Clearing the journal\<close>

lemma clear_inv:
  assumes "sess_inv st s" and "store_inv k st (mset (addresses (startupJournal s)) + H)"
    and "realtime s \<or> startupInvalid s" and "clearStartupLocked (s, st) = (s', st')"
  shows "sess_inv st' s' \<and> store_inv k st' H \<and> same_content st st' \<and> addresses (startupJournal s') = []"
proof -
  have s': "s' = s\<lparr>startupBytes := 0, startupJournal := replicate 40 None\<rparr>" and st': "st' = release_all (startupJournal s) st"
    using assms(4) by (auto simp: clearStartupLocked_def)
  have "sess_inv st' s'"
    using assms(1,3) by (auto simp: sess_inv_def s' journal_bytes_def)
  then show ?thesis using release_all_inv [OF assms(2)] by (simp add: s' st')
qed

text \<open>What the handler and the other operations owe: both invariants, and unchanged contents.\<close>

definition startup_keeps :: "startup_store \<Rightarrow> nat multiset \<Rightarrow> session \<Rightarrow> startup_store \<Rightarrow> bool" where
  "startup_keeps st H s' st' \<longleftrightarrow>
     sess_inv st' s' \<and> store_inv 0 st' (mset (addresses (startupJournal s')) + H) \<and> same_content st st'"

lemma clear_keeps:
  assumes "sess_inv st s" and "store_inv 0 st (mset (addresses (startupJournal s)) + H)"
    and "realtime s \<or> startupInvalid s" and "clearStartupLocked (s, st) = (s', st')"
  shows "startup_keeps st H (s'\<lparr>s_peer := p\<rparr>) st' \<and> startup_keeps st H s' st'"
  using clear_inv [OF assms] by (simp add: startup_keeps_def)

section \<open>Recording a result\<close>

lemma addresses_update:
  "i < length j \<Longrightarrow> j ! i = None \<Longrightarrow> mset (addresses (j[i := Some a])) = add_mset a (mset (addresses j))"
proof (induction j arbitrary: i)
  case (Cons x j)
  then show ?case by (cases i; cases x) auto
qed simp

lemma unat_Suc_small: "unat (w :: u32) \<le> 20 \<Longrightarrow> unat (w + 1) = unat w + 1"
  by (simp add: unat_word_ariths)

lemma same_content_append: "same_content st (st\<lparr>results := results st @ rs\<rparr>)"
  by (simp add: same_content_def nth_append)

lemma commit_keeps:
  assumes inv: "sess_inv st s" and store: "store_inv k st (mset (addresses (startupJournal s)) + H)"
    and k: "k = int (length (r_body result))"
    and ready: "startupSteps s < 40" "\<not> realtime s" "\<not> startupInvalid s"
    and s1: "startupJournal s1 = startupJournal s" "startupSteps s1 = startupSteps s" "realtime s1 = realtime s"
      "startupInvalid s1 = startupInvalid s" "authed s1" "startupBytes s1 = startupBytes s + k"
    and counts: "up s1 = (if even (startupSteps s) then up s + 1 else up s)"
      "down s1 = (if even (startupSteps s) then down s else down s + 1)"
    and slot: "slot_ok (st\<lparr>results := results st @ [result\<lparr>refs := 2\<rparr>]\<rparr>) (startupSteps s) (length (results st))"
    and commit: "startup_commit (s1, st) result (startupSteps s) later = (s', st')"
  shows "startup_keeps st (add_mset (length (results st)) H) s' st'
    \<and> startupJournal s' = (startupJournal s)[startupSteps s := Some (length (results st))]"
proof -
  let ?a = "length (results st)" and ?n = "startupSteps s" and ?j = "startupJournal s"
  have len: "length ?j = 40" using inv by (simp add: sess_inv_def)
  have none: "?j ! ?n = None" using inv ready(1) unfolding sess_inv_def by (metis less_irrefl option.exhaust)
  have st': "st' = st\<lparr>results := results st @ [result\<lparr>refs := 2\<rparr>]\<rparr>"
    and j': "startupJournal s' = ?j[?n := Some ?a]" and steps: "startupSteps s' = ?n + 1"
    and rest: "realtime s' = realtime s" "startupInvalid s' = startupInvalid s" "authed s'" "up s' = up s1" "down s' = down s1"
      "startupBytes s' = startupBytes s + k"
    using commit s1 by (auto simp: startup_commit_def)
  have same: "same_content st st'" unfolding st' by (rule same_content_append)
  have upd: "mset (addresses (?j[?n := Some ?a])) = add_mset ?a (mset (addresses ?j))"
    using len ready(1) none by (intro addresses_update) auto
  have "journal_bytes st' (?j[?n := Some ?a]) = journal_bytes st' ?j + k"
    using k by (simp add: journal_bytes_def upd st')
  then have bytes: "startupBytes s' = journal_bytes st' (startupJournal s')"
    using rest(6) j' inv journal_bytes_same [OF same sess_inv_addresses [OF inv]] by (simp add: sess_inv_def)
  have old: "\<And>i a. i < 40 \<Longrightarrow> ?j ! i = Some a \<Longrightarrow> i < ?n \<and> slot_ok st' i a" "\<And>i. i < ?n \<Longrightarrow> ?j ! i \<noteq> None"
    using inv ready slot_ok_same [OF same] unfolding sess_inv_def by auto
  have words: "unat (up s) = (?n + 1) div 2" "unat (down s) = ?n div 2" using inv ready(2) by (auto simp: sess_inv_def)
  then have "unat (up s') = (startupSteps s' + 1) div 2 \<and> unat (down s') = startupSteps s' div 2"
    using ready(1) counts rest steps unat_Suc_small [of "up s"] unat_Suc_small [of "down s"] by auto
  then have "sess_inv st' s'"
    unfolding sess_inv_def using len ready(1) steps rest(3) bytes old slot j' st'
    by (auto simp: nth_list_update less_Suc_eq)
  moreover have "store_inv 0 st' (mset (addresses (startupJournal s')) + add_mset ?a H)"
    using commit_inv [OF store k] by (simp add: st' j' upd)
  ultimately show ?thesis using same j' by (simp add: startup_keeps_def)
qed

section \<open>Uploads and downloads\<close>

lemma startup_auth_Some:
  "startup_auth sha hashes s frames = Some (s1, fs) \<Longrightarrow> s1 = s \<or> s1 = s\<lparr>authed := True\<rparr>"
  by (auto simp: startup_auth_def split: list.splits if_splits)

lemma sess_inv_authed: "sess_inv st s \<Longrightarrow> sess_inv st (s\<lparr>authed := True\<rparr>)"
  by (simp add: sess_inv_def)

lemma upload_keeps:
  assumes inv: "sess_inv st s" and store: "store_inv 0 st (mset (addresses (startupJournal s)) + H)"
    and up: "startup_upload sha hashes (s, st) body frames filler = ((s1, st1), step)"
  shows "case step of
      St_refused reply \<Rightarrow> startup_keeps st H s1 st1 \<and> (\<forall>a. reply \<noteq> S_result a)
    | St_new result fs n \<Rightarrow> st1 = st \<and> r_body result = [] \<and> status result = 204 \<and> digest result = sha body
        \<and> (\<exists>p. s1 = s\<lparr>authed := True, s_peer := p, up := up s + 1, wake := True\<rparr>)"
proof (cases "startup_auth sha hashes s frames")
  case None
  then show ?thesis using up inv store by (auto simp: startup_upload_def startup_keeps_def)
next
  case (Some x)
  obtain s0 fs where x: "x = (s0, fs)" by force
  have s0: "s0 = s \<or> s0 = s\<lparr>authed := True\<rparr>" using startup_auth_Some Some x by simp
  have inv0: "sess_inv st s0" and j0: "startupJournal s0 = startupJournal s" and up0: "up s0 = up s"
    using s0 inv sess_inv_authed by auto
  obtain p q where rc: "Receive (s_peer s0) fs = (p, q)" by force
  show ?thesis
  proof (cases "\<not> authed s0 \<or> (length fs > 0 \<and> startupSteps s0 < 2)")
    case True
    then show ?thesis
      using up Some x inv0 j0 store by (auto simp: startup_upload_def startup_keeps_def)
  next
    case False
    show ?thesis
    proof (cases q)
      case (Ok u)
      have "s0\<lparr>s_peer := p, up := up s0 + 1, wake := True\<rparr> = s\<lparr>authed := True, s_peer := p, up := up s + 1, wake := True\<rparr>"
        using s0 False by (cases s) auto
      then have "s1 = s\<lparr>authed := True, s_peer := p, up := up s + 1, wake := True\<rparr>" "st1 = st"
        "step = St_new \<lparr>refs = 0, digest = sha body, r_body = [], status = 204\<rparr> fs filler"
        using up Some x False rc Ok by (auto simp: startup_upload_def)
      then show ?thesis by auto
    next
      case (Fail e)
      then have "clearStartupLocked (s0\<lparr>s_peer := Close p, startupInvalid := True\<rparr>, st) = (s1, st1)"
        and step: "step = St_refused S_reject"
        using up Some x False rc by (auto simp: startup_upload_def)
      then have "startup_keeps st H s1 st1"
        using clear_keeps [of st "s0\<lparr>s_peer := Close p, startupInvalid := True\<rparr>" H s1 st1] inv0 j0 store
        by (simp add: sess_inv_invalid)
      then show ?thesis using step by simp
    next
      case Panic
      then show ?thesis
        using up Some x False rc inv0 j0 store by (auto simp: startup_upload_def startup_keeps_def)
    qed
  qed
qed

lemma Encode_no_panic: "fills rand \<Longrightarrow> Encode rand seq capacity fs \<noteq> Panic"
  by (auto simp: Encode_eq split: option.splits)

lemma slots_pos: "n < 20 \<Longrightarrow> 0 < startupSlots ! n"
  unfolding startupSlots_def by (auto simp: less_Suc_eq numeral_eq_Suc)

lemma download_keeps:
  assumes inv: "sess_inv st s" and store: "store_inv 0 st (mset (addresses (startupJournal s)) + H)"
    and rand: "fills rand" and round: "round < 20"
    and down: "startup_download sha rand identity (s, st) body round = ((s1, st1), step)"
  shows "case step of
      St_refused reply \<Rightarrow> startup_keeps st H s1 st1 \<and> (\<forall>a. reply \<noteq> S_result a)
    | St_new result fs n \<Rightarrow> results st1 = results st
        \<and> store_inv (startupSlots ! round) st1 (mset (addresses (startupJournal s)) + H)
        \<and> status result = 200 \<and> digest result = sha body \<and> length (r_body result) = nat (startupSlots ! round)
        \<and> (\<exists>k. Decode (r_body result) = Ok (Session.down s, fs, k))
        \<and> (\<exists>p. s1 = s\<lparr>s_peer := p, startupBytes := startupBytes s + startupSlots ! round, down := Session.down s + 1\<rparr>)"
proof -
  let ?c = "startupSlots ! round"
  obtain st0 ok where res: "reserveStartupBytes ?c st = (st0, ok)" by force
  note resv = reserve_inv [OF store res]
  have same0: "same_content st st0" using resv by (simp add: same_content_def)
  have inv0: "sess_inv st0 s" by (rule sess_inv_same [OF same0 inv])
  show ?thesis
  proof (cases ok)
    case False
    then show ?thesis
      using down res resv inv0 same0 by (auto simp: startup_download_def startup_keeps_def Let_def)
  next
    case True
    obtain p fs where take: "(if Session.down s = 0
        then (s_peer s, [\<lparr>Kind = HelloK, Stream = 0, Sequence = 0,
            Body = to_bytes (transportIdentity @ [char_of (10 :: nat)] @ identity)\<rparr>])
        else Take (s_peer s) (?c - int Header)) = (p, fs)" by force
    have st0: "store_inv ?c st0 (mset (addresses (startupJournal s)) + H)" "results st0 = results st"
      using resv True by simp_all
    show ?thesis
    proof (cases "Encode rand (Session.down s) ?c fs")
      case (Ok cell)
      then show ?thesis
        using down res True take st0 encode_Ok [OF rand Ok] by (auto simp: startup_download_def Let_def)
    next
      case (Fail e)
      let ?s = "s\<lparr>s_peer := p, startupInvalid := True\<rparr>"
      let ?st = "st0\<lparr>startupJournalBytes := startupJournalBytes st0 - ?c\<rparr>"
      obtain s2 st2 where clear: "clearStartupLocked (?s, ?st) = (s2, st2)" by force
      have eq: "s1 = s2\<lparr>s_peer := Close (s_peer s2)\<rparr>" "st1 = st2" "step = St_refused (S_error e)"
        using down res True take Fail clear by (auto simp: startup_download_def Let_def)
      have "same_content st ?st" using st0(2) by (simp add: same_content_def)
      moreover have "sess_inv ?st ?s" by (simp add: sess_inv_invalid sess_inv_same [OF \<open>same_content st ?st\<close> inv])
      moreover have "store_inv 0 ?st (mset (addresses (startupJournal ?s)) + H)"
        using unreserve_inv [OF _ st0(1)] slots_pos [OF round] by simp
      ultimately have "startup_keeps st H s1 st1"
        using clear_keeps [OF _ _ _ clear, of H] by (auto simp: startup_keeps_def eq intro: same_content_trans)
      then show ?thesis using eq by simp
    qed (use Encode_no_panic [OF rand] in blast)
  qed
qed


section \<open>The handler\<close>

lemma startup_round_bound: "startup_round r sequence = Some round \<Longrightarrow> round < 20"
proof -
  have n: "length startupSlots = 20" by (simp add: startupSlots_def)
  assume "startup_round r sequence = Some round"
  then show ?thesis
    by (auto simp: startup_round_def n word_le_nat_alt split: if_splits outcome.splits)
qed

text \<open>The result that a request is answered with gets one more holder, its writer.\<close>

definition reply_holds :: "startup_reply \<Rightarrow> nat multiset" where
  "reply_holds reply = (case reply of S_result a \<Rightarrow> {#a#} | _ \<Rightarrow> {#})"

lemma reply_holds_none: "(\<And>a. reply \<noteq> S_result a) \<Longrightarrow> reply_holds reply = {#}"
  by (cases reply) (auto simp: reply_holds_def)

lemma slot_ok_new:
  "slot_ok (st\<lparr>results := results st @ [result\<lparr>refs := 2\<rparr>]\<rparr>) i (length (results st)) \<longleftrightarrow>
     (if even i then r_body result = [] \<and> status result = 204
      else status result = 200 \<and> length (r_body result) = nat (startupSlots ! (i div 2))
        \<and> (\<exists>frames n. Decode (r_body result) = Ok (of_nat (i div 2), frames, n)))"
  by (simp add: slot_ok_def)

lemma upload_commit_keeps:
  assumes inv: "sess_inv st s" and store: "store_inv 0 st (mset (addresses (startupJournal s)) + H)"
    and ready: "startupSteps s < 40" "\<not> realtime s" "\<not> startupInvalid s" and even: "even (startupSteps s)"
    and up: "startup_upload sha hashes (s, st) body frames filler = ((s1, st1), St_new result fs n)"
    and commit: "startup_commit (s1, st1) result (startupSteps s) later = (s', st')"
  shows "startup_keeps st (add_mset (length (results st1)) H) s' st'"
proof -
  from upload_keeps [OF inv store up] obtain p where
    s1: "s1 = s\<lparr>authed := True, s_peer := p, up := Session.up s + 1, wake := True\<rparr>" and st1: "st1 = st"
    and r: "r_body result = []" "status result = 204" by auto
  have "slot_ok (st\<lparr>results := results st @ [result\<lparr>refs := 2\<rparr>]\<rparr>) (startupSteps s) (length (results st))"
    using r even by (simp add: slot_ok_new)
  from commit_keeps [OF inv store _ ready _ _ _ _ _ _ _ _ this commit [unfolded st1]] show ?thesis
    using s1 st1 r even by auto
qed

lemma download_commit_keeps:
  assumes inv: "sess_inv st s" and store: "store_inv 0 st (mset (addresses (startupJournal s)) + H)"
    and rand: "fills rand"
    and ready: "startupSteps s < 40" "\<not> realtime s" "\<not> startupInvalid s" and odd: "odd (startupSteps s)"
    and down: "startup_download sha rand identity (s, st) body (startupSteps s div 2) = ((s1, st1), St_new result fs n)"
    and commit: "startup_commit (s1, st1) result (startupSteps s) later = (s', st')"
  shows "startup_keeps st (add_mset (length (results st1)) H) s' st'"
proof -
  let ?c = "startupSlots ! (startupSteps s div 2)"
  have round: "startupSteps s div 2 < 20" using ready(1) by simp
  from download_keeps [OF inv store rand round down] obtain p where
    s1: "s1 = s\<lparr>s_peer := p, startupBytes := startupBytes s + ?c, down := Session.down s + 1\<rparr>"
    and res: "results st1 = results st" and store1: "store_inv ?c st1 (mset (addresses (startupJournal s)) + H)"
    and r: "status result = 200" "length (r_body result) = nat ?c" "\<exists>fs k. Decode (r_body result) = Ok (Session.down s, fs, k)"
    by auto
  have same: "same_content st st1" using res by (simp add: same_content_def)
  have dn: "unat (Session.down s) = startupSteps s div 2" and au: "authed s"
    using inv ready(2) odd by (auto simp: sess_inv_def dest: odd_pos)
  have "of_nat (unat (Session.down s)) = Session.down s" by simp
  then have "Session.down s = of_nat (startupSteps s div 2)" unfolding dn by (rule sym)
  then have slot: "slot_ok (st1\<lparr>results := results st1 @ [result\<lparr>refs := 2\<rparr>]\<rparr>) (startupSteps s) (length (results st1))"
    using r odd by (auto simp: slot_ok_new)
  have "?c = int (length (r_body result))" using r(2) slots_pos [OF round] by simp
  from commit_keeps [OF sess_inv_same [OF same inv] store1 this ready _ _ _ _ _ _ _ _ slot commit] show ?thesis
    using s1 odd au same by (auto simp: startup_keeps_def intro: same_content_trans)
qed

lemma startup_new_keeps:
  assumes inv: "sess_inv st s" and store: "store_inv 0 st (mset (addresses (startupJournal s)) + H)"
    and rand: "fills rand" and ready: "\<not> realtime s" "\<not> startupInvalid s" and r20: "round < 20"
    and run: "startup_new sha hashes rand identity later t (s, st) r body sequence frames filler round
        (round * 2 + (if is_upload r then 0 else 1)) = (t', (s', st'), reply)"
  shows "startup_keeps st (reply_holds reply + H) s' st'"
proof (cases "round * 2 + (if is_upload r then 0 else 1) = startupSteps s
    \<and> \<not> ((is_upload r \<and> sequence \<noteq> up s) \<or> (\<not> is_upload r \<and> of_nat round \<noteq> down s))")
  case False
  then show ?thesis
    using run inv store by (auto simp: startup_new_def Let_def startup_keeps_def reply_holds_def)
next
  case True
  then have steps: "startupSteps s < 40" "even (startupSteps s) = is_upload r" "startupSteps s div 2 = round"
    using r20 by (auto split: if_splits) presburger+
  define x where "x = (if is_upload r then startup_upload sha hashes (s, st) body frames filler
      else startup_download sha rand identity (s, st) body round)"
  obtain s1 st1 step where x: "x = ((s1, st1), step)" by (metis surj_pair)
  show ?thesis
  proof (cases step)
    case (St_refused reply')
    then have "s' = s1" "st' = st1" "reply = reply'" using run True x by (auto simp: startup_new_def Let_def x_def)
    then show ?thesis
      using upload_keeps [OF inv store, of sha hashes body frames filler s1 st1 step]
        download_keeps [OF inv store rand r20, of sha identity body s1 st1 step] x St_refused
      by (cases "is_upload r") (auto simp: x_def reply_holds_none)
  next
    case (St_new result fs n)
    then have "startup_commit (s1, st1) result (startupSteps s) later = (s', st')" "reply = S_result (length (results st1))"
      using run True x by (auto simp: startup_new_def Let_def x_def)
    then show ?thesis
      using upload_commit_keeps [OF inv store steps(1) ready] download_commit_keeps [OF inv store rand steps(1) ready]
        steps(2,3) x St_new by (cases "is_upload r") (auto simp: x_def reply_holds_def)
  qed
qed

lemma startup_keeps_inv:
  assumes inv: "sess_inv st s" and store: "store_inv 0 st (mset (addresses (startupJournal s)) + H)"
    and rand: "fills rand"
    and run: "startup sha hashes rand identity now later t (s, st) r body sequence frames filler = (t', (s', st'), reply)"
  shows "startup_keeps st (reply_holds reply + H) s' st'"
proof (cases "startup_round r sequence")
  case None
  then show ?thesis using run inv store by (auto simp: startup_def reply_holds_def startup_keeps_def)
next
  case (Some round)
  have r20: "round < 20" by (rule startup_round_bound [OF Some])
  let ?i = "round * 2 + (if is_upload r then 0 else 1)"
  let ?refuse = "realtime s \<or> startupInvalid s \<or> over r \<or> peer_closed (s_peer s)"
  let ?late = "case startupDeadline s of None \<Rightarrow> False | Some d \<Rightarrow> \<not> now < d"
  consider (refuse) ?refuse | (late) "\<not> ?refuse" ?late | (go) "\<not> ?refuse" "\<not> ?late" by blast
  then show ?thesis
  proof cases
    case refuse
    then show ?thesis using run inv store Some by (auto simp: startup_def reply_holds_def startup_keeps_def Let_def)
  next
    case late
    obtain s2 st2 where clear: "clearStartupLocked (s\<lparr>startupInvalid := True\<rparr>, st) = (s2, st2)" by force
    then have "s' = s2\<lparr>s_peer := Close (s_peer s2)\<rparr>" "st' = st2" "reply = S_reject"
      using run late Some by (auto simp: startup_def Let_def)
    then show ?thesis
      using clear_keeps [OF sess_inv_invalid [OF inv] _ _ clear, of H] store by (simp add: reply_holds_def)
  next
    case go
    show ?thesis
    proof (cases "startupJournal s ! ?i")
      case replay: (Some a)
      have "a \<in> set (addresses (startupJournal s))"
        unfolding addresses_set using inv r20 replay by (auto simp: sess_inv_def in_set_conv_nth intro!: exI [of _ ?i])
      then have "a \<in># mset (addresses (startupJournal s)) + H" by simp
      from retain_inv [OF store this] have "startup_keeps st (add_mset a H) s (retain st a)"
        using inv sess_inv_same by (auto simp: startup_keeps_def)
      then show ?thesis
        using run go Some replay inv store by (auto simp: startup_def reply_holds_def startup_keeps_def Let_def split: if_splits)
    next
      case None
      then have "startup_new sha hashes rand identity later t (s, st) r body sequence frames filler round ?i = (t', (s', st'), reply)"
        using run go Some by (simp add: startup_def Let_def)
      from startup_new_keeps [OF inv store rand _ _ r20 this] go show ?thesis by simp
    qed
  qed
qed

end
