(* ===== verification/Carrier.thy ===== *)
theory Carrier
  imports Startup
begin

text \<open>
  The two carriers that follow startup: the WebSocket of \<^verbatim>\<open>realtime.go\<close> and the HTTP/3 stream with
  its ordered uploads of \<^verbatim>\<open>h3.go\<close>. The WebSocket library, reading and writing of messages and the
  clock are parameters. A handler is the sequence of its locked sections.
\<close>

section \<open>Admission\<close>

text \<open>\<open>Before\<close> of a deadline that is not set is false.\<close>

definition before_deadline :: "int \<Rightarrow> int option \<Rightarrow> bool" where
  "before_deadline now d = (case d of None \<Rightarrow> False | Some d \<Rightarrow> now < d)"

definition startup_done :: "session \<Rightarrow> int \<Rightarrow> bool" where
  "startup_done s now \<longleftrightarrow> \<not> realtime s \<and> \<not> startupInvalid s \<and> before_deadline now (startupDeadline s)
     \<and> startupSteps s = 40 \<and> up s \<ge> 20 \<and> down s \<ge> 20"

text \<open>The request goes to the next handler, is rejected, fails, or the carrier is admitted.\<close>

datatype admission = A_decline | A_reject | A_error string | A_ok

definition realtimeProtocol :: string where "realtimeProtocol = ''naivefox''"

definition realtime_admit ::
  "session \<times> startup_store \<Rightarrow> request \<Rightarrow> string list \<Rightarrow> int \<Rightarrow> (session \<times> startup_store) \<times> admission" where
  "realtime_admit x r offered now =
     (case x of (s, st) \<Rightarrow>
      if \<not> authed s then (x, A_decline)
      else if Method r \<noteq> ''GET'' \<or> ProtoMajor r \<noteq> 1 \<or> \<not> TLS r then (x, A_reject)
      else
        let protocol = (if list_ex (\<lambda>offer. offer = realtimeProtocol) offered then realtimeProtocol else []);
            ready = (\<not> h3 s \<and> protocol \<noteq> [] \<and> startup_done s now \<and> \<not> peer_closed (s_peer s))
        in if ready then (clearStartupLocked (s\<lparr>realtime := True\<rparr>, st), A_ok)
           else (x, A_reject))"

text \<open>\<open>CheckOrigin\<close> on the parsed origin; the parser of \<^verbatim>\<open>net/url\<close> is a parameter.\<close>

record origin_url =
  o_scheme :: string
  o_host :: string
  o_user :: bool
  o_path :: string
  o_query :: string
  o_fragment :: string

definition CheckOrigin :: "(string \<Rightarrow> origin_url option) \<Rightarrow> string \<Rightarrow> string \<Rightarrow> bool" where
  "CheckOrigin parse_url origin host =
     (case parse_url origin of
        None \<Rightarrow> False
      | Some u \<Rightarrow> o_scheme u = ''https'' \<and> o_host u = host \<and> \<not> o_user u \<and> o_path u = [] \<and> o_query u = []
          \<and> o_fragment u = [])"

text \<open>
  After the upgrade the carrier is counted. The maps of the WebSocket counters are made on first use; counting
  the subprotocol in a map that is nil would panic.
\<close>

definition realtime_upgraded ::
  "counters \<times> session \<Rightarrow> string \<Rightarrow> (counters \<times> session) \<times> (string, unit) outcome" where
  "realtime_upgraded ts protocol =
     (case ts of (t, s) \<Rightarrow>
      let s = s\<lparr>realtimeConn := True, wsStartupUp := up s, wsStartupDown := down s\<rparr>;
          t = (if WSOpened t = 0 then t\<lparr>WSStartupMinUp := up s, WSStartupMinDown := down s\<rparr>
               else t\<lparr>WSStartupMinUp := min (WSStartupMinUp t) (up s), WSStartupMinDown := min (WSStartupMinDown t) (down s)\<rparr>);
          t = t\<lparr>WSOpened := WSOpened t + 1\<rparr>;
          t = (if WSCellCapacities t = None then t\<lparr>WSCellCapacities := Some (\<lambda>_. 0)\<rparr> else t);
          t = (if WSSubprotocols t = None then t\<lparr>WSSubprotocols := Some (\<lambda>_. 0)\<rparr> else t)
      in case WSSubprotocols t of
           None \<Rightarrow> ((t, s), Panic)
         | Some m \<Rightarrow>
             ((t\<lparr>WSSubprotocols := Some (bump protocol m),
                 Requests := bump ''GET /api/realtime'' (Requests t), Protocols := bump ''HTTP/1.1'' (Protocols t)\<rparr>, s),
              Ok ()))"

text \<open>
  One turn of the reader of a WebSocket, with what \<^verbatim>\<open>ReadMessage\<close> returned, or nothing on an error,
  and the time it was handled: the reader goes on, returns, or panics.
\<close>

definition ws_message ::
  "counters \<times> session \<Rightarrow> int \<Rightarrow> (bool \<times> bytes) option \<Rightarrow> (counters \<times> session) \<times> (string, bool) outcome" where
  "ws_message ts now msg =
     (case msg of
        None \<Rightarrow> (ts, Ok False)
      | Some (binary, body) \<Rightarrow>
          if \<not> binary then (ts, Ok False)
          else (case receiveRealtime ts now body of
              (ts, Ok _) \<Rightarrow> (ts, Ok True)
            | (ts, Fail _) \<Rightarrow> (ts, Ok False)
            | (ts, Panic) \<Rightarrow> (ts, Panic)))"

fun ws_reader ::
  "counters \<times> session \<Rightarrow> (int \<times> (bool \<times> bytes) option) list \<Rightarrow> (counters \<times> session) \<times> (string, bool) outcome" where
  "ws_reader ts [] = (ts, Ok True)"
| "ws_reader ts ((now, msg) # rest) =
     (case ws_message ts now msg of
        (ts, Ok True) \<Rightarrow> ws_reader ts rest
      | (ts, r) \<Rightarrow> (ts, r))"

text \<open>
  One turn of the loop that sends cells, from the locked section to the counters; \<open>wrote\<close> says whether the
  write succeeded. The loop goes on, returns, or panics.
\<close>

definition writeCells ::
  "(nat \<Rightarrow> bytes option) \<Rightarrow> counters \<times> session \<Rightarrow> int \<Rightarrow> bool \<Rightarrow> bool \<Rightarrow> (counters \<times> session) \<times> (string, bool) outcome" where
  "writeCells rand ts now idleHeartbeat wrote =
     (case ts of (t, s) \<Rightarrow>
      case write_cell rand s now idleHeartbeat of
        (s, T_stop) \<Rightarrow> ((t, s), Ok False)
      | (s, T_again) \<Rightarrow> ((t, s), Ok True)
      | (s, T_wait) \<Rightarrow> ((t, s), Ok True)
      | (s, T_error _) \<Rightarrow> ((t, s), Ok False)
      | (s, T_panic) \<Rightarrow> ((t, s), Panic)
      | (s, T_cell body frames capacity) \<Rightarrow>
          if \<not> wrote then ((t, s), Ok False)
          else (case count_download t s idleHeartbeat body frames capacity of
              Ok t \<Rightarrow> ((t, s), Ok True)
            | Fail e \<Rightarrow> ((t, s), Fail e)
            | Panic \<Rightarrow> ((t, s), Panic)))"

definition realtime_closed :: "counters \<times> session \<times> startup_store \<Rightarrow> counters \<times> session \<times> startup_store" where
  "realtime_closed x = (case x of (t, s, st) \<Rightarrow> (t\<lparr>WSClosed := WSClosed t + 1\<rparr>, session_close (s, st)))"

section \<open>The HTTP/3 stream\<close>

definition maxPendingUploads :: nat where "maxPendingUploads = unat HTTP3Window div 131072"

definition h3_admit ::
  "counters \<Rightarrow> session \<times> startup_store \<Rightarrow> request \<Rightarrow> int \<Rightarrow> counters \<times> (session \<times> startup_store) \<times> admission" where
  "h3_admit t x r now =
     (case x of (s, st) \<Rightarrow>
      if \<not> authed s then (t, x, A_decline)
      else if h3 s \<and> Method r = ''GET'' \<and> ProtoMajor r = 3 \<and> TLS r \<and> startup_done s now \<and> \<not> peer_closed (s_peer s)
      then (case clearStartupLocked (s\<lparr>realtime := True, h3 := True\<rparr>, st) of
          (s, st) \<Rightarrow>
            (t\<lparr>H3Opened := H3Opened t + 1, Requests := bump ''GET /api/stream'' (Requests t),
               Protocols := bump ''HTTP/3.0'' (Protocols t)\<rparr>,
             (s\<lparr>realtimeConn := True, pendingUploads := Some [], wsStartupUp := up s, wsStartupDown := down s\<rparr>, st), A_ok))
      else (t, x, A_reject))"

text \<open>The bytes a cell is sent as: its length, then the cell.\<close>

definition h3_write :: "bytes \<Rightarrow> bytes" where
  "h3_write body = put_u32 (of_nat (length body)) @ body"

definition h3_closed :: "counters \<times> session \<times> startup_store \<Rightarrow> counters \<times> session \<times> startup_store" where
  "h3_closed x = (case x of (t, s, st) \<Rightarrow> (t\<lparr>H3Closed := H3Closed t + 1\<rparr>, session_close (s, st)))"

section \<open>HTTP/3 uploads\<close>

text \<open>Entering takes an upload slot, and leaving gives it back.\<close>

definition h3Upload_enter :: "session \<Rightarrow> request \<Rightarrow> session \<times> bool \<times> admission" where
  "h3Upload_enter s r =
     (let ready = (h3 s \<and> realtime s \<and> h3Active s < maxPendingUploads);
          s' = (if ready then s\<lparr>h3Active := h3Active s + 1\<rparr> else s)
      in if \<not> authed s then (s', ready, A_decline)
         else if \<not> ready \<or> Method r \<noteq> ''POST'' \<or> ProtoMajor r \<noteq> 3 \<or> \<not> TLS r then (s', ready, A_reject)
         else (s', ready, A_ok))"

definition h3Upload_leave :: "session \<Rightarrow> bool \<Rightarrow> session" where
  "h3Upload_leave s ready = (if ready then s\<lparr>h3Active := h3Active s - 1\<rparr> else s)"

text \<open>The entry at a sequence number, and the table without it.\<close>

definition drop_pending :: "u32 \<Rightarrow> (u32 \<times> pendingUpload) list \<Rightarrow> (u32 \<times> pendingUpload) list" where
  "drop_pending k ps = filter (\<lambda>p. fst p \<noteq> k) ps"

lemma drop_pending_less [termination_simp]: "map_of ps k = Some p \<Longrightarrow> length (drop_pending k ps) < length ps"
proof -
  assume "map_of ps k = Some p"
  then have "(k, p) \<in> set ps" by (rule map_of_SomeD)
  then show ?thesis unfolding drop_pending_def by (rule length_filter_less) simp
qed

text \<open>
  Applying what is pending from the next sequence number on. \<open>ended\<close> says whose request context is
  over. The result lists the uploads that were finished, each with its request and its error.
\<close>

function apply_pending ::
  "(nat \<Rightarrow> bool) \<Rightarrow> int \<Rightarrow> counters \<times> session \<times> startup_store \<Rightarrow> u32
     \<Rightarrow> (counters \<times> session \<times> startup_store) \<times> (string, (u32 \<times> nat \<times> string option) list) outcome" where
  "apply_pending ended now (t, s, st) seq =
     (case pendingUploads s of
        None \<Rightarrow> ((t, s, st), Ok [])
      | Some ps \<Rightarrow>
          (case map_of ps seq of
             None \<Rightarrow> ((t, s, st), Ok [])
           | Some current \<Rightarrow>
               let (ts, err) =
                     (if ended (p_ctx current) then ((t, s), Ok (Some ''context canceled''))
                      else case receiveRealtime (t, s) now (p_body current) of
                        (ts, Ok _) \<Rightarrow> (ts, Ok None)
                      | (ts, Fail e) \<Rightarrow> (ts, Ok (Some e))
                      | (ts, Panic) \<Rightarrow> (ts, Panic));
                   s = (snd ts)\<lparr>pendingUploads := Some (drop_pending seq ps)\<rparr>
               in case err of
                    Ok None \<Rightarrow>
                      (case apply_pending ended now (fst ts, s, st) (seq + 1) of
                         (x, Ok applied) \<Rightarrow> (x, Ok ((seq, p_ctx current, None) # applied))
                       | (x, Fail e) \<Rightarrow> (x, Fail e)
                       | (x, Panic) \<Rightarrow> (x, Panic))
                  | Ok (Some e) \<Rightarrow>
                      (case session_close (s, st) of (s, st) \<Rightarrow> ((fst ts, s, st), Ok [(seq, p_ctx current, Some e)]))
                  | Fail e \<Rightarrow> ((fst ts, snd ts, st), Fail e)
                  | Panic \<Rightarrow> ((fst ts, snd ts, st), Panic)))"
  by pat_completeness auto
termination
  by (relation "measure (\<lambda>(_, _, (_, s, _), _). case pendingUploads s of None \<Rightarrow> 0 | Some ps \<Rightarrow> length ps)")
     (auto simp: drop_pending_less)

definition upload_capacity_h3 :: "nat \<Rightarrow> bool" where
  "upload_capacity_h3 n \<longleftrightarrow> n = 512 \<or> n = 4096 \<or> n = 16384 \<or> n = 131072"

text \<open>
  \<open>orderedUpload\<close> up to the wait: an error that the request returns at once, or the state with the
  upload in the table and everything applied that is in sequence.
\<close>

definition orderedUpload ::
  "(nat \<Rightarrow> bool) \<Rightarrow> int \<Rightarrow> counters \<times> session \<times> startup_store \<Rightarrow> nat \<Rightarrow> bytes
     \<Rightarrow> (counters \<times> session \<times> startup_store) \<times> (string, (u32 \<times> nat \<times> string option) list) outcome" where
  "orderedUpload ended now x ctx body =
     (case x of (t, s, st) \<Rightarrow>
      if ended ctx then (x, Fail ''context canceled'')
      else if \<not> upload_capacity_h3 (length body) then (x, Fail ''upload capacity'')
      else case Decode body of
        Fail e \<Rightarrow> (x, Fail e)
      | Panic \<Rightarrow> (x, Panic)
      | Ok (sequence, _, _) \<Rightarrow>
          let seq = up s; pend = (case pendingUploads s of None \<Rightarrow> [] | Some ps \<Rightarrow> ps) in
          if sequence < seq \<or> unat sequence - unat seq \<ge> maxPendingUploads
             \<or> length pend \<ge> maxPendingUploads \<or> map_of pend sequence \<noteq> None
          then (x, Fail ''upload sequence outside pipeline'')
          else case pendingUploads s of
            None \<Rightarrow> (x, Panic)
          | Some ps \<Rightarrow>
              let s = s\<lparr>pendingUploads := Some ((sequence, \<lparr>p_ctx = ctx, p_body = body\<rparr>) # ps)\<rparr>
              in apply_pending ended now (t, s, st) seq)"

text \<open>The deferred cleanup removes the upload if it is still the request's own.\<close>

definition orderedUpload_leave :: "session \<Rightarrow> u32 \<Rightarrow> nat \<Rightarrow> session" where
  "orderedUpload_leave s sequence ctx =
     (case pendingUploads s of
        None \<Rightarrow> s
      | Some ps \<Rightarrow>
          (case map_of ps sequence of
             Some p \<Rightarrow> if p_ctx p = ctx then s\<lparr>pendingUploads := Some (drop_pending sequence ps)\<rparr> else s
           | None \<Rightarrow> s))"

text \<open>What ends the wait: the upload was finished, its context ended, the carrier closed, or time is up.\<close>

datatype upload_wait = Finished "string option" | Ctx_done | Carrier_done | Timed_out

fun orderedUpload_result :: "upload_wait \<Rightarrow> string option" where
  "orderedUpload_result (Finished e) = e"
| "orderedUpload_result Ctx_done = Some ''context canceled''"
| "orderedUpload_result Carrier_done = Some ''carrier closed''"
| "orderedUpload_result Timed_out = Some ''upload sequence timeout''"

text \<open>After the body was read (or not): the reply's status, or an error of the handler.\<close>

definition h3Upload_finish ::
  "counters \<times> session \<times> startup_store \<Rightarrow> string option \<Rightarrow> string option
     \<Rightarrow> (counters \<times> session \<times> startup_store) \<times> (string, nat) outcome" where
  "h3Upload_finish x read_err upload_err =
     (case x of (t, s, st) \<Rightarrow>
      case read_err of
        Some e \<Rightarrow> ((t, session_close (s, st)), Fail e)
      | None \<Rightarrow>
          (case upload_err of
             Some e \<Rightarrow> ((reject_count t, session_close (s, st)), Ok 400)
           | None \<Rightarrow> (x, Ok 204)))"

end
