(* ===== verification/Startup_Properties.thy ===== *)
theory Startup_Properties
  imports Startup_Steps Carrier
begin

text \<open>
  The process during startup: all sessions, the shared store of results and the responses that are
  being written. Requests, writers, expiry, eviction and the opening of carriers interleave freely; the
  quota and the reference counts are exact in every state that such a run can reach.
\<close>

section \<open>The process\<close>

record startup_sys =
  sy_sessions :: "session list"
  sy_store :: startup_store
  sy_writers :: "nat list"

definition fresh_session :: "session \<Rightarrow> bool" where
  "fresh_session s \<longleftrightarrow> startupJournal s = replicate 40 None \<and> startupSteps s = 0 \<and> startupBytes s = 0
     \<and> up s = 0 \<and> down s = 0 \<and> \<not> realtime s"

text \<open>Traffic of an open carrier leaves the startup fields of its session alone.\<close>

definition carrier_traffic :: "session \<Rightarrow> session \<Rightarrow> bool" where
  "carrier_traffic s s' \<longleftrightarrow> realtime s \<and> realtime s' \<and> startupJournal s' = startupJournal s
     \<and> startupSteps s' = startupSteps s \<and> startupBytes s' = startupBytes s \<and> authed s' = authed s
     \<and> startupInvalid s' = startupInvalid s"

inductive sys_step ::
  "(bytes \<Rightarrow> bytes) \<Rightarrow> bytes list \<Rightarrow> (nat \<Rightarrow> bytes option) \<Rightarrow> string \<Rightarrow> startup_sys \<Rightarrow> startup_sys \<Rightarrow> bool"
  for sha hashes rand identity where
  sys_request: "i < length (sy_sessions y) \<Longrightarrow>
    startup sha hashes rand identity now later t (sy_sessions y ! i, sy_store y) r body sequence frames filler
      = (t', (s', st'), reply) \<Longrightarrow>
    sys_step sha hashes rand identity y
      (y\<lparr>sy_sessions := (sy_sessions y)[i := s'], sy_store := st',
         sy_writers := (case reply of S_result a \<Rightarrow> a # sy_writers y | _ \<Rightarrow> sy_writers y)\<rparr>)"
| sys_written: "a \<in> set (sy_writers y) \<Longrightarrow> writeStartup (t, sy_store y) a deadline wrote = ((t', st'), e) \<Longrightarrow>
    sys_step sha hashes rand identity y (y\<lparr>sy_store := st', sy_writers := remove1 a (sy_writers y)\<rparr>)"
| sys_close: "i < length (sy_sessions y) \<Longrightarrow> session_close (sy_sessions y ! i, sy_store y) = (s', st') \<Longrightarrow>
    sys_step sha hashes rand identity y (y\<lparr>sy_sessions := (sy_sessions y)[i := s'], sy_store := st'\<rparr>)"
| sys_websocket: "i < length (sy_sessions y) \<Longrightarrow>
    realtime_admit (sy_sessions y ! i, sy_store y) r offered now = ((s', st'), adm) \<Longrightarrow>
    sys_step sha hashes rand identity y (y\<lparr>sy_sessions := (sy_sessions y)[i := s'], sy_store := st'\<rparr>)"
| sys_http3: "i < length (sy_sessions y) \<Longrightarrow>
    h3_admit t (sy_sessions y ! i, sy_store y) r now = (t', (s', st'), adm) \<Longrightarrow>
    sys_step sha hashes rand identity y (y\<lparr>sy_sessions := (sy_sessions y)[i := s'], sy_store := st'\<rparr>)"
| sys_traffic: "i < length (sy_sessions y) \<Longrightarrow> carrier_traffic (sy_sessions y ! i) s' \<Longrightarrow>
    sys_step sha hashes rand identity y (y\<lparr>sy_sessions := (sy_sessions y)[i := s']\<rparr>)"
| sys_peer: "i < length (sy_sessions y) \<Longrightarrow>
    sys_step sha hashes rand identity y (y\<lparr>sy_sessions := (sy_sessions y)[i := (sy_sessions y ! i)\<lparr>s_peer := p\<rparr>]\<rparr>)"
| sys_new: "fresh_session s \<Longrightarrow>
    sys_step sha hashes rand identity y (y\<lparr>sy_sessions := s # sy_sessions y\<rparr>)"
| sys_evict: "i < length (sy_sessions y) \<Longrightarrow> \<not> authed (sy_sessions y ! i) \<Longrightarrow>
    sys_step sha hashes rand identity y
      (y\<lparr>sy_sessions := take i (sy_sessions y) @ drop (Suc i) (sy_sessions y)\<rparr>)"
| sys_expire: "i < length (sy_sessions y) \<Longrightarrow> session_close (sy_sessions y ! i, sy_store y) = (s', st') \<Longrightarrow>
    sys_step sha hashes rand identity y
      (y\<lparr>sy_sessions := take i (sy_sessions y) @ drop (Suc i) (sy_sessions y), sy_store := st'\<rparr>)"

definition sys_start :: "startup_sys \<Rightarrow> bool" where
  "sys_start y \<longleftrightarrow> y = \<lparr>sy_sessions = [], sy_store = \<lparr>startupJournalBytes = 0, results = []\<rparr>, sy_writers = []\<rparr>"

section \<open>The invariant\<close>

definition session_holds :: "session list \<Rightarrow> nat multiset" where
  "session_holds ss = mset (concat (map (\<lambda>s. addresses (startupJournal s)) ss))"

definition sys_inv :: "startup_sys \<Rightarrow> bool" where
  "sys_inv y \<longleftrightarrow> (\<forall>s \<in> set (sy_sessions y). sess_inv (sy_store y) s)
     \<and> store_inv 0 (sy_store y) (session_holds (sy_sessions y) + mset (sy_writers y))"

lemma session_holds_simps [simp]:
  "session_holds [] = {#}" "session_holds (s # ss) = mset (addresses (startupJournal s)) + session_holds ss"
  "session_holds (ss @ qs) = session_holds ss + session_holds qs"
  by (simp_all add: session_holds_def)

definition others :: "nat \<Rightarrow> session list \<Rightarrow> session list" where
  "others i ss = take i ss @ drop (Suc i) ss"

lemma session_holds_split:
  assumes "i < length ss"
  shows "session_holds ss = mset (addresses (startupJournal (ss ! i))) + session_holds (others i ss)"
    and "session_holds (ss[i := s]) = mset (addresses (startupJournal s)) + session_holds (others i ss)"
proof -
  have "ss = take i ss @ ss ! i # drop (Suc i) ss" using assms by (rule id_take_nth_drop)
  then have "session_holds ss = session_holds (take i ss @ ss ! i # drop (Suc i) ss)" by simp
  then show "session_holds ss = mset (addresses (startupJournal (ss ! i))) + session_holds (others i ss)"
    by (simp add: others_def)
  have "ss[i := s] = take i ss @ s # drop (Suc i) ss" using assms by (rule upd_conv_take_nth_drop)
  then have "session_holds (ss[i := s]) = session_holds (take i ss @ s # drop (Suc i) ss)" by (rule arg_cong)
  then show "session_holds (ss[i := s]) = mset (addresses (startupJournal s)) + session_holds (others i ss)"
    by (simp add: others_def)
qed

lemma others_subset: "set (others i ss) \<subseteq> set ss"
  by (auto simp: others_def dest: in_set_takeD in_set_dropD)

text \<open>A step of one session that keeps its own invariants keeps those of the process.\<close>

lemma sys_inv_session:
  assumes "sys_inv y" and "i < length (sy_sessions y)"
    and keeps: "\<And>H. store_inv 0 (sy_store y) (mset (addresses (startupJournal (sy_sessions y ! i))) + H) \<Longrightarrow>
      startup_keeps (sy_store y) (R + H) s' st'"
    and "mset ws = R + mset (sy_writers y)"
  shows "sys_inv (y\<lparr>sy_sessions := (sy_sessions y)[i := s'], sy_store := st', sy_writers := ws\<rparr>)"
proof -
  let ?H = "session_holds (others i (sy_sessions y)) + mset (sy_writers y)"
  have "store_inv 0 (sy_store y) (mset (addresses (startupJournal (sy_sessions y ! i))) + ?H)"
    using assms(1) session_holds_split(1) [OF assms(2)] by (simp add: sys_inv_def add.assoc)
  from keeps [OF this] have k: "startup_keeps (sy_store y) (R + ?H) s' st'" .
  have "\<forall>s \<in> set ((sy_sessions y)[i := s']). sess_inv st' s"
    using k assms(1) set_update_subset_insert [of "sy_sessions y" i s'] sess_inv_same
    by (fastforce simp: startup_keeps_def sys_inv_def)
  moreover have "store_inv 0 st' (session_holds ((sy_sessions y)[i := s']) + mset ws)"
    using k assms(4) session_holds_split(2) [OF assms(2)] by (simp add: startup_keeps_def ac_simps)
  ultimately show ?thesis by (simp add: sys_inv_def)
qed

lemma session_close_keeps:
  assumes "sess_inv st s" and "store_inv 0 st (mset (addresses (startupJournal s)) + H)"
    and "session_close (s, st) = (s', st')"
  shows "startup_keeps st H s' st' \<and> addresses (startupJournal s') = []"
proof -
  obtain s2 st2 where clear: "clearStartupLocked (s\<lparr>startupInvalid := True\<rparr>, st) = (s2, st2)" by force
  then have "s' = s2\<lparr>s_peer := Close (s_peer s2)\<rparr>" "st' = st2" using assms(3) by (auto simp: session_close_def)
  moreover have "store_inv 0 st (mset (addresses (startupJournal (s\<lparr>startupInvalid := True\<rparr>))) + H)"
    using assms(2) by simp
  ultimately show ?thesis
    using clear_inv [OF sess_inv_invalid [OF assms(1)] _ _ clear] by (simp add: startup_keeps_def)
qed

lemma sess_inv_open: "sess_inv st s \<Longrightarrow> sess_inv st (s\<lparr>realtime := True\<rparr>)"
  by (simp add: sess_inv_def)

lemma sess_inv_carrier [simp]:
  "sess_inv st (s\<lparr>realtimeConn := b, pendingUploads := ps, wsStartupUp := u, wsStartupDown := d\<rparr>) = sess_inv st s"
  "sess_inv st (s\<lparr>h3 := b\<rparr>) = sess_inv st s"
  by (simp_all add: sess_inv_def)

lemma open_keeps:
  assumes "sess_inv st s" and "store_inv 0 st (mset (addresses (startupJournal s)) + H)"
    and "clearStartupLocked (s\<lparr>realtime := True\<rparr>, st) = (s', st')"
  shows "startup_keeps st H s' st'"
  using clear_keeps [OF sess_inv_open [OF assms(1)] _ _ assms(3), of H] assms(2) by simp


lemma realtime_admit_keeps:
  assumes "sess_inv st s" and "store_inv 0 st (mset (addresses (startupJournal s)) + H)"
    and "realtime_admit (s, st) r offered now = ((s', st'), adm)"
  shows "startup_keeps st H s' st'"
  using assms open_keeps [OF assms(1,2)]
  by (auto simp: realtime_admit_def startup_keeps_def Let_def split: if_splits)

lemma h3_admit_keeps:
  assumes "sess_inv st s" and "store_inv 0 st (mset (addresses (startupJournal s)) + H)"
    and "h3_admit t (s, st) r now = (t', (s', st'), adm)"
  shows "startup_keeps st H s' st'"
proof (cases "authed s \<and> h3 s \<and> Method r = ''GET'' \<and> ProtoMajor r = 3 \<and> TLS r \<and> startup_done s now \<and> \<not> peer_closed (s_peer s)")
  case True
  obtain s2 st2 where clear: "clearStartupLocked (s\<lparr>realtime := True, h3 := True\<rparr>, st) = (s2, st2)" by force
  have "sess_inv st (s\<lparr>realtime := True, h3 := True\<rparr>)" using sess_inv_open [OF assms(1)] by (simp add: sess_inv_def)
  from clear_keeps [OF this _ _ clear, of H] have "startup_keeps st H s2 st2" using assms(2) by simp
  then show ?thesis using assms(3) True clear by (auto simp: h3_admit_def startup_keeps_def)
next
  case False
  then show ?thesis using assms by (auto simp: h3_admit_def startup_keeps_def split: if_splits)
qed

lemma traffic_keeps:
  assumes "sess_inv st s" and "store_inv 0 st (mset (addresses (startupJournal s)) + H)" and "carrier_traffic s s'"
  shows "startup_keeps st H s' st"
  using assms by (auto simp: startup_keeps_def carrier_traffic_def sess_inv_def)

lemma unauthed_journal: "sess_inv st s \<Longrightarrow> \<not> authed s \<Longrightarrow> addresses (startupJournal s) = []"
proof -
  assume s: "sess_inv st s" "\<not> authed s"
  then have "startupJournal s ! i = None" if "i < 40" for i
    using that unfolding sess_inv_def by (cases "startupJournal s ! i") auto
  then have "startupJournal s = replicate 40 None"
    using s(1) by (auto simp: sess_inv_def intro: nth_equalityI)
  then show ?thesis by simp
qed

lemma sys_inv_written:
  assumes "sys_inv y" and "a \<in> set (sy_writers y)" and "writeStartup (t, sy_store y) a deadline wrote = ((t', st'), e)"
  shows "sys_inv (y\<lparr>sy_store := st', sy_writers := remove1 a (sy_writers y)\<rparr>)"
proof -
  have st': "st' = release (sy_store y) a"
    using assms(3) by (auto simp: writeStartup_def Let_def split: option.splits if_splits prod.splits)
  have ws: "mset (sy_writers y) = add_mset a (mset (remove1 a (sy_writers y)))" using assms(2) by simp
  have "store_inv 0 (sy_store y) (add_mset a (session_holds (sy_sessions y) + mset (remove1 a (sy_writers y))))"
    using assms(1) unfolding sys_inv_def ws by simp
  from release_inv [OF this] show ?thesis
    using assms(1) sess_inv_same by (auto simp: sys_inv_def st')
qed

lemma sys_inv_removed:
  assumes "sys_inv y" and "i < length (sy_sessions y)"
    and "store_inv 0 st' (session_holds (others i (sy_sessions y)) + mset (sy_writers y))" and "same_content (sy_store y) st'"
  shows "sys_inv (y\<lparr>sy_sessions := others i (sy_sessions y), sy_store := st'\<rparr>)"
  using assms(1,3) others_subset [of i "sy_sessions y"] sess_inv_same [OF assms(4)]
  by (auto simp: sys_inv_def)

lemma sys_inv_step:
  assumes inv: "sys_inv y" and rand: "fills rand" and step: "sys_step sha hashes rand identity y y'"
  shows "sys_inv y'"
  using step
proof cases
  case (sys_request i now later t r body sequence frames filler t' s' st' reply)
  have s: "sess_inv (sy_store y) (sy_sessions y ! i)" using inv sys_request(2) by (simp add: sys_inv_def)
  have ws: "mset (case reply of S_result a \<Rightarrow> a # sy_writers y | _ \<Rightarrow> sy_writers y) = reply_holds reply + mset (sy_writers y)"
    by (simp add: reply_holds_def split: startup_reply.splits)
  show ?thesis
    unfolding sys_request(1)
    by (rule sys_inv_session [OF inv sys_request(2) startup_keeps_inv [OF s _ rand sys_request(3)] ws])
next
  case (sys_written a t deadline wrote t' st' e)
  then show ?thesis using sys_inv_written [OF inv] by simp
next
  case (sys_close i s' st')
  have s: "sess_inv (sy_store y) (sy_sessions y ! i)" using inv sys_close(2) by (simp add: sys_inv_def)
  show ?thesis
    using sys_inv_session [OF inv sys_close(2), where R = "{#}" and s' = s' and st' = st' and ws = "sy_writers y"]
      session_close_keeps [OF s _ sys_close(3)] sys_close(1) by simp
next
  case (sys_websocket i r offered now s' st' adm)
  have s: "sess_inv (sy_store y) (sy_sessions y ! i)" using inv sys_websocket(2) by (simp add: sys_inv_def)
  show ?thesis
    using sys_inv_session [OF inv sys_websocket(2), where R = "{#}" and s' = s' and st' = st' and ws = "sy_writers y"]
      realtime_admit_keeps [OF s _ sys_websocket(3)] sys_websocket(1) by simp
next
  case (sys_http3 i t r now t' s' st' adm)
  have s: "sess_inv (sy_store y) (sy_sessions y ! i)" using inv sys_http3(2) by (simp add: sys_inv_def)
  show ?thesis
    using sys_inv_session [OF inv sys_http3(2), where R = "{#}" and s' = s' and st' = st' and ws = "sy_writers y"]
      h3_admit_keeps [OF s _ sys_http3(3)] sys_http3(1) by simp
next
  case (sys_traffic i s')
  have s: "sess_inv (sy_store y) (sy_sessions y ! i)" using inv sys_traffic(2) by (simp add: sys_inv_def)
  show ?thesis
    using sys_inv_session [OF inv sys_traffic(2), where R = "{#}" and s' = s' and st' = "sy_store y" and ws = "sy_writers y"]
      traffic_keeps [OF s _ sys_traffic(3)] sys_traffic(1) by simp
next
  case (sys_peer i p)
  have s: "sess_inv (sy_store y) (sy_sessions y ! i)" using inv sys_peer(2) by (simp add: sys_inv_def)
  show ?thesis
    using sys_inv_session [OF inv sys_peer(2), where R = "{#}" and s' = "(sy_sessions y ! i)\<lparr>s_peer := p\<rparr>"
        and st' = "sy_store y" and ws = "sy_writers y"] s sys_peer(1) by (simp add: startup_keeps_def)
next
  case (sys_new s)
  then have "sess_inv (sy_store y) s" "addresses (startupJournal s) = []"
    by (auto simp: fresh_session_def sess_inv_def journal_bytes_def)
  then show ?thesis using inv sys_new by (simp add: sys_inv_def)
next
  case (sys_evict i)
  have s: "sess_inv (sy_store y) (sy_sessions y ! i)" using inv sys_evict(2) by (simp add: sys_inv_def)
  have "session_holds (sy_sessions y) = session_holds (others i (sy_sessions y))"
    using session_holds_split(1) [OF sys_evict(2)] unauthed_journal [OF s sys_evict(3)] by simp
  then show ?thesis
    using sys_inv_removed [OF inv sys_evict(2), of "sy_store y"] inv sys_evict(1) by (simp add: sys_inv_def others_def)
next
  case (sys_expire i s' st')
  have s: "sess_inv (sy_store y) (sy_sessions y ! i)" using inv sys_expire(2) by (simp add: sys_inv_def)
  have "store_inv 0 (sy_store y) (mset (addresses (startupJournal (sy_sessions y ! i)))
      + (session_holds (others i (sy_sessions y)) + mset (sy_writers y)))"
    using inv session_holds_split(1) [OF sys_expire(2)] by (simp add: sys_inv_def add.assoc)
  from session_close_keeps [OF s this sys_expire(3)]
  have "store_inv 0 st' (session_holds (others i (sy_sessions y)) + mset (sy_writers y))" "same_content (sy_store y) st'"
    by (auto simp: startup_keeps_def)
  then show ?thesis using sys_inv_removed [OF inv sys_expire(2)] sys_expire(1) by (simp add: others_def)
qed

interpretation startup_process: step_system sys_start "sys_step sha hashes rand identity" "\<lambda>y. fills rand \<longrightarrow> sys_inv y"
  for sha hashes rand identity
proof unfold_locales
  show "sys_start y \<Longrightarrow> fills rand \<longrightarrow> sys_inv y" for y
    by (simp add: sys_start_def sys_inv_def store_inv_def startupJournalLimit_def)
qed (blast intro: sys_inv_step)

definition startup_reachable ::
  "(bytes \<Rightarrow> bytes) \<Rightarrow> bytes list \<Rightarrow> (nat \<Rightarrow> bytes option) \<Rightarrow> string \<Rightarrow> startup_sys \<Rightarrow> bool" where
  "startup_reachable sha hashes rand identity y \<longleftrightarrow> (\<exists>y0. sys_start y0 \<and> (sys_step sha hashes rand identity)\<^sup>*\<^sup>* y0 y)"

lemma startup_reachable_inv: "startup_reachable sha hashes rand identity y \<Longrightarrow> fills rand \<Longrightarrow> sys_inv y"
  using startup_process.reachable_inv unfolding startup_reachable_def by blast


section \<open>Journals\<close>

definition slot_size :: "nat \<Rightarrow> int" where
  "slot_size i = (if even i then 0 else startupSlots ! (i div 2))"

lemma slot_sizes: "sum_list (map slot_size [0..<40]) = 901120"
  by (simp add: slot_size_def startupSlots_def upt_rec)

lemma journal_bytes_sum:
  "journal_bytes st j = sum_list (map (\<lambda>x. case x of None \<Rightarrow> 0 | Some a \<Rightarrow> int (length (r_body (results st ! a)))) j)"
proof (induction j)
  case (Cons x j)
  then show ?case by (cases x) (simp_all add: journal_bytes_def)
qed (simp add: journal_bytes_def)

lemma journal_bytes_bound:
  assumes "sess_inv st s"
  shows "startupBytes s \<le> 901120"
proof -
  let ?size = "\<lambda>x. case x of None \<Rightarrow> 0 | Some a \<Rightarrow> int (length (r_body (results st ! a)))"
  let ?j = "startupJournal s"
  have len: "length ?j = 40" and slots: "\<And>i a. i < 40 \<Longrightarrow> ?j ! i = Some a \<Longrightarrow> slot_ok st i a"
    using assms by (auto simp: sess_inv_def)
  have size: "?size (?j ! i) \<le> slot_size i" if "i < 40" for i
  proof (cases "?j ! i")
    case None
    have "i div 2 < 20" using that by simp
    then show ?thesis using None slots_pos [of "i div 2"] by (simp add: slot_size_def less_imp_le)
  next
    case (Some a)
    have "i div 2 < 20" using that by simp
    then show ?thesis
      using Some slots [OF that Some] slots_pos [of "i div 2"] by (auto simp: slot_size_def slot_ok_def Let_def)
  qed
  have "startupBytes s = sum_list (map ?size ?j)" using assms by (simp add: sess_inv_def journal_bytes_sum)
  also have "map ?size ?j = map (\<lambda>i. ?size (?j ! i)) [0..<40]"
    using len by (metis (mono_tags, lifting) map_nth list.map_comp comp_def map_cong)
  also have "sum_list \<dots> \<le> sum_list (map slot_size [0..<40])"
    by (rule sum_list_mono) (use size in auto)
  finally show ?thesis by (simp only: slot_sizes)
qed

text \<open>What a request that was answered with a result leaves behind.\<close>

definition step_index :: "request \<Rightarrow> nat \<Rightarrow> nat" where
  "step_index r round = round * 2 + (if is_upload r then 0 else 1)"

lemma startup_new_result:
  assumes inv: "sess_inv st s" and store: "store_inv 0 st (mset (addresses (startupJournal s)) + H)"
    and rand: "fills rand" and r20: "round < 20"
    and run: "startup_new sha hashes rand identity later t (s, st) r body sequence frames filler round (step_index r round)
       = (t', (s', st'), S_result a)"
  shows "startupJournal s' ! step_index r round = Some a \<and> digest (results st' ! a) = sha body
    \<and> realtime s' = realtime s \<and> startupInvalid s' = startupInvalid s"
proof -
  define x where "x = (if is_upload r then startup_upload sha hashes (s, st) body frames filler
      else startup_download sha rand identity (s, st) body round)"
  obtain s1 st1 step where x: "x = ((s1, st1), step)" by (metis surj_pair)
  have shape: "case step of St_refused reply \<Rightarrow> \<forall>a. reply \<noteq> S_result a
    | St_new result fs n \<Rightarrow> digest result = sha body \<and> realtime s1 = realtime s \<and> startupInvalid s1 = startupInvalid s
        \<and> startupJournal s1 = startupJournal s"
    using upload_keeps [OF inv store, of sha hashes body frames filler s1 st1 step]
      download_keeps [OF inv store rand r20, of sha identity body s1 st1 step] x
    by (cases "is_upload r") (auto simp: x_def split: startup_step.splits)
  have "step_index r round < length (startupJournal s)" using inv r20 by (simp add: sess_inv_def step_index_def)
  then show ?thesis
    using run shape x
    by (auto simp: startup_new_def Let_def x_def [symmetric] startup_commit_def split: if_splits startup_step.splits)
qed

lemma startup_result:
  assumes inv: "sess_inv st s" and store: "store_inv 0 st (mset (addresses (startupJournal s)) + H)"
    and rand: "fills rand"
    and run: "startup sha hashes rand identity now later t (s, st) r body sequence frames filler = (t', (s', st'), S_result a)"
  obtains round where "startup_round r sequence = Some round" and "\<not> over r" and "\<not> realtime s'" and "\<not> startupInvalid s'"
    and "startupJournal s' ! step_index r round = Some a" and "is_upload r \<Longrightarrow> digest (results st' ! a) = sha body"
proof -
  obtain round where round: "startup_round r sequence = Some round" using run by (auto simp: startup_def split: option.splits)
  have r20: "round < 20" by (rule startup_round_bound [OF round])
  have ok: "\<not> (realtime s \<or> startupInvalid s \<or> over r \<or> peer_closed (s_peer s))"
    "\<not> (case startupDeadline s of None \<Rightarrow> False | Some d \<Rightarrow> \<not> now < d)"
    using run round by (auto simp: startup_def Let_def split: if_splits prod.splits)
  show thesis
  proof (cases "startupJournal s ! step_index r round")
    case None
    then have "startup_new sha hashes rand identity later t (s, st) r body sequence frames filler round (step_index r round)
       = (t', (s', st'), S_result a)"
      using run round ok by (simp add: startup_def Let_def step_index_def)
    from startup_new_result [OF inv store rand r20 this] show thesis using that round ok by auto
  next
    case (Some b)
    then have eq: "s' = s" "st' = retain st b" "b = a" and dig: "is_upload r \<longrightarrow> digest (results st ! a) = sha body"
      using run round ok by (auto simp: startup_def Let_def step_index_def split: if_splits)
    have "step_index r round < 40" using r20 by (simp add: step_index_def)
    then have "slot_ok st (step_index r round) a" using inv Some eq(3) by (auto simp: sess_inv_def)
    then have "digest (results (retain st a) ! a) = digest (results st ! a)"
      by (simp add: slot_ok_def retain_def Let_def)
    then show thesis using that round ok eq Some dig by auto
  qed
qed

section \<open>New steps\<close>

text \<open>The frames of an upload that go to the multiplexer, and those of a download.\<close>

definition uplink_frames :: "frame list \<Rightarrow> frame list" where
  "uplink_frames frames = (case frames of [] \<Rightarrow> [] | f # rest \<Rightarrow> if Kind f = AuthK then rest else frames)"

definition downlink :: "string \<Rightarrow> session \<Rightarrow> nat \<Rightarrow> peer \<times> frame list" where
  "downlink identity s round =
     (if down s = 0 then (s_peer s, [\<lparr>Kind = HelloK, Stream = 0, Sequence = 0,
         Body = to_bytes (transportIdentity @ [char_of (10 :: nat)] @ identity)\<rparr>])
      else Take (s_peer s) (startupSlots ! round - int Header))"

text \<open>What a step that was done for the first time did.\<close>

definition step_done :: "(bytes \<Rightarrow> bytes) \<Rightarrow> string \<Rightarrow> session \<Rightarrow> session \<Rightarrow> request \<Rightarrow> bytes \<Rightarrow> u32 \<Rightarrow> frame list \<Rightarrow> startupResult \<Rightarrow> bool" where
  "step_done sha identity s s' r body sequence frames result \<longleftrightarrow>
     (if even (startupSteps s)
      then is_upload r \<and> sequence = up s \<and> digest result = sha body \<and> status result = 204
        \<and> Receive (s_peer s) (uplink_frames frames) = (s_peer s', Ok ())
      else \<not> is_upload r \<and> status result = 200 \<and> s_peer s' = fst (downlink identity s (startupSteps s div 2))
        \<and> (\<exists>n. Decode (r_body result) = Ok (down s, snd (downlink identity s (startupSteps s div 2)), n)))"

lemma upload_done:
  assumes "startup_upload sha hashes (s, st) body frames filler = ((s1, st1), St_new result fs n)"
  shows "digest result = sha body \<and> status result = 204 \<and> Receive (s_peer s) (uplink_frames frames) = (s_peer s1, Ok ())
    \<and> startupJournal s1 = startupJournal s \<and> startupSteps s1 = startupSteps s"
proof -
  obtain s0 fs0 where a: "startup_auth sha hashes s frames = Some (s0, fs0)"
    using assms by (auto simp: startup_upload_def split: option.splits)
  then have s0: "fs0 = uplink_frames frames" "s_peer s0 = s_peer s" "startupJournal s0 = startupJournal s" "startupSteps s0 = startupSteps s"
    by (auto simp: startup_auth_def uplink_frames_def split: list.splits if_splits)
  obtain p q where rc: "Receive (s_peer s) (uplink_frames frames) = (p, q)" by force
  show ?thesis using assms a s0 rc by (cases q) (auto simp: startup_upload_def split: if_splits)
qed

lemma download_done:
  assumes "fills rand" and "startup_download sha rand identity (s, st) body round = ((s1, st1), St_new result fs n)"
  shows "status result = 200 \<and> s_peer s1 = fst (downlink identity s round)
    \<and> (\<exists>k. Decode (r_body result) = Ok (down s, snd (downlink identity s round), k))
    \<and> startupJournal s1 = startupJournal s \<and> startupSteps s1 = startupSteps s"
proof -
  obtain st0 ok where res: "reserveStartupBytes (startupSlots ! round) st = (st0, ok)" by force
  obtain p f where d: "downlink identity s round = (p, f)" by force
  then have t: "(if down s = 0 then (s_peer s, [\<lparr>Kind = HelloK, Stream = 0, Sequence = 0,
         Body = to_bytes (transportIdentity @ [char_of (10 :: nat)] @ identity)\<rparr>])
      else Take (s_peer s) (startupSlots ! round - int Header)) = (p, f)" by (simp add: downlink_def)
  show ?thesis
  proof (cases "Encode rand (down s) (startupSlots ! round) f")
    case (Ok cell)
    then show ?thesis using assms(2) res t d encode_Ok [OF assms(1) Ok] by (cases ok) (auto simp: startup_download_def Let_def)
  next
    case (Fail e)
    then show ?thesis using assms(2) res t by (cases ok) (auto simp: startup_download_def Let_def split: prod.splits)
  next
    case Panic
    then show ?thesis using assms(2) res t by (cases ok) (auto simp: startup_download_def Let_def)
  qed
qed

lemma startup_new_done:
  assumes rand: "fills rand" and idx: "index = round * 2 + (if is_upload r then 0 else 1)"
    and run: "startup_new sha hashes rand identity later t (s, st) r body sequence frames filler round index = (t', (s', st'), S_result a)"
    and inv: "sess_inv st s" and store: "store_inv 0 st (mset (addresses (startupJournal s)) + H)" and r20: "round < 20"
  shows "startupSteps s' = Suc (startupSteps s) \<and> startupJournal s' = (startupJournal s)[startupSteps s := Some a]
    \<and> step_done sha identity s s' r body sequence frames (results st' ! a)"
proof -
  have go: "index = startupSteps s" "is_upload r \<Longrightarrow> sequence = up s"
    using run by (auto simp: startup_new_def Let_def split: if_splits)
  have par: "even (startupSteps s) = is_upload r" "startupSteps s div 2 = round"
    using go(1) idx by (cases "is_upload r"; presburger)+
  define x where "x = (if is_upload r then startup_upload sha hashes (s, st) body frames filler
      else startup_download sha rand identity (s, st) body round)"
  obtain s1 st1 step where x: "x = ((s1, st1), step)" by (metis surj_pair)
  have nr: "step \<noteq> St_refused (S_result b)" for b
    using upload_keeps [OF inv store, of sha hashes body frames filler s1 st1 step]
      download_keeps [OF inv store rand r20, of sha identity body s1 st1 step] x
    by (cases "is_upload r") (auto simp: x_def)
  obtain result fs n where step: "step = St_new result fs n"
    and c: "startup_commit (s1, st1) result (startupSteps s) later = (s', st')" "a = length (results st1)"
    using run x nr go by (cases step) (auto simp: startup_new_def Let_def x_def [symmetric] split: if_splits)
  have st': "results st' ! a = result\<lparr>refs := 2\<rparr>" "s_peer s' = s_peer s1" "startupSteps s' = Suc (startupSteps s1)"
    "startupJournal s' = (startupJournal s1)[startupSteps s := Some a]"
    using c by (auto simp: startup_commit_def)
  show ?thesis
  proof (cases "is_upload r")
    case True
    then show ?thesis using upload_done [of sha hashes s st body frames filler s1 st1 result fs n] x step st' par go
      by (auto simp: x_def step_done_def)
  next
    case False
    then show ?thesis using download_done [OF rand, of sha identity s st body round s1 st1 result fs n] x step st' par go
      by (auto simp: x_def step_done_def)
  qed
qed

lemma startup_done_step:
  assumes inv: "sess_inv st s" and store: "store_inv 0 st (mset (addresses (startupJournal s)) + H)" and rand: "fills rand"
    and run: "startup sha hashes rand identity now later t (s, st) r body sequence frames filler = (t', (s', st'), S_result a)"
  shows "s' = s \<and> st' = retain st a \<and> Some a \<in> set (startupJournal s)
    \<or> startupSteps s' = Suc (startupSteps s) \<and> startupJournal s' = (startupJournal s)[startupSteps s := Some a]
      \<and> step_done sha identity s s' r body sequence frames (results st' ! a)"
proof -
  obtain round where round: "startup_round r sequence = Some round" using run by (auto simp: startup_def split: option.splits)
  let ?i = "round * 2 + (if is_upload r then 0 else 1)"
  have r20: "round < 20" by (rule startup_round_bound [OF round])
  then have "?i < length (startupJournal s)" using inv by (simp add: sess_inv_def)
  then have mem: "startupJournal s ! ?i = Some b \<Longrightarrow> Some b \<in> set (startupJournal s)" for b by (metis nth_mem)
  consider "s' = s" "st' = retain st a" "startupJournal s ! ?i = Some a"
    | "startup_new sha hashes rand identity later t (s, st) r body sequence frames filler round ?i = (t', (s', st'), S_result a)"
    using run round by (auto simp: startup_def Let_def split: if_splits option.splits prod.splits)
  then show ?thesis
  proof cases
    case 1
    then show ?thesis using mem by simp
  next
    case 2
    from startup_new_done [OF rand refl this inv store r20] show ?thesis by simp
  qed
qed

text \<open>
  When the next step can be done: an upload must carry a session to authentication, no frames before
  the third step and frames the multiplexer takes; a download must fit the quota and its cell.
\<close>

definition step_admitted ::
  "(bytes \<Rightarrow> bytes) \<Rightarrow> bytes list \<Rightarrow> (nat \<Rightarrow> bytes option) \<Rightarrow> string \<Rightarrow> session \<Rightarrow> startup_store \<Rightarrow> frame list \<Rightarrow> bool" where
  "step_admitted sha hashes rand identity s st frames \<longleftrightarrow>
     (if even (startupSteps s)
      then (case startup_auth sha hashes s frames of None \<Rightarrow> False
        | Some (s0, fs) \<Rightarrow> authed s0 \<and> (fs = [] \<or> 2 \<le> startupSteps s) \<and> snd (Receive (s_peer s) fs) = Ok ())
      else startupJournalBytes st + startupSlots ! (startupSteps s div 2) \<le> startupJournalLimit
        \<and> (\<exists>cell. Encode rand (down s) (startupSlots ! (startupSteps s div 2)) (snd (downlink identity s (startupSteps s div 2))) = Ok cell))"

lemma upload_admitted:
  assumes "even (startupSteps s)"
  shows "(\<exists>x result fs n. startup_upload sha hashes (s, st) body frames filler = (x, St_new result fs n))
    \<longleftrightarrow> step_admitted sha hashes rand identity s st frames"
proof (cases "startup_auth sha hashes s frames")
  case (Some x)
  obtain s0 fs where x: "x = (s0, fs)" by force
  then have s0: "s0 = s \<or> s0 = s\<lparr>authed := True\<rparr>" using startup_auth_Some Some by simp
  obtain p q where rc: "Receive (s_peer s) fs = (p, q)" by force
  show ?thesis using assms Some x s0 rc by (cases q) (auto simp: startup_upload_def step_admitted_def)
qed (use assms in \<open>auto simp: startup_upload_def step_admitted_def\<close>)

lemma download_admitted:
  assumes "odd (startupSteps s)"
  shows "(\<exists>x result fs n. startup_download sha rand identity (s, st) body (startupSteps s div 2) = (x, St_new result fs n))
    \<longleftrightarrow> step_admitted sha hashes rand identity s st frames"
proof -
  let ?round = "startupSteps s div 2"
  obtain p f where d: "downlink identity s ?round = (p, f)" by force
  then have t: "(if down s = 0 then (s_peer s, [\<lparr>Kind = HelloK, Stream = 0, Sequence = 0,
         Body = to_bytes (transportIdentity @ [char_of (10 :: nat)] @ identity)\<rparr>])
      else Take (s_peer s) (startupSlots ! ?round - int Header)) = (p, f)" by (simp add: downlink_def)
  show ?thesis
    using assms t d
    by (cases "Encode rand (down s) (startupSlots ! ?round) f")
      (auto simp: startup_download_def step_admitted_def Let_def reserve_eq split: prod.splits if_splits)
qed

text \<open>The request is for the next step, and startup goes on.\<close>

definition next_step :: "int \<Rightarrow> session \<Rightarrow> request \<Rightarrow> u32 \<Rightarrow> bool" where
  "next_step now s r sequence \<longleftrightarrow>
     startup_round r sequence = Some (startupSteps s div 2) \<and> is_upload r = even (startupSteps s)
     \<and> \<not> realtime s \<and> \<not> startupInvalid s \<and> \<not> over r \<and> \<not> peer_closed (s_peer s)
     \<and> (\<forall>d. startupDeadline s = Some d \<longrightarrow> now < d)"

lemma startup_next:
  assumes inv: "sess_inv st s" and step: "next_step now s r sequence"
  shows "startup sha hashes rand identity now later t (s, st) r body sequence frames filler
    = startup_new sha hashes rand identity later t (s, st) r body sequence frames filler (startupSteps s div 2) (startupSteps s)"
    and "is_upload r \<Longrightarrow> sequence = up s" and "\<not> is_upload r \<Longrightarrow> of_nat (startupSteps s div 2) = down s"
    and "startupSteps s = startupSteps s div 2 * 2 + (if is_upload r then 0 else 1)" and "startupSteps s div 2 < 20"
proof -
  let ?n = "startupSteps s"
  have round: "startup_round r sequence = Some (?n div 2)" and par: "is_upload r = even ?n" and rt: "\<not> realtime s"
    using step by (simp_all add: next_step_def)
  have counts: "unat (up s) = (?n + 1) div 2" "unat (down s) = ?n div 2" using inv rt by (simp_all add: sess_inv_def)
  have "?n < 40" using startup_round_bound [OF round] by presburger
  then have none: "startupJournal s ! ?n = None" using inv unfolding sess_inv_def by (metis less_irrefl option.exhaust)
  have idx: "?n div 2 * 2 + (if is_upload r then 0 else 1) = ?n"
    using par odd_two_times_div_two_succ [of ?n] by (cases "even ?n") (simp_all add: mult.commute)
  have "startupJournal s ! (?n div 2 * 2 + (if is_upload r then 0 else 1)) = None" by (simp only: idx none)
  then have "startup sha hashes rand identity now later t (s, st) r body sequence frames filler
    = startup_new sha hashes rand identity later t (s, st) r body sequence frames filler (?n div 2)
        (?n div 2 * 2 + (if is_upload r then 0 else 1))"
    using step unfolding startup_def next_step_def by (cases "startupDeadline s") (simp_all add: Let_def)
  then show "startup sha hashes rand identity now later t (s, st) r body sequence frames filler
    = startup_new sha hashes rand identity later t (s, st) r body sequence frames filler (?n div 2) ?n" by (simp only: idx)
  show "?n = ?n div 2 * 2 + (if is_upload r then 0 else 1)" by (simp only: idx)
  show "?n div 2 < 20" by (rule startup_round_bound [OF round])
  show "of_nat (?n div 2) = down s" unfolding counts(2) [symmetric] by simp
  assume u: "is_upload r"
  then have "unat sequence = ?n div 2" using round by (auto simp: startup_round_def split: if_splits)
  moreover have "(?n + 1) div 2 = ?n div 2" using u par by presburger
  ultimately show "sequence = up s" using counts(1) by (simp add: word_unat_eq_iff)
qed

lemma startup_admitted:
  assumes inv: "sess_inv st s" and step: "next_step now s r sequence" and ok: "step_admitted sha hashes rand identity s st frames"
  shows "\<exists>t' x a. startup sha hashes rand identity now later t (s, st) r body sequence frames filler = (t', x, S_result a)"
proof -
  have par: "is_upload r = even (startupSteps s)" using step by (simp add: next_step_def)
  obtain x result fs n where "(if is_upload r then startup_upload sha hashes (s, st) body frames filler
      else startup_download sha rand identity (s, st) body (startupSteps s div 2)) = (x, St_new result fs n)"
    using ok par upload_admitted [of s sha hashes st body frames filler rand identity]
      download_admitted [of s sha rand identity st body hashes frames] by auto
  then show ?thesis
    using startup_next(2,3) [OF inv step] unfolding startup_next(1) [OF inv step] by (auto simp: startup_new_def Let_def)
qed

lemma startup_only_next:
  assumes inv: "sess_inv st s" and store: "store_inv 0 st (mset (addresses (startupJournal s)) + H)" and rand: "fills rand"
    and run: "startup sha hashes rand identity now later t (s, st) r body sequence frames filler = (t', (s', st'), S_result a)"
    and new: "startupSteps s' \<noteq> startupSteps s"
  shows "next_step now s r sequence \<and> step_admitted sha hashes rand identity s st frames"
proof -
  obtain round where round: "startup_round r sequence = Some round" using run by (auto simp: startup_def split: option.splits)
  let ?i = "round * 2 + (if is_upload r then 0 else 1)"
  have go: "startup_new sha hashes rand identity later t (s, st) r body sequence frames filler round ?i = (t', (s', st'), S_result a)"
    and ok: "\<not> realtime s" "\<not> startupInvalid s" "\<not> over r" "\<not> peer_closed (s_peer s)" "\<forall>d. startupDeadline s = Some d \<longrightarrow> now < d"
    using run round new by (auto simp: startup_def Let_def split: if_splits option.splits prod.splits)
  then have idx: "?i = startupSteps s" by (auto simp: startup_new_def Let_def split: if_splits)
  then have par: "even (startupSteps s) = is_upload r" "startupSteps s div 2 = round"
    by (cases "is_upload r"; presburger)+
  define x where "x = (if is_upload r then startup_upload sha hashes (s, st) body frames filler
      else startup_download sha rand identity (s, st) body round)"
  obtain s1 st1 step where x: "x = ((s1, st1), step)" by (metis surj_pair)
  have "step \<noteq> St_refused (S_result b)" for b
    using upload_keeps [OF inv store, of sha hashes body frames filler s1 st1 step]
      download_keeps [OF inv store rand startup_round_bound [OF round], of sha identity body s1 st1 step] x
    by (cases "is_upload r") (auto simp: x_def)
  then obtain result fs n where "step = St_new result fs n"
    using go x by (cases step) (auto simp: startup_new_def Let_def x_def [symmetric] split: if_splits)
  then have "step_admitted sha hashes rand identity s st frames"
    using x par upload_admitted [of s sha hashes st body frames filler rand identity]
      download_admitted [of s sha rand identity st body hashes frames] by (cases "is_upload r") (auto simp: x_def)
  then show ?thesis using ok round par by (simp add: next_step_def)
qed

section \<open>Following a session\<close>

text \<open>
  A step of the process as a session at position \<open>i\<close> sees it: the session is at position \<open>j\<close> afterwards. A new
  session is put in front, and other sessions may be removed.
\<close>

definition follows ::
  "(bytes \<Rightarrow> bytes) \<Rightarrow> bytes list \<Rightarrow> (nat \<Rightarrow> bytes option) \<Rightarrow> string \<Rightarrow> startup_sys \<times> nat \<Rightarrow> startup_sys \<times> nat \<Rightarrow> bool" where
  "follows sha hashes rand identity x x' \<longleftrightarrow>
     (case (x, x') of ((y, i), (y', j)) \<Rightarrow>
      sys_step sha hashes rand identity y y' \<and> i < length (sy_sessions y) \<and>
      (length (sy_sessions y') = length (sy_sessions y) \<and> j = i
       \<or> length (sy_sessions y') = Suc (length (sy_sessions y)) \<and> j = Suc i
       \<or> (\<exists>k < length (sy_sessions y). k \<noteq> i \<and> sy_sessions y' = others k (sy_sessions y) \<and> j = (if k < i then i - 1 else i))))"

text \<open>
  An entry of the journal stays, and so does the deadline, unless startup ends for the session; what an entry
  refers to never changes.
\<close>

definition startup_over :: "session \<Rightarrow> bool" where
  "startup_over s \<longleftrightarrow> realtime s \<or> startupInvalid s"

definition journal_stays :: "startup_store \<Rightarrow> session \<Rightarrow> startup_store \<Rightarrow> session \<Rightarrow> bool" where
  "journal_stays st s st' s' \<longleftrightarrow> same_content st st' \<and>
     (startup_over s' \<or> \<not> startup_over s
        \<and> (\<forall>i a. startupJournal s ! i = Some a \<longrightarrow> startupJournal s' ! i = Some a)
        \<and> (\<forall>d. startupDeadline s = Some d \<longrightarrow> startupDeadline s' = Some d))"

lemma journal_stays_refl: "same_content st st' \<Longrightarrow> journal_stays st s st' s"
  by (simp add: journal_stays_def)

lemma journal_stays_over: "same_content st st' \<Longrightarrow> startup_over s' \<Longrightarrow> journal_stays st s st' s'"
  by (simp add: journal_stays_def)

lemma journal_stays_trans: "journal_stays a s b t \<Longrightarrow> journal_stays b t c u \<Longrightarrow> journal_stays a s c u"
  unfolding journal_stays_def by (meson same_content_trans)

text \<open>The fields a step leaves alone.\<close>

definition journal_same :: "session \<Rightarrow> session \<Rightarrow> bool" where
  "journal_same s s' \<longleftrightarrow> startupJournal s' = startupJournal s \<and> realtime s' = realtime s \<and> startupInvalid s' = startupInvalid s
     \<and> startupDeadline s' = startupDeadline s"

lemma journal_stays_same: "same_content st st' \<Longrightarrow> journal_same s s' \<Longrightarrow> journal_stays st s st' s'"
  by (auto simp: journal_stays_def journal_same_def startup_over_def)

lemma upload_stays:
  assumes "startup_upload sha hashes (s, st) body frames filler = ((s1, st1), step)"
  shows "startupInvalid s1 \<or> journal_same s s1"
proof (cases "startup_auth sha hashes s frames")
  case (Some x)
  obtain s0 fs where x: "x = (s0, fs)" by force
  then have s0: "s0 = s \<or> s0 = s\<lparr>authed := True\<rparr>" using startup_auth_Some Some by simp
  obtain p q where rc: "Receive (s_peer s0) fs = (p, q)" by force
  show ?thesis using assms Some x s0 rc by (cases q) (auto simp: startup_upload_def clearStartupLocked_def journal_same_def split: if_splits)
qed (use assms in \<open>auto simp: startup_upload_def journal_same_def\<close>)

lemma download_stays:
  assumes "startup_download sha rand identity (s, st) body round = ((s1, st1), step)"
  shows "startupInvalid s1 \<or> journal_same s s1"
  using assms
  by (auto simp: startup_download_def clearStartupLocked_def journal_same_def Let_def split_beta split: prod.splits bool.splits outcome.splits)

lemma startup_stays:
  assumes inv: "sess_inv st s" and store: "store_inv 0 st (mset (addresses (startupJournal s)) + H)" and rand: "fills rand"
    and run: "startup sha hashes rand identity now later t (s, st) r body sequence frames filler = (t', (s', st'), reply)"
  shows "journal_stays st s st' s'"
proof -
  have same: "same_content st st'" using startup_keeps_inv [OF inv store rand run] by (simp add: startup_keeps_def)
  show ?thesis
  proof (cases "startup_round r sequence")
    case None
    then show ?thesis using run same by (auto simp: startup_def intro: journal_stays_refl)
  next
    case (Some round)
    let ?i = "round * 2 + (if is_upload r then 0 else 1)"
    let ?new = "startup_new sha hashes rand identity later t (s, st) r body sequence frames filler round ?i"
    consider "s' = s" | "startupInvalid s'" | "startupJournal s ! ?i = None" "?new = (t', (s', st'), reply)"
      using run Some by (auto simp: startup_def Let_def clearStartupLocked_def split: if_splits option.splits)
    then show ?thesis
    proof cases
      case 3
      define x where "x = (if is_upload r then startup_upload sha hashes (s, st) body frames filler
          else startup_download sha rand identity (s, st) body round)"
      obtain s1 st1 step where x: "x = ((s1, st1), step)" by (metis surj_pair)
      have s1: "startupInvalid s1 \<or> journal_same s s1"
        using upload_stays download_stays x by (cases "is_upload r") (auto simp: x_def)
      have "s' = s \<or> s' = s1 \<or> startupJournal s' = (startupJournal s1)[?i := Some (length (results st1))]
          \<and> realtime s' = realtime s1 \<and> startupInvalid s' = startupInvalid s1
          \<and> (\<forall>d. startupDeadline s1 = Some d \<longrightarrow> startupDeadline s' = Some d)"
        using 3(2) x by (auto simp: startup_new_def Let_def x_def [symmetric] startup_commit_def split: if_splits startup_step.splits)
      moreover have "(startupJournal s)[?i := x] ! n = Some a" if "startupJournal s ! n = Some a" for x n a
        using that 3(1) by (cases "n = ?i") simp_all
      ultimately show ?thesis using s1 same by (auto simp: journal_stays_def journal_same_def startup_over_def)
    qed (use same in \<open>auto simp: startup_over_def intro: journal_stays_refl journal_stays_over\<close>)
  qed
qed

lemma same_content_release: "same_content st (release st a)"
  by (cases "a < length (results st)") (auto simp: same_content_def release_def Let_def nth_list_update)

lemma others_nth: "k \<noteq> i \<Longrightarrow> i < length ss \<Longrightarrow> others k ss ! (if k < i then i - 1 else i) = ss ! i"
  by (auto simp: others_def nth_append)

lemma others_length: "k < length ss \<Longrightarrow> length (others k ss) = length ss - 1"
  by (simp add: others_def)

lemma admit_over:
  "realtime_admit (s, st) r offered now = ((s', st'), adm) \<Longrightarrow> startup_over s' \<or> journal_same s s'"
  "h3_admit t (s, st) r now = (t', (s', st'), adm) \<Longrightarrow> startup_over s' \<or> journal_same s s'"
  "session_close (s, st) = (s', st') \<Longrightarrow> startup_over s'"
  by (auto simp: realtime_admit_def h3_admit_def session_close_def clearStartupLocked_def startup_over_def journal_same_def
      Let_def split: if_splits prod.splits)

text \<open>What a step of the process does to the session at a position that it does not remove.\<close>

lemma step_stays:
  assumes inv: "sys_inv y" and rand: "fills rand" and step: "sys_step sha hashes rand identity y y'" and i: "i < length (sy_sessions y)"
  shows "same_content (sy_store y) (sy_store y')"
    and "length (sy_sessions y') = length (sy_sessions y) \<Longrightarrow>
      journal_stays (sy_store y) (sy_sessions y ! i) (sy_store y') (sy_sessions y' ! i)"
    and "length (sy_sessions y') = Suc (length (sy_sessions y)) \<Longrightarrow> \<exists>s. sy_sessions y' = s # sy_sessions y"
proof -
  have inv_k: "sess_inv (sy_store y) (sy_sessions y ! k)"
    "store_inv 0 (sy_store y) (mset (addresses (startupJournal (sy_sessions y ! k)))
       + (session_holds (others k (sy_sessions y)) + mset (sy_writers y)))" if "k < length (sy_sessions y)" for k
    using inv that session_holds_split(1) [OF that] by (simp_all add: sys_inv_def add.assoc)
  let ?goal = "same_content (sy_store y) (sy_store y')
    \<and> (length (sy_sessions y') = length (sy_sessions y) \<longrightarrow>
       journal_stays (sy_store y) (sy_sessions y ! i) (sy_store y') (sy_sessions y' ! i))
    \<and> (length (sy_sessions y') = Suc (length (sy_sessions y)) \<longrightarrow> (\<exists>s. sy_sessions y' = s # sy_sessions y))"
  have at: ?goal if "k < length (sy_sessions y)" "journal_stays (sy_store y) (sy_sessions y ! k) (sy_store y') s'"
    "sy_sessions y' = (sy_sessions y)[k := s']" for k s'
    using that i by (cases "k = i") (auto simp: journal_stays_def)
  have ?goal
    using step
  proof cases
    case (sys_request k now later t r body sequence frames filler t' s' st' reply)
    show ?thesis using at [OF sys_request(2)] startup_stays [OF inv_k [OF sys_request(2)] rand sys_request(3)] sys_request(1) by simp
  next
    case (sys_written a t deadline wrote t' st' e)
    then have "st' = release (sy_store y) a"
      by (auto simp: writeStartup_def Let_def split: option.splits if_splits prod.splits)
    then show ?thesis using sys_written(1) same_content_release journal_stays_refl by simp
  next
    case (sys_close k s' st')
    then show ?thesis
      using at [OF sys_close(2), of s'] session_close_keeps [OF inv_k [OF sys_close(2)] sys_close(3)] admit_over(3) [OF sys_close(3)]
      by (auto simp: startup_keeps_def intro: journal_stays_over)
  next
    case (sys_websocket k r offered now s' st' adm)
    then show ?thesis
      using at [OF sys_websocket(2), of s'] realtime_admit_keeps [OF inv_k [OF sys_websocket(2)] sys_websocket(3)]
        admit_over(1) [OF sys_websocket(3)]
      by (auto simp: startup_keeps_def intro: journal_stays_over journal_stays_same)
  next
    case (sys_http3 k t r now t' s' st' adm)
    then show ?thesis
      using at [OF sys_http3(2), of s'] h3_admit_keeps [OF inv_k [OF sys_http3(2)] sys_http3(3)] admit_over(2) [OF sys_http3(3)]
      by (auto simp: startup_keeps_def intro: journal_stays_over journal_stays_same)
  next
    case (sys_traffic k s')
    then have "journal_stays (sy_store y) (sy_sessions y ! k) (sy_store y) s'"
      by (intro journal_stays_over) (simp_all add: carrier_traffic_def startup_over_def)
    then show ?thesis using at [OF sys_traffic(2), of s'] sys_traffic(1) by simp
  next
    case (sys_peer k p)
    have "journal_stays (sy_store y) (sy_sessions y ! k) (sy_store y) ((sy_sessions y ! k)\<lparr>s_peer := p\<rparr>)"
      by (intro journal_stays_same) (simp_all add: journal_same_def)
    then show ?thesis using at [OF sys_peer(2)] sys_peer(1) by simp
  next
    case (sys_new s)
    then show ?thesis by simp
  next
    case (sys_evict k)
    then have "length (sy_sessions y') < length (sy_sessions y)" by simp
    moreover have "sy_store y' = sy_store y" using sys_evict(1) by simp
    ultimately show ?thesis by (metis less_irrefl less_Suc_eq not_less_eq same_content_refl)
  next
    case (sys_expire k s' st')
    then have "length (sy_sessions y') < length (sy_sessions y)" by simp
    moreover have "same_content (sy_store y) (sy_store y')"
      using session_close_keeps [OF inv_k [OF sys_expire(2)] sys_expire(3)] sys_expire(1) by (simp add: startup_keeps_def)
    ultimately show ?thesis by (metis less_irrefl less_Suc_eq not_less_eq)
  qed
  then show "same_content (sy_store y) (sy_store y')"
    and "length (sy_sessions y') = length (sy_sessions y) \<Longrightarrow>
      journal_stays (sy_store y) (sy_sessions y ! i) (sy_store y') (sy_sessions y' ! i)"
    and "length (sy_sessions y') = Suc (length (sy_sessions y)) \<Longrightarrow> \<exists>s. sy_sessions y' = s # sy_sessions y"
    by auto
qed

lemma follows_stays:
  assumes inv: "sys_inv y" and rand: "fills rand" and f: "follows sha hashes rand identity (y, i) (y', j)"
  shows "sys_inv y' \<and> j < length (sy_sessions y')
    \<and> journal_stays (sy_store y) (sy_sessions y ! i) (sy_store y') (sy_sessions y' ! j)"
proof -
  have step: "sys_step sha hashes rand identity y y'" and i: "i < length (sy_sessions y)" using f by (auto simp: follows_def)
  note stays = step_stays [OF inv rand step i]
  consider "length (sy_sessions y') = length (sy_sessions y)" "j = i"
    | "length (sy_sessions y') = Suc (length (sy_sessions y))" "j = Suc i"
    | k where "k < length (sy_sessions y)" "k \<noteq> i" "sy_sessions y' = others k (sy_sessions y)" "j = (if k < i then i - 1 else i)"
    using f unfolding follows_def prod.case by blast
  then have "j < length (sy_sessions y') \<and> journal_stays (sy_store y) (sy_sessions y ! i) (sy_store y') (sy_sessions y' ! j)"
  proof cases
    case 1
    then show ?thesis using stays(2) i by simp
  next
    case 2
    then show ?thesis using stays(1,3) i by (auto intro: journal_stays_refl)
  next
    case 3
    then show ?thesis
      using stays(1) i others_nth [OF 3(2) i] others_length [OF 3(1)] by (auto intro: journal_stays_refl)
  qed
  then show ?thesis using sys_inv_step [OF inv rand step] by simp
qed

lemma follows_journal:
  assumes rand: "fills rand" and run: "(follows sha hashes rand identity)\<^sup>*\<^sup>* (y, i) (y', j)"
    and inv: "sys_inv y" and i: "i < length (sy_sessions y)"
  shows "sys_inv y' \<and> j < length (sy_sessions y')
    \<and> journal_stays (sy_store y) (sy_sessions y ! i) (sy_store y') (sy_sessions y' ! j)"
  using run
proof (induction rule: rtranclp_induct2)
  case refl
  then show ?case using inv i by (simp add: journal_stays_refl)
next
  case (step y1 i1 y2 i2)
  then show ?case using follows_stays [OF _ rand step(2)] by (blast intro: journal_stays_trans)
qed

section \<open>Properties\<close>

text \<open>A process with one session that has done the first upload, for the witnesses.\<close>

definition startup_demo :: session where
  "startup_demo = demo_session\<lparr>startupSteps := 0, realtime := False, realtimeConn := False, ackPending := False\<rparr>"

definition startup_demo_sys :: startup_sys where
  "startup_demo_sys = \<lparr>sy_sessions = [startup_demo], sy_store = \<lparr>startupJournalBytes = 0, results = []\<rparr>, sy_writers = []\<rparr>"

definition demo_post :: request where
  "demo_post = \<lparr>Method = ''POST'', Path = ''/api/sync'', RawQuery = [], Proto = ''HTTP/3.0'', ProtoMajor = 3, TLS = True,
     RemoteAddr = ''192.0.2.1:9'', Cookie = Some ''c'', Authorization = [], TrustedProxy = False, ClientIP = None,
     over = False, ctx_id = 1\<rparr>"

definition demo_rand :: "nat \<Rightarrow> bytes option" where
  "demo_rand n = Some (replicate n 0)"

definition demo_sha :: "bytes \<Rightarrow> bytes" where "demo_sha b = b"

lemma demo_fills: "fills demo_rand"
  by (simp add: fills_def demo_rand_def)

lemma startup_demo_reachable: "startup_reachable demo_sha [] demo_rand [] startup_demo_sys"
proof -
  let ?y = "\<lparr>sy_sessions = [], sy_store = \<lparr>startupJournalBytes = 0, results = []\<rparr>, sy_writers = []\<rparr>"
  have "fresh_session startup_demo" by (simp add: fresh_session_def startup_demo_def demo_session_def)
  from sys_new [OF this, of demo_sha "[]" demo_rand "[]" ?y]
  have "sys_step demo_sha [] demo_rand [] ?y startup_demo_sys" by (simp add: startup_demo_sys_def)
  then show ?thesis unfolding startup_reachable_def by (blast intro: r_into_rtranclp sys_start_def [THEN iffD2])
qed

lemma demo_startup:
  "\<exists>t1 s1 st1. startup demo_sha [] demo_rand [] 1 2 demo_counters (sy_sessions startup_demo_sys ! 0, sy_store startup_demo_sys)
      demo_post [] 0 [] 0 = (t1, (s1, st1), S_result 0)
    \<and> startupDeadline s1 = Some (2 + 120 * Second) \<and> s_peer s1 = New True \<and> \<not> realtime s1 \<and> \<not> startupInvalid s1"
proof -
  have "Receive (New True) [] = (New True, Ok ())" by (simp add: Receive_def New_def newPeer_def)
  moreover have "peer_closed (New True) = False" by (simp add: New_def newPeer_def)
  ultimately show ?thesis
    by (simp add: startup_def startup_round_def is_upload_def demo_post_def startupSlots_def startup_demo_sys_def
        startup_demo_def demo_session_def startup_new_def startup_upload_def startup_auth_def startup_commit_def Let_def)
qed

text \<open>
  C30. The quota of startup results is exact in every reachable state of the process: the
  counter lies between zero and 64 MiB, equals the size of all results that some journal or writer
  still holds, every result counts exactly its holders, and when nobody holds anything the counter is zero. So
  neither retries, errors, expiry, eviction nor opening a carrier leaks or frees twice.
\<close>

theorem startup_quota_exact:
  assumes "startup_reachable sha hashes rand identity y" and "fills rand"
  shows "0 \<le> startupJournalBytes (sy_store y) \<and> startupJournalBytes (sy_store y) \<le> startupJournalLimit
    \<and> startupJournalBytes (sy_store y) = sum_list (map live (results (sy_store y)))
    \<and> (\<forall>a < length (results (sy_store y)).
         refs (results (sy_store y) ! a) = int (count (session_holds (sy_sessions y) + mset (sy_writers y)) a))
    \<and> (session_holds (sy_sessions y) + mset (sy_writers y) = {#} \<longrightarrow> startupJournalBytes (sy_store y) = 0)"
proof -
  let ?st = "sy_store y"
  have st: "store_inv 0 ?st (session_holds (sy_sessions y) + mset (sy_writers y))"
    using startup_reachable_inv [OF assms] by (simp add: sys_inv_def)
  have "sum_list (map live (results ?st)) = 0" if "session_holds (sy_sessions y) + mset (sy_writers y) = {#}"
  proof -
    have "live r = 0" if r: "r \<in> set (results ?st)" for r
      using st r \<open>session_holds (sy_sessions y) + mset (sy_writers y) = {#}\<close>
      by (auto simp: store_inv_def live_def in_set_conv_nth)
    then have "map live (results ?st) = map (\<lambda>_. 0) (results ?st)" by simp
    then show ?thesis by (metis sum_list_0)
  qed
  then show ?thesis using st store_inv_bounds [OF st] by (simp add: store_inv_def)
qed

theorem startup_quota_exact_witness: "startupJournalBytes (sy_store startup_demo_sys) = 0"
  using startup_quota_exact [OF startup_demo_reachable demo_fills] by (simp add: startup_demo_sys_def)

text \<open>
  C31. The startup exchange is in lockstep. In every reachable state the number of applied
  uploads and of sent downloads follows from the number of steps, only an authenticated session has done any,
  the journal holds at most 880 KiB and, until startup is over, exactly the results of the steps done: an upload's is an
  empty 204, the download of round \<open>k\<close> a cell of exactly the size of slot \<open>k\<close> that decodes with sequence number \<open>k\<close>.
  A request is answered with a result either because the journal has it, and then the session does not change, or because
  it does the next step, in which case the result is recorded at that step's index, the frames of an upload were all
  received by the multiplexer, and those of a download are the greeting or what the multiplexer had to send. It does the
  next step if and only if it asks for it while startup goes on and the step is admitted.
\<close>

theorem startup_lockstep:
  assumes "startup_reachable sha hashes rand identity y" and "fills rand" and "i < length (sy_sessions y)" and "s = sy_sessions y ! i"
  shows "startupSteps s \<le> 40 \<and> (startupSteps s = 0 \<or> authed s)
    \<and> (realtime s \<or> unat (up s) = (startupSteps s + 1) div 2 \<and> unat (down s) = startupSteps s div 2)
    \<and> startupBytes s \<le> 880 * 1024
    \<and> (startup_over s \<or> (\<forall>n < 40. startupJournal s ! n \<noteq> None \<longleftrightarrow> n < startupSteps s))
    \<and> (\<forall>n a. n < 40 \<longrightarrow> startupJournal s ! n = Some a \<longrightarrow> slot_ok (sy_store y) n a)
    \<and> (\<forall>now later t r body sequence frames filler t' s' st' a.
        startup sha hashes rand identity now later t (s, sy_store y) r body sequence frames filler = (t', (s', st'), S_result a) \<longrightarrow>
          s' = s \<and> st' = retain (sy_store y) a \<and> Some a \<in> set (startupJournal s)
          \<or> next_step now s r sequence \<and> startupSteps s' = Suc (startupSteps s)
            \<and> startupJournal s' = (startupJournal s)[startupSteps s := Some a]
            \<and> step_done sha identity s s' r body sequence frames (results st' ! a))
    \<and> (\<forall>now later t r body sequence frames filler. next_step now s r sequence \<longrightarrow>
        (step_admitted sha hashes rand identity s (sy_store y) frames \<longleftrightarrow>
         (\<exists>t' x a. startup sha hashes rand identity now later t (s, sy_store y) r body sequence frames filler = (t', x, S_result a))))"
proof -
  let ?H = "session_holds (others i (sy_sessions y)) + mset (sy_writers y)"
  have inv: "sys_inv y" by (rule startup_reachable_inv [OF assms(1,2)])
  have s: "sess_inv (sy_store y) s" using inv assms(3,4) by (simp add: sys_inv_def)
  have st: "store_inv 0 (sy_store y) (mset (addresses (startupJournal s)) + ?H)"
    using inv session_holds_split(1) [OF assms(3)] by (simp add: sys_inv_def assms(4) add.assoc)
  have step: "s' = s \<and> st' = retain (sy_store y) a \<and> Some a \<in> set (startupJournal s)
          \<or> next_step now s r sequence \<and> startupSteps s' = Suc (startupSteps s)
            \<and> startupJournal s' = (startupJournal s)[startupSteps s := Some a]
            \<and> step_done sha identity s s' r body sequence frames (results st' ! a)"
    if "startup sha hashes rand identity now later t (s, sy_store y) r body sequence frames filler = (t', (s', st'), S_result a)"
    for now later t r body sequence frames filler t' s' st' a
    using startup_done_step [OF s st assms(2) that] startup_only_next [OF s st assms(2) that] by auto
  have iff: "step_admitted sha hashes rand identity s (sy_store y) frames"
    if n: "next_step now s r sequence"
      and run: "startup sha hashes rand identity now later t (s, sy_store y) r body sequence frames filler = (t', x, S_result a)"
    for now later t r body sequence frames filler t' x a
  proof -
    obtain s' st' where x: "x = (s', st')" by force
    have "startupSteps s' = Suc (startupSteps s)"
      using startup_new_done [OF assms(2) startup_next(4) [OF s n] _ s st startup_next(5) [OF s n]] run
      unfolding startup_next(1) [OF s n] x by blast
    then show ?thesis using startup_only_next [OF s st assms(2) run [unfolded x]] by simp
  qed
  show ?thesis
    using s journal_bytes_bound [OF s] step iff startup_admitted [OF s]
    by (auto simp: sess_inv_def startup_over_def)
qed

text \<open>
  C32. Startup requests can be repeated: once a request of a session was answered with a result, the same
  request is answered with the same status and body after whatever the process did in between (other requests of
  this session and of others, other repetitions, sessions that came and went), as long as startup is not over for the
  session and its deadline has not passed; nothing but the reference count and the replay counter changes.
\<close>

theorem startup_retry:
  assumes "startup_reachable sha hashes rand identity y" and "fills rand" and "i < length (sy_sessions y)"
    and "startup sha hashes rand identity now later t (sy_sessions y ! i, sy_store y) r body sequence frames filler
      = (t1, (s1, st1), S_result a)"
    and "(follows sha hashes rand identity)\<^sup>*\<^sup>*
      (y\<lparr>sy_sessions := (sy_sessions y)[i := s1], sy_store := st1, sy_writers := a # sy_writers y\<rparr>, i) (y2, j)"
    and "s2 = sy_sessions y2 ! j" and "\<not> realtime s2" and "\<not> startupInvalid s2" and "\<not> peer_closed (s_peer s2)"
    and "startupDeadline s1 = Some d" and "now' < d"
  shows "startup sha hashes rand identity now' later' t' (s2, sy_store y2) r body sequence frames' filler'
      = (t'\<lparr>StartupReplays := StartupReplays t' + 1\<rparr>, (s2, retain (sy_store y2) a), S_result a)
    \<and> r_body (results (sy_store y2) ! a) = r_body (results st1 ! a) \<and> status (results (sy_store y2) ! a) = status (results st1 ! a)"
proof -
  let ?s = "sy_sessions y ! i" and ?H = "session_holds (others i (sy_sessions y)) + mset (sy_writers y)"
  let ?y1 = "y\<lparr>sy_sessions := (sy_sessions y)[i := s1], sy_store := st1, sy_writers := a # sy_writers y\<rparr>"
  have inv: "sys_inv y" by (rule startup_reachable_inv [OF assms(1,2)])
  have s: "sess_inv (sy_store y) ?s" using inv assms(3) by (simp add: sys_inv_def)
  have st: "store_inv 0 (sy_store y) (mset (addresses (startupJournal ?s)) + ?H)"
    using inv session_holds_split(1) [OF assms(3)] by (simp add: sys_inv_def add.assoc)
  from startup_result [OF s st assms(2,4)] obtain round where r: "startup_round r sequence = Some round" "\<not> over r"
    "startupJournal s1 ! step_index r round = Some a" "is_upload r \<Longrightarrow> digest (results st1 ! a) = sha body" by blast
  have "sys_inv ?y1" using sys_inv_step [OF inv assms(2) sys_request [OF assms(3,4)]] by simp
  from follows_journal [OF assms(2,5) this] assms(3,6-8)
  have stays: "same_content st1 (sy_store y2)" "startupJournal s2 ! step_index r round = Some a" "startupDeadline s2 = Some d"
    using r(3) assms(10) by (auto simp: journal_stays_def startup_over_def)
  have "sess_inv st1 s1" using startup_keeps_inv [OF s st assms(2,4)] by (simp add: startup_keeps_def)
  moreover have "step_index r round < 40" using startup_round_bound [OF r(1)] by (simp add: step_index_def)
  ultimately have "a < length (results st1)" using r(3) by (auto simp: sess_inv_def slot_ok_def)
  then have "r_body (results (sy_store y2) ! a) = r_body (results st1 ! a)" "status (results (sy_store y2) ! a) = status (results st1 ! a)"
    "digest (results (sy_store y2) ! a) = digest (results st1 ! a)" using stays(1) by (simp_all add: same_content_def)
  then show ?thesis using assms(7-9,11) r stays by (auto simp: startup_def Let_def step_index_def)
qed

text \<open>The first upload of the example, and a repetition after another client's session was created.\<close>

theorem startup_lockstep_witness:
  "\<exists>t1 s1 st1. startup demo_sha [] demo_rand [] 1 2 demo_counters (startup_demo, sy_store startup_demo_sys) demo_post [] 0 [] 0
      = (t1, (s1, st1), S_result 0)
    \<and> startupSteps s1 = 1 \<and> startupJournal s1 ! 0 = Some 0 \<and> status (results st1 ! 0) = 204"
proof -
  have r: "0 < length (sy_sessions startup_demo_sys)" "startup_demo = sy_sessions startup_demo_sys ! 0"
    by (simp_all add: startup_demo_sys_def)
  obtain t1 s1 st1 where run: "startup demo_sha [] demo_rand [] 1 2 demo_counters (startup_demo, sy_store startup_demo_sys)
      demo_post [] 0 [] 0 = (t1, (s1, st1), S_result 0)"
    using demo_startup unfolding r(2) [symmetric] by blast
  have fresh: "startupJournal startup_demo = replicate 40 None" "startupSteps startup_demo = 0"
    by (simp_all add: startup_demo_def demo_session_def)
  have "startupSteps s1 = Suc 0 \<and> startupJournal s1 = (startupJournal startup_demo)[0 := Some 0]
    \<and> step_done demo_sha [] startup_demo s1 demo_post [] 0 [] (results st1 ! 0)"
    using startup_lockstep [OF startup_demo_reachable demo_fills r] run fresh by fastforce
  then show ?thesis using run fresh by (auto simp: step_done_def)
qed

theorem startup_retry_witness:
  "\<exists>t1 s1 st1 y2. startup demo_sha [] demo_rand [] 1 2 demo_counters (startup_demo, sy_store startup_demo_sys) demo_post [] 0 [] 0
      = (t1, (s1, st1), S_result 0)
    \<and> y2 = \<lparr>sy_sessions = [startup_demo, s1], sy_store = st1, sy_writers = [0]\<rparr>
    \<and> snd (snd (startup demo_sha [] demo_rand [] 3 4 t1 (sy_sessions y2 ! 1, sy_store y2) demo_post [] 0 [] 0)) = S_result 0"
proof -
  obtain t1 s1 st1 where run: "startup demo_sha [] demo_rand [] 1 2 demo_counters
      (sy_sessions startup_demo_sys ! 0, sy_store startup_demo_sys) demo_post [] 0 [] 0 = (t1, (s1, st1), S_result 0)"
    and d: "startupDeadline s1 = Some (2 + 120 * Second)" and p: "s_peer s1 = New True" "\<not> realtime s1" "\<not> startupInvalid s1"
    using demo_startup by blast
  let ?y1 = "startup_demo_sys\<lparr>sy_sessions := (sy_sessions startup_demo_sys)[0 := s1], sy_store := st1, sy_writers := 0 # sy_writers startup_demo_sys\<rparr>"
  let ?y2 = "\<lparr>sy_sessions = [startup_demo, s1], sy_store = st1, sy_writers = [0]\<rparr>"
  have fresh: "fresh_session startup_demo" by (simp add: fresh_session_def startup_demo_def demo_session_def)
  have "sys_step demo_sha [] demo_rand [] ?y1 ?y2"
    using sys_new [OF fresh, of demo_sha "[]" demo_rand "[]" ?y1] by (simp add: startup_demo_sys_def)
  then have f: "(follows demo_sha [] demo_rand [])\<^sup>*\<^sup>* (?y1, 0) (?y2, 1)"
    by (intro r_into_rtranclp) (simp add: follows_def startup_demo_sys_def)
  have "peer_closed (New True) = False" by (simp add: New_def newPeer_def)
  then have s2: "s1 = sy_sessions ?y2 ! 1" "\<not> peer_closed (s_peer s1)" using p(1) by simp_all
  have "0 < length (sy_sessions startup_demo_sys)" "3 < 2 + 120 * Second" by (simp_all add: startup_demo_sys_def Second_def)
  from startup_retry [OF startup_demo_reachable demo_fills this(1) run f s2(1) p(2,3) s2(2) d this(2)] run show ?thesis
    by (auto simp: startup_demo_sys_def)
qed

end
