(* ===== verification/Carrier_Properties.thy ===== *)
theory Carrier_Properties
  imports Session_Properties Carrier
begin

text \<open>
  Properties of the carriers: HTTP/3 uploads that arrive in any order are applied in sequence, the
  slots for them are bounded, and a WebSocket carrier never reaches the panic of an unset map.
\<close>

section \<open>Received cells\<close>

text \<open>A received cell changes only these fields of its session.\<close>

lemma receiveRealtime_frame:
  assumes "receiveRealtime (t, s) now body = ((t', s'), r)"
  shows "h3 s' = h3 s \<and> packet s' = packet s \<and> pendingUploads s' = pendingUploads s \<and> h3Active s' = h3Active s
    \<and> authed s' = authed s \<and> realtime s' = realtime s \<and> startupJournal s' = startupJournal s
    \<and> startupSteps s' = startupSteps s \<and> startupBytes s' = startupBytes s \<and> startupInvalid s' = startupInvalid s"
  using assms
  by (auto simp: receiveRealtime_def accept_cell_def Let_def split: if_splits outcome.splits prod.splits)

lemma receiveRealtime_up:
  assumes "receiveRealtime (t, s) now body = ((t', s'), r)" and "h3 s"
  shows "up s' = (if r = Ok () then up s + 1 else up s)"
proof (cases "r = Panic")
  case False
  then show ?thesis using receiveRealtime_cases [OF assms(1)] by (cases "r = Ok ()") auto
next
  case True
  have "count_upload t0 (accept_cell s p now q fs) n f fs \<noteq> Panic" for t0 p q fs n f
  proof -
    have "h3 (accept_cell s p now q fs)" using assms(2) by (simp add: accept_cell_def Let_def)
    then show ?thesis using count_upload_Ok by (metis outcome.distinct(3))
  qed
  then show ?thesis
    using assms(1) True by (auto simp: receiveRealtime_def Let_def split: if_splits outcome.splits prod.splits)
qed

lemma session_close_frame:
  assumes "session_close (s, st) = (s', st')"
  shows "up s' = up s \<and> pendingUploads s' = pendingUploads s \<and> h3 s' = h3 s"
  using assms by (auto simp: session_close_def clearStartupLocked_def)

section \<open>Ordered uploads\<close>

text \<open>The uploads finished by one pass: consecutive sequence numbers, of which only the last may have failed.\<close>

definition in_sequence :: "u32 \<Rightarrow> (u32 \<times> nat \<times> string option) list \<Rightarrow> bool" where
  "in_sequence k applied \<longleftrightarrow>
     map fst applied = map (\<lambda>i. k + of_nat i) [0..<length applied]
     \<and> list_all (\<lambda>x. snd (snd x) = None) (butlast applied)"

definition successes :: "(u32 \<times> nat \<times> string option) list \<Rightarrow> nat" where
  "successes applied = length (filter (\<lambda>x. snd (snd x) = None) applied)"

lemma in_sequence_Cons:
  assumes "in_sequence (k + 1) xs"
  shows "in_sequence k ((k, c, None) # xs)"
proof -
  have "map fst ((k, c, None) # xs) = (k + of_nat 0) # map (\<lambda>i. k + of_nat (Suc i)) [0..<length xs]"
    using assms by (simp add: in_sequence_def add.assoc)
  also have "\<dots> = map (\<lambda>i. k + of_nat i) [0..<Suc (length xs)]"
    by (simp add: upt_conv_Cons map_Suc_upt [symmetric] del: upt_Suc)
  finally show ?thesis using assms by (simp add: in_sequence_def del: upt_Suc)
qed

text \<open>What one turn of the loop does with the upload at the next sequence number.\<close>

definition apply_one ::
  "(nat \<Rightarrow> bool) \<Rightarrow> int \<Rightarrow> counters \<times> session \<Rightarrow> pendingUpload \<Rightarrow> (counters \<times> session) \<times> (string, string option) outcome" where
  "apply_one ended now ts current =
     (if ended (p_ctx current) then (ts, Ok (Some ''context canceled''))
      else case receiveRealtime ts now (p_body current) of
        (ts, Ok _) \<Rightarrow> (ts, Ok None)
      | (ts, Fail e) \<Rightarrow> (ts, Ok (Some e))
      | (ts, Panic) \<Rightarrow> (ts, Panic))"

declare apply_pending.simps [simp del]

lemma apply_pending_None:
  "pendingUploads s = Some ps \<Longrightarrow> map_of ps k = None \<Longrightarrow> apply_pending ended now (t, s, st) k = ((t, s, st), Ok [])"
  by (simp add: apply_pending.simps)

lemma apply_pending_Some:
  assumes "pendingUploads s = Some ps" and "map_of ps k = Some current"
    and "apply_one ended now (t, s) current = ((t1, s1), err)"
  shows "apply_pending ended now (t, s, st) k =
    (let s2 = s1\<lparr>pendingUploads := Some (drop_pending k ps)\<rparr> in
     case err of
       Ok None \<Rightarrow>
         (case apply_pending ended now (t1, s2, st) (k + 1) of
            (x, Ok applied) \<Rightarrow> (x, Ok ((k, p_ctx current, None) # applied))
          | (x, Fail e) \<Rightarrow> (x, Fail e)
          | (x, Panic) \<Rightarrow> (x, Panic))
     | Ok (Some e) \<Rightarrow> (case session_close (s2, st) of (s, st) \<Rightarrow> ((t1, s, st), Ok [(k, p_ctx current, Some e)]))
     | Fail e \<Rightarrow> ((t1, s1, st), Fail e)
     | Panic \<Rightarrow> ((t1, s1, st), Panic))"
  using assms by (subst apply_pending.simps) (simp add: apply_one_def [symmetric] Let_def split: outcome.split option.split prod.split)

lemma apply_one_up:
  assumes "apply_one ended now (t, s) current = ((t1, s1), err)" and "h3 s"
  shows "up s1 = (if err = Ok None then up s + 1 else up s) \<and> h3 s1"
proof -
  obtain t2 s2 r where r: "receiveRealtime (t, s) now (p_body current) = ((t2, s2), r)" by (metis surj_pair)
  show ?thesis
    using assms r receiveRealtime_up [OF r assms(2)] receiveRealtime_frame [OF r]
    by (auto simp: apply_one_def split: if_splits outcome.splits)
qed

lemma apply_pending_spec:
  assumes "apply_pending ended now (t, s, st) k = ((t', s', st'), Ok applied)"
    and "h3 s" and "k = up s" and "pendingUploads s = Some ps"
  shows "in_sequence k applied \<and> up s' = k + of_nat (successes applied)
    \<and> (\<exists>ps'. pendingUploads s' = Some ps' \<and> ps' = filter (\<lambda>p. fst p \<notin> fst ` set applied) ps
        \<and> (list_all (\<lambda>x. snd (snd x) = None) applied \<longrightarrow> map_of ps' (up s') = None))"
  using assms
proof (induction "length ps" arbitrary: t s st k ps applied rule: less_induct)
  case less
  show ?case
  proof (cases "map_of ps k")
    case None
    then show ?thesis
      using less.prems apply_pending_None [OF less.prems(4) None] by (auto simp: in_sequence_def successes_def)
  next
    case (Some current)
    obtain t1 s1 err where one: "apply_one ended now (t, s) current = ((t1, s1), err)" by (metis surj_pair)
    note eq = apply_pending_Some [OF less.prems(4) Some one, of st]
    have up1: "up s1 = (if err = Ok None then k + 1 else k)" and h1: "h3 s1"
      using apply_one_up [OF one less.prems(2)] less.prems(3) by auto
    let ?s1 = "s1\<lparr>pendingUploads := Some (drop_pending k ps)\<rparr>"
    consider "err = Ok None" | e where "err = Ok (Some e)"
      using less.prems(1) eq by (cases err; cases "case err of Ok x \<Rightarrow> x | _ \<Rightarrow> None") (auto simp: Let_def)
    then show ?thesis
    proof cases
      case 1
      obtain applied' where rec: "apply_pending ended now (t1, ?s1, st) (k + 1) = ((t', s', st'), Ok applied')"
        and applied: "applied = (k, p_ctx current, None) # applied'"
        using less.prems(1) eq 1 by (auto simp: Let_def split: prod.splits outcome.splits)
      have "length (drop_pending k ps) < length ps" by (rule drop_pending_less [OF Some])
      from less.hyps [OF this rec] have ih: "in_sequence (k + 1) applied'" "up s' = k + 1 + of_nat (successes applied')"
        "pendingUploads s' = Some (filter (\<lambda>p. fst p \<notin> fst ` set applied') (drop_pending k ps))"
        "list_all (\<lambda>x. snd (snd x) = None) applied' \<longrightarrow>
           map_of (filter (\<lambda>p. fst p \<notin> fst ` set applied') (drop_pending k ps)) (up s') = None"
        using h1 up1 1 by auto
      have flt: "filter (\<lambda>p. fst p \<notin> fst ` set applied') (drop_pending k ps) = filter (\<lambda>p. fst p \<notin> fst ` set applied) ps"
        unfolding applied drop_pending_def by (simp add: conj_commute)
      show ?thesis using ih in_sequence_Cons [OF ih(1)] unfolding flt by (simp add: applied successes_def)
    next
      case 2
      obtain s2 st2 where close: "session_close (?s1, st) = (s2, st2)" by force
      then have "s' = s2" and applied: "applied = [(k, p_ctx current, Some e)]"
        using less.prems(1) eq 2 by (auto simp: Let_def)
      then have "up s' = k" "pendingUploads s' = Some (drop_pending k ps)"
        using session_close_frame [OF close] up1 2 by auto
      then show ?thesis using applied by (simp add: in_sequence_def successes_def drop_pending_def)
    qed
  qed
qed

section \<open>Properties\<close>

text \<open>
  C33. HTTP/3 uploads are applied in sequence, whatever order the requests arrive in: an
  accepted upload lies less than eight ahead of the next sequence number and was not pending, what is
  finished by it is a consecutive run of sequence numbers from the next one on of which only the last may have
  failed, the sequence number advances by exactly the successful ones, exactly the finished uploads leave the
  table, and after a run without error nothing that could be applied is left waiting.
\<close>

theorem orderedUpload_in_order:
  assumes "orderedUpload ended now (t, s, st) ctx body = ((t', s', st'), Ok applied)" and "h3 s" and "pendingUploads s = Some ps"
  shows "\<exists>sequence frames n ps'. Decode body = Ok (sequence, frames, n)
    \<and> up s \<le> sequence \<and> unat sequence < unat (up s) + 8 \<and> map_of ps sequence = None
    \<and> in_sequence (up s) applied \<and> up s' = up s + of_nat (successes applied)
    \<and> pendingUploads s' = Some ps'
    \<and> ps' = filter (\<lambda>p. fst p \<notin> fst ` set applied) ((sequence, \<lparr>p_ctx = ctx, p_body = body\<rparr>) # ps)
    \<and> length ps' \<le> 8
    \<and> (list_all (\<lambda>x. snd (snd x) = None) applied \<longrightarrow> map_of ps' (up s') = None)"
proof -
  have eight: "maxPendingUploads = 8" by (simp add: maxPendingUploads_def)
  obtain sequence frames n where dec: "Decode body = Ok (sequence, frames, n)"
    and win: "\<not> sequence < up s" "\<not> unat sequence - unat (up s) \<ge> 8" "length ps < 8" "map_of ps sequence = None"
    and run: "apply_pending ended now (t, s\<lparr>pendingUploads := Some ((sequence, \<lparr>p_ctx = ctx, p_body = body\<rparr>) # ps)\<rparr>, st) (up s)
        = ((t', s', st'), Ok applied)"
    using assms by (auto simp: orderedUpload_def eight Let_def split: if_splits outcome.splits prod.splits)
  have "up s \<le> sequence" "unat sequence < unat (up s) + 8" using win(1,2) by auto
  moreover have "length (filter (\<lambda>p. fst p \<notin> fst ` set applied) ((sequence, \<lparr>p_ctx = ctx, p_body = body\<rparr>) # ps)) \<le> 8"
    using win(3) by (intro order_trans [OF length_filter_le]) simp
  moreover have "h3 (s\<lparr>pendingUploads := Some ((sequence, \<lparr>p_ctx = ctx, p_body = body\<rparr>) # ps)\<rparr>)"
    "up s = up (s\<lparr>pendingUploads := Some ((sequence, \<lparr>p_ctx = ctx, p_body = body\<rparr>) # ps)\<rparr>)"
    "pendingUploads (s\<lparr>pendingUploads := Some ((sequence, \<lparr>p_ctx = ctx, p_body = body\<rparr>) # ps)\<rparr>)
      = Some ((sequence, \<lparr>p_ctx = ctx, p_body = body\<rparr>) # ps)"
    by (simp_all add: assms(2))
  note apply_pending_spec [OF run this]
  ultimately show ?thesis using dec win(4) by blast
qed


section \<open>No panic\<close>

definition carrier_ok :: "counters \<times> session \<Rightarrow> bool" where
  "carrier_ok ts \<longleftrightarrow> mux_reachable (s_peer (snd ts))
     \<and> (h3 (snd ts) \<or> packet (snd ts) \<or> WSCellCapacities (fst ts) \<noteq> None)"

lemma Receive_reachable: "mux_reachable p \<Longrightarrow> Receive p fs = (p', r) \<Longrightarrow> r \<noteq> Panic \<and> mux_reachable p'"
  using peer_inv_Receive [OF mux_reachable_inv, of p fs] mux_reachable_step [OF _ receive_call, of p fs] by force

lemma accept_cell_fields [simp]:
  "h3 (accept_cell s p now q fs) = h3 s" "packet (accept_cell s p now q fs) = packet s" "s_peer (accept_cell s p now q fs) = p"
  by (simp_all add: accept_cell_def Let_def)

lemma count_upload_capacities:
  "count_upload t s n filler fs = Ok t' \<Longrightarrow> WSCellCapacities t \<noteq> None \<Longrightarrow> WSCellCapacities t' \<noteq> None"
  by (auto simp: count_upload_def Let_def split: if_splits option.splits)

lemma receiveRealtime_ok:
  assumes "carrier_ok (t, s)" and "receiveRealtime (t, s) now body = ((t', s'), r)"
  shows "r \<noteq> Panic \<and> carrier_ok (t', s')"
proof (cases "Decode body")
  case (Ok x)
  obtain sequence frames filler where x: "x = (sequence, frames, filler)" by (cases x)
  obtain p q where rc: "Receive (s_peer s) frames = (p, q)" by force
  have p: "q \<noteq> Panic" "mux_reachable p"
    using Receive_reachable [OF _ rc] assms(1) by (auto simp: carrier_ok_def)
  let ?e = "accept_cell s p now sequence frames"
  obtain t1 where t1: "count_upload t ?e (length body) filler frames = Ok t1"
    using count_upload_Ok [of ?e t "length body" filler frames] assms(1) by (auto simp: carrier_ok_def)
  have "carrier_ok (t1, ?e)" using count_upload_capacities [OF t1] p assms(1) by (auto simp: carrier_ok_def)
  then show ?thesis
    using assms Ok x rc p t1
    by (auto simp: receiveRealtime_def carrier_ok_def Let_def split: if_splits outcome.splits)
next
  case (Fail e)
  then show ?thesis using assms by (auto simp: receiveRealtime_def split: if_splits)
next
  case Panic
  then have False using decode_frames_no_panic
    by (auto simp: Decode_def Let_def and_then_Panic_iff split: prod.splits if_splits)
  then show ?thesis ..
qed

lemma ws_message_ok: "carrier_ok ts \<Longrightarrow> ws_message ts now msg = (ts', r) \<Longrightarrow> r \<noteq> Panic \<and> carrier_ok ts'"
proof -
  assume ok: "carrier_ok ts" and run: "ws_message ts now msg = (ts', r)"
  obtain t s where ts: "ts = (t, s)" by force
  show ?thesis
  proof (cases msg)
    case (Some m)
    obtain binary body where m: "m = (binary, body)" by force
    obtain t2 s2 q where q: "receiveRealtime (t, s) now body = ((t2, s2), q)" by (metis surj_pair)
    show ?thesis
      using run ok ts Some m receiveRealtime_ok [OF _ q] q by (cases q) (auto simp: ws_message_def split: if_splits)
  qed (use run ok in \<open>auto simp: ws_message_def\<close>)
qed

lemma ws_reader_ok: "carrier_ok ts \<Longrightarrow> ws_reader ts msgs = (ts', r) \<Longrightarrow> r \<noteq> Panic \<and> carrier_ok ts'"
proof (induction ts msgs rule: ws_reader.induct)
  case (2 ts now msg rest)
  obtain u q where q: "ws_message ts now msg = (u, q)" by (metis surj_pair)
  note ok = ws_message_ok [OF 2(2) q]
  show ?case using 2 q ok by (cases q) (auto split: bool.splits)
qed auto

lemma turn_taken_reachable: "mux_reachable (s_peer s) \<Longrightarrow> mux_reachable (fst (turn_taken s))"
  unfolding turn_taken_def Let_def by (auto intro: mux_reachable_step take_call take_controls_call)

lemma count_download_ok:
  assumes "carrier_ok (t, s)" and "count_download t s idle body fs capacity = r"
  shows "\<exists>t'. r = Ok t' \<and> carrier_ok (t', s)"
  using assms by (auto simp: count_download_def carrier_ok_def Let_def split: option.splits if_splits)

lemma writeCells_ok:
  assumes ok: "carrier_ok (t, s)" and rand: "fills rand" and run: "writeCells rand (t, s) now idle wrote = (ts', r)"
  shows "r \<noteq> Panic \<and> carrier_ok ts'"
proof -
  obtain s1 turn where w: "write_cell rand s now idle = (s1, turn)" by force
  have no_panic: "Encode rand q c fs \<noteq> Panic" for q c fs using rand by (simp add: Encode_eq split: option.splits)
  have "mux_reachable (s_peer s1) \<and> h3 s1 = h3 s \<and> packet s1 = packet s \<and> turn \<noteq> T_panic"
    using w ok turn_taken_reachable [of s] no_panic
    by (auto simp: write_cell_eq carrier_ok_def Let_def split: if_splits outcome.splits)
  then have ok1: "carrier_ok (t, s1)" "turn \<noteq> T_panic" using ok by (simp_all add: carrier_ok_def)
  show ?thesis
  proof (cases turn)
    case (T_cell body fs capacity)
    obtain t1 where "count_download t s1 idle body fs capacity = Ok t1" "carrier_ok (t1, s1)"
      using count_download_ok [OF ok1(1) refl] by blast
    then show ?thesis using run w T_cell ok1 by (auto simp: writeCells_def split: if_splits)
  qed (use run w ok1 in \<open>auto simp: writeCells_def\<close>)
qed

text \<open>
  The life of a WebSocket carrier after the upgrade: its reader, its writer, the goroutines of the streams, other carriers
  that count, and the end of the session interleave. No code of the transport makes a map of the counters nil again.
\<close>

inductive ws_step :: "(nat \<Rightarrow> bytes option) \<Rightarrow> counters \<times> session \<Rightarrow> counters \<times> session \<Rightarrow> bool" for rand where
  ws_reads: "ws_message ts now msg = (ts', r) \<Longrightarrow> ws_step rand ts ts'"
| ws_writes: "writeCells rand ts now idle wrote = (ts', r) \<Longrightarrow> ws_step rand ts ts'"
| ws_streams: "peer_step (s_peer s) p \<Longrightarrow> ws_step rand (t, s) (t, s\<lparr>s_peer := p\<rparr>)"
| ws_counters: "(WSCellCapacities t \<noteq> None \<Longrightarrow> WSCellCapacities t' \<noteq> None) \<Longrightarrow> ws_step rand (t, s) (t', s)"
| ws_closed: "session_close (s, st) = (s', st') \<Longrightarrow> ws_step rand (t, s) (t, s')"

lemma ws_step_ok: "ws_step rand ts ts' \<Longrightarrow> fills rand \<Longrightarrow> carrier_ok ts \<Longrightarrow> carrier_ok ts'"
proof (induction rule: ws_step.induct)
  case (ws_reads ts now msg ts' r)
  then show ?case using ws_message_ok by blast
next
  case (ws_writes ts now idle wrote ts' r)
  then show ?case using writeCells_ok by (cases ts) blast
next
  case (ws_streams s p t)
  then show ?case using mux_reachable_step by (auto simp: carrier_ok_def)
next
  case (ws_counters t t' s)
  then show ?case by (auto simp: carrier_ok_def)
next
  case (ws_closed s st s' st' t)
  then show ?case
    using mux_reachable_step [OF _ close_call, of "s_peer s"]
    by (auto simp: carrier_ok_def session_close_def clearStartupLocked_def)
qed

interpretation ws_process: step_system "carrier_ok" "ws_step rand" "\<lambda>ts. fills rand \<longrightarrow> carrier_ok ts"
  for rand
  by unfold_locales (use ws_step_ok in blast)+

text \<open>The same of the HTTP/3 pipeline: applying what is pending does not panic.\<close>

lemma apply_pending_no_panic:
  assumes "carrier_ok (t, s)" and "h3 s" and "apply_pending ended now (t, s, st) k = (x, r)"
  shows "\<exists>applied. r = Ok applied"
  using assms
proof (induction "case pendingUploads s of None \<Rightarrow> 0 | Some ps \<Rightarrow> length ps" arbitrary: t s st k x r rule: less_induct)
  case less
  show ?case
  proof (cases "\<exists>ps current. pendingUploads s = Some ps \<and> map_of ps k = Some current")
    case False
    then show ?thesis using less.prems(3) by (subst (asm) apply_pending.simps) (auto split: option.splits)
  next
    case True
    then obtain ps current where ps: "pendingUploads s = Some ps" "map_of ps k = Some current" by blast
    obtain t1 s1 err where one: "apply_one ended now (t, s) current = ((t1, s1), err)" by (metis surj_pair)
    obtain t2 s2 q where q: "receiveRealtime (t, s) now (p_body current) = ((t2, s2), q)" by (metis surj_pair)
    have ok: "\<exists>e. err = Ok e" "carrier_ok (t1, s1)" "h3 s1"
      using one q receiveRealtime_ok [OF less.prems(1) q] receiveRealtime_frame [OF q] less.prems(1,2)
      by (auto simp: apply_one_def split: if_splits outcome.splits)
    let ?s2 = "s1\<lparr>pendingUploads := Some (drop_pending k ps)\<rparr>"
    obtain y q where rec: "apply_pending ended now (t1, ?s2, st) (k + 1) = (y, q)" by (metis surj_pair)
    have "\<exists>applied. q = Ok applied"
      using less.hyps [of ?s2 t1 st "k + 1" y q] drop_pending_less [OF ps(2)] ok rec ps(1) by (simp add: carrier_ok_def)
    then show ?thesis
      using less.prems(3) ok(1) rec unfolding apply_pending_Some [OF ps one, of st]
      by (auto simp: Let_def split: option.splits prod.splits)
  qed
qed

lemma orderedUpload_no_panic:
  assumes "carrier_ok (t, s)" and "h3 s" and "pendingUploads s \<noteq> None"
  shows "snd (orderedUpload ended now (t, s, st) ctx body) \<noteq> Panic"
proof (cases "Decode body")
  case (Ok v)
  obtain sequence frames n where v: "v = (sequence, frames, n)" by (cases v)
  obtain ps where ps: "pendingUploads s = Some ps" using assms(3) by blast
  let ?s = "s\<lparr>pendingUploads := Some ((sequence, \<lparr>p_ctx = ctx, p_body = body\<rparr>) # ps)\<rparr>"
  obtain x r where x: "apply_pending ended now (t, ?s, st) (up s) = (x, r)" by (metis surj_pair)
  have "\<exists>applied. r = Ok applied" using apply_pending_no_panic [OF _ _ x] assms(1,2) by (simp add: carrier_ok_def)
  then show ?thesis using Ok v ps x by (auto simp: orderedUpload_def Let_def)
next
  case Panic
  then show ?thesis using decode_frames_no_panic
    by (auto simp: Decode_def Let_def and_then_Panic_iff split: prod.splits if_splits)
qed (simp add: orderedUpload_def)

lemma demo_reachable: "mux_reachable (New True)"
  by (rule mux_reachable_start) (auto simp: peer_start_def)

theorem orderedUpload_in_order_witness:
  "\<exists>x applied. orderedUpload (\<lambda>_. False) 9 (demo_counters, demo_session\<lparr>pendingUploads := Some []\<rparr>,
      \<lparr>startupJournalBytes = 0, results = []\<rparr>) 1 demo_cell = (x, Ok applied) \<and> in_sequence 0 applied"
proof -
  let ?s = "demo_session\<lparr>pendingUploads := Some []\<rparr>" and ?st = "\<lparr>startupJournalBytes = 0, results = []\<rparr>"
  have s: "h3 ?s" "up ?s = 0" "pendingUploads ?s = Some []" by (simp_all add: demo_session_def)
  let ?s1 = "?s\<lparr>pendingUploads := Some [(0, \<lparr>p_ctx = 1, p_body = demo_cell\<rparr>)]\<rparr>"
  have ok: "carrier_ok (demo_counters, ?s1)" "h3 ?s1"
    by (simp_all add: carrier_ok_def demo_session_def demo_reachable)
  obtain t' s' st' r where r: "apply_pending (\<lambda>_. False) 9 (demo_counters, ?s1, ?st) 0 = ((t', s', st'), r)" by (metis surj_pair)
  obtain applied where "r = Ok applied" using apply_pending_no_panic [OF ok r] by blast
  with r have run: "orderedUpload (\<lambda>_. False) 9 (demo_counters, ?s, ?st) 1 demo_cell = ((t', s', st'), Ok applied)"
    using s by (simp add: orderedUpload_def demo_cell_decodes upload_capacity_h3_def maxPendingUploads_def)
  from orderedUpload_in_order [OF run s(1,3)] have "in_sequence (up ?s) applied" by blast
  then show ?thesis using run unfolding s(2) by blast
qed

text \<open>
  C34. A WebSocket carrier does not panic. Counting the upgrade makes the maps of the counters that are nil and counts the
  subprotocol in one of them; from then on, in whatever order the reader, the writer, the streams, the
  counters of other carriers and the end of the session take turns, and whatever the client sends, neither handling a message nor
  a turn of the writer writes to a nil map or indexes out of range, and the multiplexer stays in a reachable state.
\<close>

theorem websocket_no_panic:
  assumes "mux_reachable (s_peer s)" and "fills rand" and "realtime_upgraded (t, s) protocol = (ts, r)"
    and "(ws_step rand)\<^sup>*\<^sup>* ts (t', s')"
  shows "r = Ok () \<and> WSSubprotocols (fst ts) = Some (bump protocol (case WSSubprotocols t of None \<Rightarrow> \<lambda>_. 0 | Some m \<Rightarrow> m))
    \<and> WSCellCapacities (fst ts) = Some (case WSCellCapacities t of None \<Rightarrow> \<lambda>_. 0 | Some m \<Rightarrow> m)
    \<and> snd (ws_message (t', s') now msg) \<noteq> Panic
    \<and> snd (writeCells rand (t', s') now idle wrote) \<noteq> Panic \<and> mux_reachable (s_peer s')"
proof -
  have up: "r = Ok ()" "WSSubprotocols (fst ts) = Some (bump protocol (case WSSubprotocols t of None \<Rightarrow> \<lambda>_. 0 | Some m \<Rightarrow> m))"
    "WSCellCapacities (fst ts) = Some (case WSCellCapacities t of None \<Rightarrow> \<lambda>_. 0 | Some m \<Rightarrow> m)" "s_peer (snd ts) = s_peer s"
    using assms(3) by (auto simp: realtime_upgraded_def Let_def split: option.splits if_splits)
  then have "carrier_ok ts" using assms(1) by (simp add: carrier_ok_def)
  then have ok: "carrier_ok (t', s')" using ws_process.reachable_inv assms(2,4) by blast
  obtain x q where m: "ws_message (t', s') now msg = (x, q)" by (metis surj_pair)
  obtain y v where w: "writeCells rand (t', s') now idle wrote = (y, v)" by (metis surj_pair)
  show ?thesis using up ws_message_ok [OF ok m] m writeCells_ok [OF ok assms(2) w] w ok by (simp add: carrier_ok_def)
qed

text \<open>The carrier of a first WebSocket that has received a cell sends one.\<close>

theorem websocket_no_panic_witness:
  "\<exists>ts. realtime_upgraded (demo_counters, demo_session\<lparr>h3 := False\<rparr>) realtimeProtocol = (ts, Ok ())
    \<and> WSSubprotocols (fst ts) = Some (bump realtimeProtocol (\<lambda>_. 0))
    \<and> snd (writeCells (\<lambda>n. Some (replicate n 0)) (fst (ws_message ts 3 (Some (True, demo_cell)))) 4 False True) \<noteq> Panic"
proof -
  have reach: "mux_reachable (s_peer (demo_session\<lparr>h3 := False\<rparr>))"
    by (simp add: demo_session_def demo_reachable)
  have fills: "fills (\<lambda>n. Some (replicate n (0 :: u8)))" by (simp add: fills_def)
  obtain ts r where up: "realtime_upgraded (demo_counters, demo_session\<lparr>h3 := False\<rparr>) realtimeProtocol = (ts, r)" by (metis surj_pair)
  obtain t' s' q where m: "ws_message ts 3 (Some (True, demo_cell)) = ((t', s'), q)" by (metis surj_pair)
  have "(ws_step (\<lambda>n. Some (replicate n 0)))\<^sup>*\<^sup>* ts (t', s')" using ws_reads [OF m] by blast
  from websocket_no_panic [OF reach fills up this] up m show ?thesis by (auto simp: demo_counters_def)
qed

end
