(* ===== verification/Policy_Properties.thy ===== *)
theory Policy_Properties
  imports Policy
begin

text \<open>
  What the destination policy guarantees: only permitted addresses are tried, explicit rules come
  first, and without one the private networks are out of reach.
\<close>

section \<open>The default rules\<close>

text \<open>The private networks, described by their address bytes.\<close>

definition private_addr :: "bytes \<Rightarrow> bool" where
  "private_addr a =
     (case To4 a of
        Some v \<Rightarrow> unat (v ! 0) = 10 \<or> unat (v ! 0) = 127 \<or> (unat (v ! 0) = 172 \<and> unat (v ! 1) div 16 = 1)
          \<or> (unat (v ! 0) = 192 \<and> unat (v ! 1) = 168)
      | None \<Rightarrow> a = replicate 15 0 @ [1]
          \<or> (length a = 16 \<and> unat (a ! 0) = 254 \<and> unat (a ! 1) div 64 = 2))"

definition net_rule :: "bytes \<Rightarrow> bytes \<Rightarrow> destinationRule" where
  "net_rule a m = \<lparr>allow = False, network = Some \<lparr>IP = a, Mask = m\<rparr>, domain = [], subdomains = False\<rparr>"

lemmas ipv6_groups_8 = ipv6_groups.simps(2) [of 7, simplified Suc_numeral semiring_norm]

lemma be_put_2: "be_put 2 v = [of_nat (v div 256), of_nat v]"
  by (simp add: numeral_2_eq_2)

lemmas addr_defs = ParseAddr_def parse_ipv4_def ipv4_field_def is_digit_def digits_value_def
  parse_ipv6_def ipv6_groups_8 hex_value_def hex_number_def expand_ellipsis_def be_put_2

lemmas parse_defs = ParseCIDR_def index_byte_def addr_defs mask_bytes_def Let_def

lemma masks:
  "CIDRMask 8 4 = [255, 0, 0, 0]" "CIDRMask 12 4 = [255, 240, 0, 0]" "CIDRMask 16 4 = [255, 255, 0, 0]"
  "CIDRMask 128 16 = replicate 16 255" "CIDRMask 10 16 = [255, 192] @ replicate 14 0"
  "map2 (AND) (replicate 14 0 @ [0, 1]) (replicate 16 255) = (replicate 15 0 @ [1] :: bytes)"
  by code_simp+

lemma default_rules_eq:
  "default_rules =
     [net_rule [10, 0, 0, 0] [255, 0, 0, 0], net_rule [127, 0, 0, 0] [255, 0, 0, 0],
      net_rule [172, 16, 0, 0] [255, 240, 0, 0], net_rule [192, 168, 0, 0] [255, 255, 0, 0],
      net_rule (replicate 15 0 @ [1]) (replicate 16 255),
      net_rule ([254, 128] @ replicate 14 0) ([255, 192] @ replicate 14 0),
      \<lparr>allow = True, network = None, domain = [], subdomains = False\<rparr>]"
proof -
  have "ParseCIDR ''10.0.0.0/8'' = Some \<lparr>IP = [10, 0, 0, 0], Mask = [255, 0, 0, 0]\<rparr>"
    "ParseCIDR ''127.0.0.0/8'' = Some \<lparr>IP = [127, 0, 0, 0], Mask = [255, 0, 0, 0]\<rparr>"
    "ParseCIDR ''172.16.0.0/12'' = Some \<lparr>IP = [172, 16, 0, 0], Mask = [255, 240, 0, 0]\<rparr>"
    "ParseCIDR ''192.168.0.0/16'' = Some \<lparr>IP = [192, 168, 0, 0], Mask = [255, 255, 0, 0]\<rparr>"
    "ParseCIDR ''::1/128'' = Some \<lparr>IP = replicate 15 0 @ [1], Mask = replicate 16 255\<rparr>"
    "ParseCIDR ''fe80::/10'' = Some \<lparr>IP = [254, 128] @ replicate 14 0, Mask = [255, 192] @ replicate 14 0\<rparr>"
    by (simp_all add: parse_defs masks)
  then show ?thesis
    by (simp add: default_rules_def private_cidrs_def compileDestinationRule_def net_rule_def)
qed

lemma byte_cases: "list_all (\<lambda>n. P (of_nat n :: u8)) [0..<256] \<Longrightarrow> P b"
proof -
  assume "list_all (\<lambda>n. P (of_nat n :: u8)) [0..<256]"
  then have "\<forall>n < 256. P (of_nat n)" by (auto simp: list_all_iff)
  moreover have "unat b < 256" using unat_bound [of b] by simp
  ultimately have "P (of_nat (unat b))" by blast
  then show ?thesis by simp
qed

lemma byte_masks:
  "(b AND 240 = (16 :: u8)) = (unat b div 16 = 1)" "(b AND 192 = (128 :: u8)) = (unat b div 64 = 2)"
  "b AND 255 = (b :: u8)"
  by (rule byte_cases, code_simp)+

lemma byte_unat: "(b = (numeral k :: u8)) = (unat b = unat (numeral k :: u8))"
  by (auto simp: word_unat_eq_iff)

lemma mask_bytes_ones: "length a = n \<Longrightarrow> mask_bytes a (replicate n 255) = a"
  unfolding mask_bytes_def by (induction a arbitrary: n) (auto simp: byte_masks)

lemma mask_bytes_zeros: "length a = n \<Longrightarrow> mask_bytes a (replicate n 0) = replicate n 0"
  unfolding mask_bytes_def by (induction a arbitrary: n) auto

lemma mask_bytes_Cons: "mask_bytes (a # as) (m # ms) = (a AND m) # mask_bytes as ms"
  by (simp add: mask_bytes_def)

lemma To4_length: "To4 a = Some v \<Longrightarrow> length v = 4"
  by (auto simp: To4_def split: if_splits)

lemma length4: "length v = 4 \<Longrightarrow> \<exists>w x y z. v = [w, x, y, z]"
  by (auto simp: numeral_eq_Suc length_Suc_conv)

lemma To4_16: "To4 a = None \<Longrightarrow> length a \<noteq> 4"
  by (auto simp: To4_def split: if_splits)

text \<open>Membership in a network of four bytes, and in one of sixteen.\<close>

lemma Contains_v4:
  assumes "length n = 4" and "length m = 4"
  shows "Contains \<lparr>IP = n, Mask = m\<rparr> a = (case To4 a of Some v \<Rightarrow> mask_bytes n m = mask_bytes v m | None \<Rightarrow> False)"
proof -
  have "network_number \<lparr>IP = n, Mask = m\<rparr> = Some (n, m)" using assms by (simp add: network_number_def To4_def)
  then show ?thesis
    using assms To4_16 [of a] To4_length [of a] by (cases "To4 a") (auto simp: Contains_def)
qed

lemma Contains_v6:
  assumes "length n = 16" and "length m = 16" and "To4 n = None"
  shows "Contains \<lparr>IP = n, Mask = m\<rparr> a = (To4 a = None \<and> length a = 16 \<and> mask_bytes n m = mask_bytes a m)"
  using assms by (auto simp: Contains_def network_number_def Let_def dest: To4_length split: option.splits)

lemma To4_loopback: "To4 (replicate 15 0 @ [1]) = None"
  by code_simp

lemma Contains_loopback: "Contains \<lparr>IP = replicate 15 0 @ [1], Mask = replicate 16 255\<rparr> a = (a = replicate 15 0 @ [1])"
proof -
  have "mask_bytes (replicate 15 0 @ [1]) (replicate 16 255) = replicate 15 0 @ [1]"
    by (rule mask_bytes_ones) simp
  then show ?thesis using To4_loopback by (auto simp: Contains_v6 mask_bytes_ones)
qed

lemma Contains_link_local:
  "Contains \<lparr>IP = [254, 128] @ replicate 14 0, Mask = [255, 192] @ replicate 14 0\<rparr> a
     = (To4 a = None \<and> length a = 16 \<and> unat (a ! 0) = 254 \<and> unat (a ! 1) div 64 = 2)"
proof -
  have none: "To4 ([254, 128] @ replicate 14 0) = None" by code_simp
  have "mask_bytes ([254, 128] @ replicate 14 0) ([255, 192] @ replicate 14 0) = mask_bytes a ([255, 192] @ replicate 14 0)
      \<longleftrightarrow> unat (a ! 0) = 254 \<and> unat (a ! 1) div 64 = 2" if len: "length a = 16"
  proof -
    obtain x y r where a: "a = x # y # r" and "length r = 14"
      using len by (auto simp: numeral_eq_Suc length_Suc_conv)
    then have "mask_bytes r (replicate 14 0) = replicate 14 0" by (intro mask_bytes_zeros)
    moreover have "mask_bytes (replicate 14 0) (replicate 14 0) = (replicate 14 0 :: bytes)"
      by (rule mask_bytes_zeros) simp
    moreover have "y AND 192 = 128 \<longleftrightarrow> unat y div 64 = 2" by (rule byte_masks)
    moreover have "(128 :: u8) AND 192 = 128" "(254 :: u8) AND 255 = 254" by simp_all
    ultimately show ?thesis by (auto simp: a mask_bytes_Cons byte_masks byte_unat [of x])
  qed
  then show ?thesis using none by (auto simp: Contains_v6)
qed

lemma permitted_append:
  "permitted (rs @ qs) host a =
     (case List.find (\<lambda>r. matches r host (Some a)) rs of Some r \<Rightarrow> allow r | None \<Rightarrow> permitted qs host a)"
  by (induction rs) auto

lemma permitted_net_rule:
  "permitted (net_rule n m # rs) host a \<longleftrightarrow> \<not> Contains \<lparr>IP = n, Mask = m\<rparr> a \<and> permitted rs host a"
  by (simp add: net_rule_def matches_def)

lemma permitted_default: "permitted default_rules host a \<longleftrightarrow> \<not> private_addr a"
proof (cases "To4 a")
  case None
  then show ?thesis
    unfolding default_rules_eq permitted_net_rule Contains_link_local Contains_loopback
    by (auto simp: Contains_v4 private_addr_def matches_def)
next
  case (Some v)
  obtain w x y z where v: "v = [w, x, y, z]" using length4 [OF To4_length [OF Some]] by blast
  have "\<not> a = replicate 15 0 @ [1]" using Some To4_loopback by auto
  then show ?thesis
    unfolding default_rules_eq permitted_net_rule Contains_link_local Contains_loopback
    using Some v by (auto simp: Contains_v4 private_addr_def matches_def
        mask_bytes_def byte_masks byte_unat [of w] byte_unat [of x])
qed


section \<open>Attempts\<close>

lemma dial_addresses_tried:
  assumes "dial_addresses p env host port as = (tried, r)"
  shows "set tried \<subseteq> {a \<in> set as. permitted (rules p) host a}
    \<and> (\<forall>c. r = Ok c \<longrightarrow> tried \<noteq> [] \<and> connect env (last tried) port = Ok c)"
  using assms
proof (induction p env host port as arbitrary: tried rule: dial_addresses.induct)
  case (2 p env host port addr rest)
  then show ?case
    by (auto split: if_splits outcome.splits option.splits prod.splits)
qed auto

lemma add_subjects_Ok:
  "add_subjects ss al rs = Ok qs \<Longrightarrow> qs = rs @ map (\<lambda>s. fst (compileDestinationRule s al)) ss"
  by (induction ss arbitrary: rs) (fastforce split: prod.splits option.splits)+

definition explicit_rules :: "AccessConfig \<Rightarrow> destinationRule list" where
  "explicit_rules fp = concat (map (\<lambda>r. map (\<lambda>s. fst (compileDestinationRule s (Allow r))) (Subjects r)) (ACL fp))"

lemma add_rules_Ok:
  "add_rules acl rs = Ok qs \<Longrightarrow>
     qs = rs @ concat (map (\<lambda>r. map (\<lambda>s. fst (compileDestinationRule s (Allow r))) (Subjects r)) acl)"
proof (induction acl arbitrary: rs)
  case (Cons a acl)
  then obtain ms where "add_subjects (Subjects a) (Allow a) rs = Ok ms" and "add_rules acl ms = Ok qs"
    by (auto simp: and_then_Ok_iff)
  then show ?case using Cons.IH add_subjects_Ok by fastforce
qed simp

lemma newTCPPolicy_rules: "newTCPPolicy parse_url fp = Ok p \<Longrightarrow> rules p = explicit_rules fp @ default_rules"
  by (auto simp: newTCPPolicy_def and_then_Ok_iff Let_def explicit_rules_def
      dest!: add_rules_Ok split: if_splits option.splits)

section \<open>Properties\<close>

text \<open>
  C27. Every address a stream's dial tries was returned by the resolver for the requested
  host and is permitted by the first rule that matches it; the port is a decimal number in range and
  allowed, no domain rule denies the host, no upstream is configured, and a connection that is
  returned is the one of the last attempt.
\<close>

theorem dial_attempts_permitted:
  assumes "dialTransportDestination p env target = (tried, r)" and "a \<in> set tried"
  shows "\<exists>host port number as. SplitHostPort target = Ok (host, port) \<and> upstream p = None
    \<and> list_all is_digit port \<and> Atoi port = Ok number \<and> 1 \<le> number \<and> number \<le> 65535
    \<and> (ports p = [] \<or> number \<in> set (ports p)) \<and> \<not> domain_denied (rules p) host
    \<and> lookup env host = Ok as \<and> a \<in> set as \<and> permitted (rules p) host a
    \<and> (\<forall>c. r = Ok c \<longrightarrow> connect env (last tried) port = Ok c)"
proof -
  have "tried \<noteq> []" using assms(2) by auto
  then have dial: "DialContext p env target = (tried, r)"
    and "\<exists>host port number. SplitHostPort target = Ok (host, port) \<and> list_all is_digit port \<and> Atoi port = Ok number"
    using assms(1) by (auto simp: dialTransportDestination_def split: outcome.splits prod.splits if_splits)
  then obtain host port number where h: "SplitHostPort target = Ok (host, port)" "list_all is_digit port" "Atoi port = Ok number"
    by blast
  then obtain as where "upstream p = None" "1 \<le> number" "number \<le> 65535" "ports p = [] \<or> number \<in> set (ports p)"
    "\<not> domain_denied (rules p) host" "lookup env host = Ok as" "dial_addresses p env host port as = (tried, r)"
    using dial \<open>tried \<noteq> []\<close>
    by (auto simp: DialContext_def split: option.splits if_splits outcome.splits)
  then show ?thesis using dial_addresses_tried [of p env host port as tried r] assms(2) h by blast
qed

text \<open>
  C28. Explicit rules come first, in their order; an address that none of them matches is
  permitted exactly when it lies in no private network (10/8, 127/8, 172.16/12, 192.168/16, the IPv6
  loopback and link-local addresses), also when it is written as an IPv4-mapped IPv6 address.
\<close>

theorem newTCPPolicy_permits:
  assumes "newTCPPolicy parse_url fp = Ok p"
  shows "permitted (rules p) host a =
    (case List.find (\<lambda>r. matches r host (Some a)) (explicit_rules fp) of
       Some r \<Rightarrow> allow r | None \<Rightarrow> \<not> private_addr a)"
  unfolding newTCPPolicy_rules [OF assms] permitted_append permitted_default ..

definition demo_access :: AccessConfig where
  "demo_access = \<lparr>Credentials = [], ACL = [], AllowedPorts = [], DialTimeout = 0, Upstream = []\<rparr>"

definition demo_policy :: tcpPolicy where
  "demo_policy = \<lparr>rules = default_rules, ports = [], timeout = 30 * Second, upstream = None\<rparr>"

lemma demo_policy_new:
  "newTCPPolicy (\<lambda>_. None) demo_access = Ok demo_policy"
  by (simp add: newTCPPolicy_def demo_policy_def demo_access_def)

theorem newTCPPolicy_permits_witness:
  "\<not> permitted (rules demo_policy) ''h'' (v4InV6Prefix @ [127, 0, 0, 1])"
proof -
  have "private_addr (v4InV6Prefix @ [127, 0, 0, 1])" by code_simp
  then show ?thesis
    using newTCPPolicy_permits [OF demo_policy_new, of "''h''" "v4InV6Prefix @ [127, 0, 0, 1]"]
    by (simp add: explicit_rules_def demo_access_def)
qed

text \<open>A resolver that answers with a private and a public address, and a dialer that takes both.\<close>

definition demo_env :: "bytes dial_env" where
  "demo_env = \<lparr>ctx_err = None, lookup = (\<lambda>_. Ok [[10, 0, 0, 1], [192, 0, 2, 7]]), connect = (\<lambda>a _. Ok a),
     late_err = (\<lambda>_. None), dialUpstream = (\<lambda>_ _ _. Fail [])\<rparr>"

lemma demo_dial: "dialTransportDestination demo_policy demo_env ''h:80'' = ([[192, 0, 2, 7]], Ok [192, 0, 2, 7])"
proof -
  have "SplitHostPort ''h:80'' = Ok (''h'', ''80'')" by code_simp
  moreover have "Atoi ''80'' = Ok 80" by code_simp
  moreover have "permitted (rules demo_policy) ''h'' [192, 0, 2, 7]" "\<not> permitted (rules demo_policy) ''h'' [10, 0, 0, 1]"
    unfolding demo_policy_def tcpPolicy.simps permitted_default by code_simp+
  moreover have "\<not> domain_denied (rules demo_policy) ''h''"
    by (simp add: demo_policy_def default_rules_eq net_rule_def)
  moreover have "\<not> contains_any ''h'' (map char_of [0 :: nat, 13, 10, 9, 32] @ ''/?#@'')"
    "list_all is_digit ''80''" by code_simp+
  ultimately show ?thesis
    by (simp add: dialTransportDestination_def DialContext_def demo_env_def) (simp add: demo_policy_def)
qed

theorem dial_attempts_permitted_witness:
  "permitted (rules demo_policy) ''h'' [192, 0, 2, 7]"
proof -
  have "SplitHostPort ''h:80'' = Ok (''h'', ''80'')" by code_simp
  then show ?thesis using dial_attempts_permitted [OF demo_dial, of "[192, 0, 2, 7]"] by auto
qed

end
