(* ===== verification/Static_Files.thy ===== *)
theory Static_Files
  imports Http
begin

text \<open>
  The public site behind the carriers: \<^verbatim>\<open>application_static.go\<close>, with \<^verbatim>\<open>path.Clean\<close> and \<^verbatim>\<open>path.Join\<close> of
  the standard library. The directory of the site is a parameter: what \<^verbatim>\<open>Stat\<close> and the opening of a file
  return, each indexed by the number of the access, because the files may change between two accesses.
\<close>

section \<open>Paths\<close>

fun join_slash :: "string list \<Rightarrow> string" where
  "join_slash [] = []"
| "join_slash [c] = c"
| "join_slash (c # d # cs) = c @ CHR ''/'' # join_slash (d # cs)"

text \<open>
  The components that \<^verbatim>\<open>path.Clean\<close> keeps, on a stack: empty ones and dots go, two dots take the component
  before them away, and at the root of a rooted path they go too.
\<close>

fun clean_comps :: "bool \<Rightarrow> string list \<Rightarrow> string list \<Rightarrow> string list" where
  "clean_comps rooted [] stack = rev stack"
| "clean_comps rooted (c # cs) stack =
     (if c = [] \<or> c = ''.'' then clean_comps rooted cs stack
      else if c = ''..'' then
        (case stack of
           [] \<Rightarrow> clean_comps rooted cs (if rooted then [] else [c])
         | prev # rest \<Rightarrow> clean_comps rooted cs (if prev = ''..'' then c # stack else rest))
      else clean_comps rooted cs (c # stack))"

definition Clean :: "string \<Rightarrow> string" where
  "Clean p =
     (if has_prefix p ''/'' then CHR ''/'' # join_slash (clean_comps True (split_on CHR ''/'' p) [])
      else let r = join_slash (clean_comps False (split_on CHR ''/'' p) []) in if r = [] then ''.'' else r)"

text \<open>\<^verbatim>\<open>path.Join\<close> of two elements, the second one not empty.\<close>

definition Join :: "string \<Rightarrow> string \<Rightarrow> string" where
  "Join a b = (if a = [] then Clean b else Clean (a @ CHR ''/'' # b))"

section \<open>The application\<close>

record applicationAsset =
  asset_body :: bytes
  mime :: string

record siteResource =
  URI :: string
  res_path :: string
  res_kind :: string

text \<open>\<open>directory\<close> says that the root directory is open.\<close>

record applicationFiles =
  assets :: "(string \<times> applicationAsset) list"
  resources :: "siteResource list"
  app_identity :: string
  bodyBytes :: u64
  directory :: bool

definition asset :: "applicationFiles \<Rightarrow> string \<Rightarrow> applicationAsset option" where
  "asset app path = map_of (assets app) path"

definition isCarrierPath :: "string \<Rightarrow> bool" where
  "isCarrierPath path \<longleftrightarrow> path = ''/api/sync'' \<or> path = ''/api/events/brief''
     \<or> path = ''/api/events/state'' \<or> has_prefix path ''/media/chunk/''"

definition isReservedApplicationPath :: "applicationFiles \<Rightarrow> string \<Rightarrow> bool" where
  "isReservedApplicationPath app path \<longleftrightarrow> asset app path \<noteq> None \<or> path = ''/index.html'' \<or> path = ''/api/realtime''
     \<or> path = ''/api/stream'' \<or> path = ''/api/upload'' \<or> isCarrierPath path \<or> has_prefix path ''/__lab/''"

section \<open>Serving a file\<close>

datatype file_mode = Regular | IsDir | Irregular

datatype fs_err = NotExist | Denied

text \<open>
  \<open>F_pass\<close> leaves the request to the next handler. A redirect carries the path of its target; the query of
  the request is kept. \<open>F_file\<close> sends the content of the named file.
\<close>

datatype static_reply = F_pass | F_status nat | F_redirect string string | F_file string

definition redirectApplication :: "request \<Rightarrow> string \<Rightarrow> static_reply" where
  "redirectApplication r target = F_redirect target (RawQuery r)"

definition staticLookupError :: "fs_err \<Rightarrow> static_reply" where
  "staticLookupError e = (if e = NotExist then F_pass else F_status 403)"

text \<open>The path a request is redirected to, or its own path.\<close>

definition canonical_path :: "applicationFiles \<Rightarrow> string \<Rightarrow> string" where
  "canonical_path app requestPath =
     (let canonical = Clean requestPath in
      if canonical = ''/index.html'' then ''/''
      else if has_suffix requestPath ''/'' \<and> canonical \<noteq> ''/'' \<and> \<not> isReservedApplicationPath app canonical
      then canonical @ ''/'' else canonical)"

text \<open>
  Opening the file: it is looked at again, because it may have been replaced since \<open>Stat\<close>. The second look
  may fail too.
\<close>

definition open_static :: "(string \<Rightarrow> fs_err + file_mode option) \<Rightarrow> string \<Rightarrow> static_reply" where
  "open_static open_file name =
     (case open_file name of
        Inl e \<Rightarrow> staticLookupError e
      | Inr None \<Rightarrow> F_status 500
      | Inr (Some mode) \<Rightarrow> if mode \<noteq> Regular then F_status 404 else F_file name)"

text \<open>From the first look at the file: a directory stands for the index file in it.\<close>

definition serve_name ::
  "(nat \<Rightarrow> string \<Rightarrow> fs_err + file_mode) \<Rightarrow> (string \<Rightarrow> fs_err + file_mode option)
     \<Rightarrow> request \<Rightarrow> string \<Rightarrow> static_reply" where
  "serve_name stat open_file r name =
     (case stat 0 name of
        Inl e \<Rightarrow> staticLookupError e
      | Inr IsDir \<Rightarrow>
          (let name = Join name ''index.html'' in
           case stat 1 name of
             Inl e \<Rightarrow> staticLookupError e
           | Inr mode \<Rightarrow>
               if mode \<noteq> Regular then F_status 404
               else if \<not> has_suffix (Path r) ''/'' then redirectApplication r (Path r @ ''/'')
               else open_static open_file name)
      | Inr mode \<Rightarrow> if mode \<noteq> Regular then F_status 404 else open_static open_file name)"

definition serveStatic ::
  "(nat \<Rightarrow> string \<Rightarrow> fs_err + file_mode) \<Rightarrow> (string \<Rightarrow> fs_err + file_mode option)
     \<Rightarrow> applicationFiles \<Rightarrow> request \<Rightarrow> static_reply" where
  "serveStatic stat open_file app r =
     (if (Method r \<noteq> ''GET'' \<and> Method r \<noteq> ''HEAD'') \<or> \<not> directory app then F_pass
      else
        let requestPath = Path r in
        if \<not> has_prefix requestPath ''/'' \<or> contains_any requestPath [CHR 0x5C, CHR 0x00] then F_status 400
        else if list_ex (\<lambda>component. component = ''..'') (split_on CHR ''/'' requestPath) then F_status 400
        else
          let canonical = canonical_path app requestPath in
          if canonical \<noteq> requestPath then redirectApplication r canonical
          else serve_name stat open_file r (trim_prefix canonical ''/''))"

section \<open>Clean paths\<close>

text \<open>A component that can stand in a clean path.\<close>

definition proper :: "string \<Rightarrow> bool" where
  "proper c \<longleftrightarrow> c \<noteq> [] \<and> c \<noteq> ''.'' \<and> c \<noteq> ''..'' \<and> CHR ''/'' \<notin> set c"

lemma clean_comps_drop_dots:
  assumes "''..'' \<notin> set cs"
  shows "clean_comps rooted cs stack = rev stack @ filter (\<lambda>c. c \<noteq> [] \<and> c \<noteq> ''.'') cs"
  using assms by (induction rooted cs stack rule: clean_comps.induct) auto

lemma split_join:
  assumes "cs \<noteq> []" and "list_all (\<lambda>c. CHR ''/'' \<notin> set c) cs"
  shows "split_on CHR ''/'' (join_slash cs) = cs"
  using assms by (induction cs rule: join_slash.induct) (auto simp: split_on_no_sep split_on_append)

lemma join_split: "join_slash (split_on CHR ''/'' s) = s"
proof (induction s)
  case (Cons x xs)
  obtain y ys where s: "split_on CHR ''/'' xs = y # ys" by (cases "split_on CHR ''/'' xs") auto
  show ?case
  proof (cases "x = CHR ''/''")
    case True
    then show ?thesis using Cons s by simp
  next
    case False
    then show ?thesis using Cons s by (cases ys) auto
  qed
qed simp

lemma proper_comps: "list_all proper (filter (\<lambda>c. c \<noteq> [] \<and> c \<noteq> ''.'') cs)"
  if "''..'' \<notin> set cs" and "list_all (\<lambda>c. CHR ''/'' \<notin> set c) cs"
  using that by (auto simp: list_all_iff proper_def)

lemma Clean_rooted:
  assumes "has_prefix p ''/''" and "''..'' \<notin> set (split_on CHR ''/'' p)"
  obtains cs where "list_all proper cs" and "Clean p = CHR ''/'' # join_slash cs"
  using assms proper_comps [OF assms(2) split_on_sep] by (simp add: Clean_def clean_comps_drop_dots)

lemma proper_no_dots: "list_all proper cs \<Longrightarrow> ''..'' \<notin> set cs"
  by (auto simp: list_all_iff proper_def)

lemma proper_filter: "list_all proper cs \<Longrightarrow> filter (\<lambda>c. c \<noteq> [] \<and> c \<noteq> ''.'') cs = cs"
  by (auto simp: filter_id_conv list_all_iff proper_def)

lemma proper_sep: "list_all proper cs \<Longrightarrow> list_all (\<lambda>c. CHR ''/'' \<notin> set c) cs"
  by (auto simp: list_all_iff proper_def)

lemma split_proper:
  "list_all proper cs \<Longrightarrow> split_on CHR ''/'' (join_slash cs) = (if cs = [] then [[]] else cs)"
  using split_join [of cs] proper_sep by auto

lemma Clean_proper:
  assumes "list_all proper cs"
  shows "Clean (CHR ''/'' # join_slash cs) = CHR ''/'' # join_slash cs"
proof -
  have "split_on CHR ''/'' (CHR ''/'' # join_slash cs) = [] # (if cs = [] then [[]] else cs)"
    using split_proper [OF assms] by simp
  then show ?thesis using assms
    by (auto simp: Clean_def has_prefix_def clean_comps_drop_dots proper_no_dots proper_filter)
qed

lemma join_slash_append:
  "cs \<noteq> [] \<Longrightarrow> join_slash (cs @ [d]) = join_slash cs @ CHR ''/'' # d"
  by (induction cs rule: join_slash.induct) auto

lemma Clean_slash:
  assumes "list_all proper cs" and "cs \<noteq> []"
  shows "Clean (CHR ''/'' # join_slash cs @ ''/'') = CHR ''/'' # join_slash cs"
proof -
  have "split_on CHR ''/'' (join_slash (cs @ [[]])) = cs @ [[]]"
    using split_join [of "cs @ [[]]"] proper_sep [OF assms(1)] by simp
  then have "split_on CHR ''/'' (join_slash cs @ ''/'') = cs @ [[]]"
    using join_slash_append [OF assms(2), of "[]"] by simp
  then show ?thesis using assms
    by (auto simp: Clean_def has_prefix_def clean_comps_drop_dots proper_no_dots proper_filter)
qed

lemma join_proper_Nil: "list_all proper cs \<Longrightarrow> join_slash cs = [] \<longleftrightarrow> cs = []"
  by (cases cs rule: join_slash.cases) (auto simp: proper_def)

lemma has_suffix_last: "has_suffix s [c] \<longleftrightarrow> s \<noteq> [] \<and> last s = c"
  by (cases s rule: rev_cases) (auto simp: has_suffix_def)

lemma last_join_proper: "list_all proper cs \<Longrightarrow> cs \<noteq> [] \<Longrightarrow> last (join_slash cs) \<noteq> CHR ''/''"
  by (induction cs rule: join_slash.induct) (auto simp: proper_def join_proper_Nil dest: last_in_set)

lemma join_proper_slash:
  "list_all proper cs \<Longrightarrow> has_suffix (CHR ''/'' # join_slash cs) ''/'' \<longleftrightarrow> cs = []"
  using last_join_proper [of cs] join_proper_Nil [of cs] by (auto simp: has_suffix_last)

text \<open>The path a request is redirected to is canonical itself.\<close>

lemma canonical_path_cases:
  assumes "has_prefix p ''/''" and "''..'' \<notin> set (split_on CHR ''/'' p)"
  obtains cs where "list_all proper cs" and "cs \<noteq> [''index.html'']" and "canonical_path app p = CHR ''/'' # join_slash cs"
  | cs where "list_all proper cs" and "cs \<noteq> []" and "cs \<noteq> [''index.html'']"
      and "canonical_path app p = CHR ''/'' # join_slash cs @ ''/''"
      and "\<not> isReservedApplicationPath app (CHR ''/'' # join_slash cs)"
proof -
  obtain cs where cs: "list_all proper cs" "Clean p = CHR ''/'' # join_slash cs"
    using Clean_rooted [OF assms] by blast
  have idx: "cs \<noteq> [''index.html'']" if "Clean p \<noteq> ''/index.html''" using that cs(2) by auto
  show ?thesis
  proof (cases "Clean p = ''/index.html''")
    case True
    then show ?thesis using that(1) [of "[]"] by (simp add: canonical_path_def)
  next
    case False
    then show ?thesis using that(1) [of cs] that(2) [of cs] cs idx join_proper_Nil [OF cs(1)]
      by (cases "has_suffix p ''/'' \<and> Clean p \<noteq> ''/'' \<and> \<not> isReservedApplicationPath app (Clean p)")
        (auto simp: canonical_path_def)
  qed
qed

lemma index_path: "list_all proper cs \<Longrightarrow> CHR ''/'' # join_slash cs = ''/index.html'' \<longleftrightarrow> cs = [''index.html'']"
  using split_proper [of cs] split_proper [of "[''index.html'']"] by (auto simp: proper_def split: if_splits)

lemma canonical_path_proper:
  "list_all proper cs \<Longrightarrow> cs \<noteq> [''index.html''] \<Longrightarrow> canonical_path app (CHR ''/'' # join_slash cs) = CHR ''/'' # join_slash cs"
  using index_path [of cs] join_proper_slash [of cs] by (auto simp: canonical_path_def Clean_proper)

lemma canonical_path_slash:
  assumes "list_all proper cs" and "cs \<noteq> []" and "cs \<noteq> [''index.html'']"
    and "\<not> isReservedApplicationPath app (CHR ''/'' # join_slash cs)"
  shows "canonical_path app (CHR ''/'' # join_slash cs @ ''/'') = CHR ''/'' # join_slash cs @ ''/''"
  using assms index_path [of cs] join_proper_Nil [of cs]
  by (auto simp: canonical_path_def Clean_slash has_suffix_last)

lemma canonical_path_idem:
  assumes "has_prefix p ''/''" and "''..'' \<notin> set (split_on CHR ''/'' p)"
  shows "canonical_path app (canonical_path app p) = canonical_path app p"
  using canonical_path_cases [OF assms, of app]
  by (metis canonical_path_proper canonical_path_slash)

end
