(* ===== verification/Registry.thy ===== *)
theory Registry
  imports Startup Packet_Conn Policy Static_Files
begin

text \<open>
  The state of the handler and the registry of sessions: \<^verbatim>\<open>Transport\<close>, \<^verbatim>\<open>getSession\<close>, \<^verbatim>\<open>expire\<close> and
  \<^verbatim>\<open>Cleanup\<close> of \<^verbatim>\<open>transport.go\<close> and \<^verbatim>\<open>packetSession\<close>, \<^verbatim>\<open>reservePacketSession\<close>,
  \<^verbatim>\<open>expirePackets\<close> and \<^verbatim>\<open>closePackets\<close> of \<^verbatim>\<open>packet.go\<close>. The maps of sessions are association lists; Go's
  order of iteration is not specified, and the theorems hold for every order of the lists.
\<close>

section \<open>State\<close>

text \<open>
  A packet session. Cancelling its context is part of closing it; \<open>pk_writer\<close> says that the download
  writer was started, and a nil reply is \<open>None\<close>.
\<close>

record packetSession =
  pk_id :: string
  pk_nonce :: bytes
  beginHash :: bytes
  authHash :: bytes
  created :: int
  pk_last :: int
  raw :: Conn
  secret :: bytes
  pk_authed :: bool
  pk_closed :: bool
  authStarted :: bool
  active :: nat
  beginNext :: u64
  authCursor :: u64
  authBody :: bytes
  authTag :: bytes
  beginReply :: "bytes option"
  authReply :: "bytes option"
  beginDone :: bool
  authDone :: bool
  pk_writer :: bool
  state :: "session option"

text \<open>
  The handler. Packet sessions are stored under their id and a nonce points to the id; \<open>packetTLS\<close> says that
  a certificate is loaded, \<open>packetAdmission\<close> counts the requests that hold a slot of the channel, and
  \<open>stopped\<close> says that the channel \<^verbatim>\<open>stop\<close> is closed.
\<close>

record transport =
  PacketCertificate :: string
  PacketKey :: string
  packetTLS :: bool
  packetAdmission :: nat
  packetCount :: int
  packets :: "(string \<times> packetSession) list"
  packetNonces :: "(bytes \<times> string) list"
  ApplicationRoot :: string
  StatsPath :: string
  Access :: AccessConfig
  MaxSessions :: int
  Diagnostics :: bool
  authHashes :: "bytes list"
  policy :: "tcpPolicy option"
  application :: applicationFiles
  sessions :: "(string \<times> session) list"
  t_stats :: counters
  t_store :: startup_store
  stopped :: bool

section \<open>Sessions\<close>

definition new_session :: "string \<Rightarrow> int \<Rightarrow> bool \<Rightarrow> session" where
  "new_session addr now http3 =
     \<lparr>ip = addr, last_used = now, authed = False, up = 0, down = 0,
      s_peer = (if http3 then NewHTTP3 True else New True), wake = False, startupSteps = 0, startupInvalid = False,
      startupDeadline = None, startupJournal = replicate 40 None, startupBytes = 0, h3Active = 0, h3 = http3,
      packet = False, pendingUploads = None, realtime = False, realtimeConn = False, ackPending = False,
      ackSequence = 0, wsStartupUp = 0, wsStartupDown = 0\<rparr>"

text \<open>The scan for the oldest session that is not authenticated; the empty id means none.\<close>

fun oldest_scan :: "(string \<times> session) list \<Rightarrow> string \<times> int \<Rightarrow> string \<times> int" where
  "oldest_scan [] best = best"
| "oldest_scan ((k, s) # rest) (oldestID, oldest) =
     oldest_scan rest (if \<not> authed s \<and> (oldestID = [] \<or> last_used s < oldest) then (k, last_used s) else (oldestID, oldest))"

definition full :: "transport \<Rightarrow> bool" where
  "full t \<longleftrightarrow> int (length (sessions t)) + packetCount t \<ge> MaxSessions t"

text \<open>
  Making room. \<open>close_it\<close> is what happens to an evicted session: \<open>getSession\<close> closes its multiplexer,
  \<open>reservePacketSession\<close> closes the session. An id that is not in the registry cannot be found; the model
  stops there instead of turning forever.
\<close>

function evict :: "(session \<Rightarrow> startup_store \<Rightarrow> startup_store) \<Rightarrow> transport \<Rightarrow> transport \<times> bool" where
  "evict close_it t =
     (if \<not> full t then (t, True)
      else let k = fst (oldest_scan (sessions t) ([], 0)) in
        if k = [] then (t, False)
        else case map_of (sessions t) k of
          None \<Rightarrow> (t, False)
        | Some candidate \<Rightarrow>
            evict close_it (t\<lparr>sessions := AList.delete k (sessions t), t_store := close_it candidate (t_store t)\<rparr>))"
  by pat_completeness auto
termination
proof (relation "measure (\<lambda>(_, t). length (sessions t))", goal_cases)
  case (2 close_it t k candidate)
  then show ?case by (simp add: length_delete_less)
qed simp

declare evict.simps [simp del]

text \<open>The session of the request's cookie, if it belongs to the same client address.\<close>

definition known_session :: "transport \<Rightarrow> request \<Rightarrow> string \<Rightarrow> (string \<times> session) option" where
  "known_session t r addr =
     (case Cookie r of
        None \<Rightarrow> None
      | Some c \<Rightarrow> (case map_of (sessions t) c of
          None \<Rightarrow> None
        | Some s \<Rightarrow> if ip s = addr then Some (c, s) else None))"

text \<open>
  A new session, after making room. \<open>token\<close> is what \<^verbatim>\<open>rand.Read\<close> filled, or nothing on an error.
  The result is the id of the session and whether a cookie is set.
\<close>

definition create_session ::
  "bytes option \<Rightarrow> int \<Rightarrow> transport \<Rightarrow> string \<Rightarrow> bool \<Rightarrow> transport \<times> (string, string \<times> bool) outcome" where
  "create_session token now t addr http3 =
     (case evict (\<lambda>s st. st) t of
        (t, False) \<Rightarrow> (t, Fail ''authenticated session capacity reached'')
      | (t, True) \<Rightarrow>
          (case token of
             None \<Rightarrow> (t, Fail ''rand'')
           | Some tok \<Rightarrow>
               let k = hex_encode tok
               in (t\<lparr>sessions := AList.update k (new_session addr now http3) (sessions t)\<rparr>, Ok (k, True))))"

definition getSession ::
  "(string \<Rightarrow> string option) \<Rightarrow> bytes option \<Rightarrow> int \<Rightarrow> transport \<Rightarrow> request \<Rightarrow> transport \<times> (string, string \<times> bool) outcome" where
  "getSession parse_addr token now t r =
     (case sessionClientIP parse_addr r of
        Fail e \<Rightarrow> (t, Fail e)
      | Panic \<Rightarrow> (t, Panic)
      | Ok addr \<Rightarrow>
          if stopped t then (t, Fail ''closed transport'')
          else case known_session t r addr of
            Some (c, s) \<Rightarrow>
              if authed s \<and> (ProtoMajor r = 3) \<noteq> h3 s then (t, Fail ''authenticated carrier protocol changed'')
              else (t\<lparr>sessions := AList.update c (s\<lparr>last_used := now\<rparr>) (sessions t)\<rparr>, Ok (c, False))
          | None \<Rightarrow>
              if Path r \<noteq> ''/'' then (t, Fail ''session'')
              else create_session token now t addr (ProtoMajor r = 3))"

section \<open>Expiry\<close>

definition Minute :: int where "Minute = 60 * Second"

definition session_expired :: "int \<Rightarrow> session \<Rightarrow> bool" where
  "session_expired now s \<longleftrightarrow> now - last_used s > 2 * Minute
     \<or> (\<not> realtime s \<and> (case startupDeadline s of None \<Rightarrow> False | Some d \<Rightarrow> \<not> now < d))"

text \<open>Closing a session gives its startup results back; the session itself leaves the registry.\<close>

definition close_store :: "session \<Rightarrow> startup_store \<Rightarrow> startup_store" where
  "close_store s st = snd (session_close (s, st))"

fun expire_sessions :: "int \<Rightarrow> (string \<times> session) list \<Rightarrow> startup_store \<Rightarrow> (string \<times> session) list \<times> startup_store" where
  "expire_sessions now [] st = ([], st)"
| "expire_sessions now ((k, s) # rest) st =
     (if session_expired now s then expire_sessions now rest (close_store s st)
      else case expire_sessions now rest st of (ss, st) \<Rightarrow> ((k, s) # ss, st))"

section \<open>Packet sessions\<close>

text \<open>
  \<open>packetSession.close\<close>, with the counters of its owner. Its session keeps no startup journal, so closing
  that session gives no startup result back.
\<close>

definition packet_close :: "counters \<Rightarrow> packetSession \<Rightarrow> counters \<times> packetSession" where
  "packet_close st p =
     (if pk_closed p then (st, p)
      else
        let p' = p\<lparr>pk_closed := True, authBody := [], authTag := [], beginReply := None, authReply := None,
              raw := CloseConn (raw p)\<rparr>
        in case state p of
             None \<Rightarrow> (st, p')
           | Some s \<Rightarrow>
               let stats = Snapshot (s_peer s);
                   st = (if OpenedN stats > 0 \<and> PeakStreams stats \<le> 32
                         then st\<lparr>PacketPeaks := (PacketPeaks st)[PeakStreams stats := PacketPeaks st ! PeakStreams stats + 1]\<rparr>
                         else st)
               in (st, p'\<lparr>state := Some (s\<lparr>startupInvalid := True, s_peer := Close (s_peer s)\<rparr>)\<rparr>))"

definition packet_expired :: "int \<Rightarrow> packetSession \<Rightarrow> bool" where
  "packet_expired now p \<longleftrightarrow> pk_closed p \<or> (\<not> pk_authed p \<and> now - created p > 30 * Second)
     \<or> (pk_authed p \<and> now - pk_last p > 90 * Second)"

text \<open>Closing one packet session and taking it out of both maps and the count.\<close>

definition drop_packet :: "transport \<Rightarrow> string \<times> packetSession \<Rightarrow> transport" where
  "drop_packet t kp =
     (case kp of (k, p) \<Rightarrow>
      t\<lparr>t_stats := fst (packet_close (t_stats t) p), packets := AList.delete k (packets t),
        packetNonces := AList.delete (pk_nonce p) (packetNonces t), packetCount := packetCount t - 1\<rparr>)"

definition expirePackets :: "int \<Rightarrow> transport \<Rightarrow> transport" where
  "expirePackets now t = foldl drop_packet t (filter (\<lambda>(k, p). packet_expired now p) (packets t))"

definition closePackets :: "transport \<Rightarrow> transport" where
  "closePackets t = foldl drop_packet t (packets t)"

definition expire :: "int \<Rightarrow> transport \<Rightarrow> transport" where
  "expire now t =
     (let t = expirePackets now t in
      case expire_sessions now (sessions t) (t_store t) of (ss, st) \<Rightarrow> t\<lparr>sessions := ss, t_store := st\<rparr>)"

text \<open>
  \<open>Cleanup\<close>: the statistics of every session are kept, and all sessions are closed. Writing the
  statistics file is outside the model.
\<close>

definition peer_stats :: "session \<Rightarrow> Stats" where
  "peer_stats s = (Snapshot (s_peer s))\<lparr>WebSocket := realtime s \<and> \<not> h3 s, HTTP3 := h3 s,
     StartupUp := wsStartupUp s, StartupDown := wsStartupDown s\<rparr>"

definition Cleanup :: "transport \<Rightarrow> transport" where
  "Cleanup t =
     (let t = closePackets (t\<lparr>stopped := True\<rparr>)
      in t\<lparr>t_stats := (t_stats t)\<lparr>Peers := Peers (t_stats t) @ map (\<lambda>(_, s). peer_stats s) (sessions t)\<rparr>,
           t_store := foldl (\<lambda>st (_, s). close_store s st) (t_store t) (sessions t), sessions := []\<rparr>)"

text \<open>Reserving room for a packet session: an anonymous visitor gives up its own session first.\<close>

definition drop_visitor :: "transport \<Rightarrow> request \<Rightarrow> transport" where
  "drop_visitor t r =
     (case Cookie r of
        None \<Rightarrow> t
      | Some c \<Rightarrow>
          (case map_of (sessions t) c of
             None \<Rightarrow> t
           | Some visitor \<Rightarrow>
               if authed visitor then t
               else t\<lparr>sessions := AList.delete c (sessions t), t_store := close_store visitor (t_store t)\<rparr>))"

definition reservePacketSession :: "transport \<Rightarrow> request \<Rightarrow> transport \<times> bool" where
  "reservePacketSession t r =
     (case evict close_store (drop_visitor t r) of
        (t, False) \<Rightarrow> (t, False)
      | (t, True) \<Rightarrow> (t\<lparr>packetCount := packetCount t + 1\<rparr>, True))"

end
