(* ===== verification/Registry_Properties.thy ===== *)
theory Registry_Properties
  imports Registry Session_Properties
begin

text \<open>
  Properties of the registry: eviction takes the oldest anonymous session and never an authenticated
  one, and the number of sessions stays within its limit.
\<close>

section \<open>Finding the oldest anonymous session\<close>

text \<open>The candidate of a scan is a session that is not authenticated and no other such one is older.\<close>

definition oldest_of :: "(string \<times> session) list \<Rightarrow> string \<times> int \<Rightarrow> bool" where
  "oldest_of ss best \<longleftrightarrow>
     (if fst best = [] then list_all (\<lambda>(k, s). authed s) ss
      else (\<exists>s. (fst best, s) \<in> set ss \<and> \<not> authed s \<and> last_used s = snd best)
        \<and> list_all (\<lambda>(k, s). authed s \<or> snd best \<le> last_used s) ss)"

lemma oldest_scan_spec:
  assumes "[] \<notin> fst ` set (done @ ss)" and "oldest_of done best"
  shows "oldest_of (done @ ss) (oldest_scan ss best)"
  using assms
proof (induction ss best arbitrary: "done" rule: oldest_scan.induct)
  case (2 k s rest oldestID oldest)
  let ?best = "if \<not> authed s \<and> (oldestID = [] \<or> last_used s < oldest) then (k, last_used s) else (oldestID, oldest)"
  have k: "k \<noteq> []" using 2(2) by auto
  have "oldest_of (done @ [(k, s)]) ?best"
    using 2(3) k by (auto simp: oldest_of_def list_all_iff split: if_splits)
  from 2(1) [OF _ this] 2(2) show ?case by simp
qed simp

lemma oldest_scan_found:
  assumes "distinct (map fst ss)" and "[] \<notin> fst ` set ss" and "oldest_scan ss ([], 0) = (k, n)"
  shows "if k = [] then list_all (\<lambda>(k, s). authed s) ss
    else \<exists>s. map_of ss k = Some s \<and> \<not> authed s \<and> list_all (\<lambda>(k, s'). authed s' \<or> last_used s \<le> last_used s') ss"
proof -
  have "oldest_of [] ([], 0)" by (simp add: oldest_of_def)
  from oldest_scan_spec [of "[]" ss, OF _ this] have "oldest_of ss (k, n)" using assms(2,3) by simp
  then show ?thesis using assms(1) by (auto simp: oldest_of_def split: if_splits)
qed

section \<open>Eviction\<close>

definition registry_ok :: "transport \<Rightarrow> bool" where
  "registry_ok t \<longleftrightarrow> distinct (map fst (sessions t)) \<and> [] \<notin> fst ` set (sessions t)"

lemma delete_keys: "set (AList.delete k al) \<subseteq> set al"
  by (auto simp: AList.delete_eq)

text \<open>What eviction removes: anonymous sessions, each at least as old as every anonymous one that stays.\<close>

definition evicted :: "transport \<Rightarrow> transport \<Rightarrow> bool" where
  "evicted t t' \<longleftrightarrow> set (sessions t') \<subseteq> set (sessions t)
     \<and> (\<forall>k s. (k, s) \<in> set (sessions t) - set (sessions t') \<longrightarrow> \<not> authed s
          \<and> list_all (\<lambda>(k', s'). authed s' \<or> last_used s \<le> last_used s') (sessions t'))"

lemma evict_spec:
  assumes "registry_ok t" and "evict close_it t = (t', ok)"
  shows "registry_ok t' \<and> evicted t t' \<and> length (sessions t') \<le> length (sessions t)
    \<and> packetCount t' = packetCount t \<and> MaxSessions t' = MaxSessions t \<and> packets t' = packets t
    \<and> packetNonces t' = packetNonces t
    \<and> (if ok then \<not> full t' else full t' \<and> list_all (\<lambda>(k, s). authed s) (sessions t'))"
  using assms
proof (induction close_it t rule: evict.induct)
  case (1 close_it t)
  show ?case
  proof (cases "full t")
    case False
    then show ?thesis using 1(2,3) by (auto simp: evict.simps [of _ t] evicted_def)
  next
    case full: True
    obtain k n where scan: "oldest_scan (sessions t) ([], 0) = (k, n)" by force
    note found = oldest_scan_found [OF _ _ scan]
    show ?thesis
    proof (cases "k = []")
      case True
      then show ?thesis
        using 1(2,3) full scan found by (auto simp: evict.simps [of _ t] evicted_def registry_ok_def)
    next
      case False
      then obtain s where s: "map_of (sessions t) k = Some s" "\<not> authed s"
        "list_all (\<lambda>(k, s'). authed s' \<or> last_used s \<le> last_used s') (sessions t)"
        using found 1(2) by (auto simp: registry_ok_def)
      let ?t = "t\<lparr>sessions := AList.delete k (sessions t), t_store := close_it s (t_store t)\<rparr>"
      have run: "evict close_it ?t = (t', ok)" using 1(3) full scan False s(1) by (simp add: evict.simps [of _ t])
      have ok: "registry_ok ?t" using 1(2) delete_keys [of k "sessions t"] by (auto simp: registry_ok_def distinct_delete)
      have "fst (oldest_scan (sessions t) ([], 0)) = k" using scan by simp
      from 1(1) [OF _ this [symmetric] False s(1) ok run] full
      have ih: "registry_ok t'" "evicted ?t t'" "length (sessions t') \<le> length (sessions ?t)" "packetCount t' = packetCount ?t"
        "MaxSessions t' = MaxSessions ?t" "packets t' = packets ?t" "packetNonces t' = packetNonces ?t"
        "if ok then \<not> Registry.full t' else Registry.full t' \<and> list_all (\<lambda>(k, s). authed s) (sessions t')"
        by auto
      have sub: "set (sessions t') \<subseteq> set (AList.delete k (sessions t))" using ih(2) by (simp add: evicted_def)
      have removed: "(k', s') = (k, s)"
        if "(k', s') \<in> set (sessions t)" "(k', s') \<notin> set (AList.delete k (sessions t))" for k' s'
        using that s(1) 1(2) by (auto simp: AList.delete_eq registry_ok_def)
      have older: "list_all (\<lambda>(k', s'). authed s' \<or> last_used s \<le> last_used s') (sessions t')"
        using s(3) sub delete_keys [of k "sessions t"] unfolding list_all_iff by blast
      have "\<not> authed s' \<and> list_all (\<lambda>(_, s''). authed s'' \<or> last_used s' \<le> last_used s'') (sessions t')"
        if "(k', s') \<in> set (sessions t) - set (sessions t')" for k' s'
      proof (cases "(k', s') \<in> set (AList.delete k (sessions t))")
        case True
        then show ?thesis using ih(2) that by (auto simp: evicted_def)
      next
        case False
        then show ?thesis using removed that s(2) older by blast
      qed
      then have "evicted t t'" using sub delete_keys [of k "sessions t"] unfolding evicted_def by blast
      moreover have "length (sessions t') \<le> length (sessions t)" using ih(3) length_delete_le [of k "sessions t"] by simp
      ultimately show ?thesis using ih by simp
    qed
  qed
qed

lemma update_fresh: "k \<notin> fst ` set al \<Longrightarrow> AList.update k v al = al @ [(k, v)]"
  by (induction al) auto

lemma sessionClientIP_Fail: "sessionClientIP parse_addr r = Fail e \<Longrightarrow> e \<noteq> ''authenticated session capacity reached''"
  by (auto simp: sessionClientIP_def split: outcome.splits if_splits option.splits)

section \<open>Creating a session\<close>

text \<open>Only anonymous sessions leave, and none of those that stay, a new one apart, is older than one that left.\<close>

definition evicts_oldest :: "transport \<Rightarrow> transport \<Rightarrow> bool" where
  "evicts_oldest t t' \<longleftrightarrow>
     (\<forall>k s. map_of (sessions t) k = Some s \<and> map_of (sessions t') k = None \<longrightarrow> \<not> authed s
        \<and> list_all (\<lambda>(k', s'). authed s' \<or> map_of (sessions t) k' = None \<or> last_used s \<le> last_used s') (sessions t'))"

text \<open>Authenticated sessions stay; only the time of the last use of \<open>used\<close> may change.\<close>

definition keeps_authed :: "string option \<Rightarrow> int \<Rightarrow> transport \<Rightarrow> transport \<Rightarrow> bool" where
  "keeps_authed used now t t' \<longleftrightarrow>
     (\<forall>k s. map_of (sessions t) k = Some s \<and> authed s \<longrightarrow>
        map_of (sessions t') k = Some s \<or> (used = Some k \<and> map_of (sessions t') k = Some (s\<lparr>last_used := now\<rparr>)))"

definition within_limit :: "transport \<Rightarrow> bool" where
  "within_limit t \<longleftrightarrow> int (length (sessions t)) + packetCount t \<le> MaxSessions t"

lemma registry_refl: "keeps_authed None now t t" "evicts_oldest t t"
  by (auto simp: keeps_authed_def evicts_oldest_def)

lemma evict_ok:
  assumes "registry_ok t" and "evict close_it t = (t', ok)"
  shows "keeps_authed None now t t'" "evicts_oldest t t'"
proof -
  note ev = evict_spec [OF assms]
  have "map_of (sessions t') k = Some s" if "map_of (sessions t) k = Some s" "authed s" for k s
  proof -
    have "(k, s) \<in> set (sessions t')" using map_of_SomeD [OF that(1)] that(2) ev unfolding evicted_def by blast
    then show ?thesis using ev by (simp add: registry_ok_def)
  qed
  then show "keeps_authed None now t t'" by (simp add: keeps_authed_def)
  have "\<not> authed s \<and> list_all (\<lambda>(k', s'). authed s' \<or> map_of (sessions t) k' = None \<or> last_used s \<le> last_used s') (sessions t')"
    if "map_of (sessions t) k = Some s" "map_of (sessions t') k = None" for k s
  proof -
    have "(k, s) \<in> set (sessions t) - set (sessions t')"
      using map_of_SomeD [OF that(1)] that(2) by (force simp: map_of_eq_None_iff)
    then have "\<not> authed s \<and> list_all (\<lambda>(k', s'). authed s' \<or> last_used s \<le> last_used s') (sessions t')"
      using ev unfolding evicted_def by blast
    then show ?thesis by (auto simp: list_all_iff)
  qed
  then show "evicts_oldest t t'" unfolding evicts_oldest_def by blast
qed

lemma add_session_ok:
  assumes "registry_ok t1" and "keeps_authed None now t t1" and "evicts_oldest t t1" and "\<not> full t1"
    and "k \<noteq> []" and "map_of (sessions t) k = None" and "k \<notin> fst ` set (sessions t1)"
  shows "let t' = t1\<lparr>sessions := AList.update k s (sessions t1)\<rparr> in
    registry_ok t' \<and> within_limit t' \<and> keeps_authed None now t t' \<and> evicts_oldest t t' \<and> map_of (sessions t') k = Some s"
proof -
  let ?t = "t1\<lparr>sessions := AList.update k s (sessions t1)\<rparr>"
  have upd: "sessions ?t = sessions t1 @ [(k, s)]" using update_fresh [OF assms(7)] by simp
  have reg: "registry_ok ?t" and lim: "within_limit ?t"
    using assms(1,4,5,7) upd unfolding registry_ok_def within_limit_def full_def by auto
  have keep: "keeps_authed None now t ?t"
    using assms(2,6) by (auto simp: keeps_authed_def)
  have "evicts_oldest t ?t"
    unfolding evicts_oldest_def
  proof (intro allI impI)
    fix k' s' assume a: "map_of (sessions t) k' = Some s' \<and> map_of (sessions ?t) k' = None"
    then have "map_of (sessions t1) k' = None" by (simp split: if_splits)
    with a have "\<not> authed s' \<and> list_all (\<lambda>(k', s''). authed s'' \<or> map_of (sessions t) k' = None \<or> last_used s' \<le> last_used s'') (sessions t1)"
      using assms(3) unfolding evicts_oldest_def by blast
    then show "\<not> authed s' \<and> list_all (\<lambda>(k', s''). authed s'' \<or> map_of (sessions t) k' = None \<or> last_used s' \<le> last_used s'') (sessions ?t)"
      using assms(6) unfolding upd by simp
  qed
  then show ?thesis using reg lim keep by (simp add: Let_def)
qed

lemma create_session_spec:
  assumes "registry_ok t" and "create_session token now t addr http3 = (t', res)"
    and "\<And>tok. token = Some tok \<Longrightarrow> tok \<noteq> [] \<and> map_of (sessions t) (hex_encode tok) = None" and "within_limit t"
  shows "registry_ok t' \<and> within_limit t' \<and> keeps_authed None now t t' \<and> evicts_oldest t t'
    \<and> (\<forall>k cookie. res = Ok (k, cookie) \<longrightarrow> cookie \<and> map_of (sessions t') k = Some (new_session addr now http3))
    \<and> (res = Fail ''authenticated session capacity reached'' \<longrightarrow> list_all (\<lambda>(k, s). authed s) (sessions t'))"
proof -
  obtain t1 ok where run: "evict (\<lambda>s st. st) t = (t1, ok)" by force
  note ev = evict_spec [OF assms(1) run] and ok = evict_ok [OF assms(1) run]
  show ?thesis
  proof (cases "ok \<and> token \<noteq> None")
    case False
    then have t': "t' = t1" and res: "\<forall>x. res \<noteq> Ok x" "ok \<longrightarrow> res = Fail ''rand''"
      using assms(2) run by (auto simp: create_session_def split: bool.splits option.splits)
    have "within_limit t1" using ev assms(4) by (simp add: within_limit_def)
    moreover have "res = Fail ''authenticated session capacity reached'' \<longrightarrow> list_all (\<lambda>(k, s). authed s) (sessions t1)"
      using ev res(2) by (cases ok) auto
    ultimately show ?thesis using ev ok res(1) unfolding t' by blast
  next
    case True
    then obtain tok where tok: "token = Some tok" by auto
    let ?k = "hex_encode tok"
    have t': "t' = t1\<lparr>sessions := AList.update ?k (new_session addr now http3) (sessions t1)\<rparr>" "res = Ok (?k, True)"
      using assms(2) run True tok by (auto simp: create_session_def Let_def)
    have fresh: "map_of (sessions t) ?k = None" "tok \<noteq> []" using assms(3) [OF tok] by auto
    have "?k \<notin> fst ` set (sessions t1)" using ev fresh(1) by (auto simp: evicted_def map_of_eq_None_iff)
    moreover have "?k \<noteq> []" using fresh(2) by (cases tok) auto
    ultimately show ?thesis
      using add_session_ok [of t1 now t ?k "new_session addr now http3"] ev ok True fresh(1) t' by (simp add: Let_def)
  qed
qed

lemma getSession_spec:
  assumes "registry_ok t" and "getSession parse_addr token now t r = (t', res)"
    and "\<And>tok. token = Some tok \<Longrightarrow> tok \<noteq> [] \<and> map_of (sessions t) (hex_encode tok) = None" and "within_limit t"
  shows "registry_ok t' \<and> within_limit t' \<and> evicts_oldest t t' \<and> keeps_authed (Cookie r) now t t'
    \<and> (\<forall>k cookie. res = Ok (k, cookie) \<longrightarrow>
         (\<exists>s addr. map_of (sessions t') k = Some s \<and> sessionClientIP parse_addr r = Ok addr \<and> ip s = addr
           \<and> (if cookie then \<not> authed s else Cookie r = Some k)))
    \<and> (res = Fail ''authenticated session capacity reached'' \<longrightarrow> list_all (\<lambda>(k, s). authed s) (sessions t'))"
proof -
  have weak: "keeps_authed None now t t' \<Longrightarrow> keeps_authed (Cookie r) now t t'" by (auto simp: keeps_authed_def)
  show ?thesis
  proof (cases "\<exists>addr. sessionClientIP parse_addr r = Ok addr \<and> \<not> stopped t \<and> (known_session t r addr \<noteq> None \<or> Path r = ''/'')")
    case False
    then have "t' = t" "\<forall>x. res \<noteq> Ok x" "res \<noteq> Fail ''authenticated session capacity reached''"
      using assms(2) sessionClientIP_Fail by (auto simp: getSession_def split: outcome.splits if_splits option.splits)
    then show ?thesis using assms(1,4) weak registry_refl by auto
  next
    case True
    then obtain addr where addr: "sessionClientIP parse_addr r = Ok addr" "\<not> stopped t"
      "known_session t r addr \<noteq> None \<or> Path r = ''/''" by blast
    show ?thesis
    proof (cases "known_session t r addr")
      case None
      then have "create_session token now t addr (ProtoMajor r = 3) = (t', res)"
        using assms(2) addr by (simp add: getSession_def)
      from create_session_spec [OF assms(1) this assms(3,4)] weak show ?thesis
        using addr(1) by (auto simp: new_session_def)
    next
      case (Some cs)
      obtain c s where cs: "cs = (c, s)" by force
      have known: "map_of (sessions t) c = Some s" "ip s = addr" "Cookie r = Some c"
        using Some cs by (auto simp: known_session_def split: option.splits if_splits)
      let ?t = "t\<lparr>sessions := AList.update c (s\<lparr>last_used := now\<rparr>) (sessions t)\<rparr>"
      have "c \<in> fst ` set (sessions t)" using known(1) by (metis domI dom_map_of_conv_image_fst)
      then have keys: "map fst (sessions ?t) = map fst (sessions t)" by (simp add: update_keys)
      then have "length (sessions ?t) = length (sessions t)" by (metis length_map)
      then have "within_limit ?t" using assms(4) by (simp add: within_limit_def)
      moreover have "registry_ok ?t" using keys assms(1) unfolding registry_ok_def by (metis list.set_map)
      moreover have "keeps_authed (Cookie r) now t ?t" "evicts_oldest t ?t"
        using known by (auto simp: keeps_authed_def evicts_oldest_def)
      ultimately show ?thesis
        using assms(1,2,4) known addr Some cs weak registry_refl by (auto simp: getSession_def split: if_splits)
    qed
  qed
qed

text \<open>Room for one more session: nothing happens if there is some, otherwise the oldest anonymous session leaves.\<close>

definition makes_room :: "transport \<Rightarrow> transport \<Rightarrow> bool" where
  "makes_room t t1 \<longleftrightarrow>
     (if \<not> full t then t1 = t
      else \<exists>k s. map_of (sessions t) k = Some s \<and> \<not> authed s
        \<and> list_all (\<lambda>(k', s'). authed s' \<or> last_used s \<le> last_used s') (sessions t)
        \<and> t1 = t\<lparr>sessions := AList.delete k (sessions t)\<rparr>)"

lemma evict_one:
  assumes reg: "registry_ok t" and lim: "within_limit t"
  shows "if full t \<and> list_all (\<lambda>(k, s). authed s) (sessions t) then evict (\<lambda>s st. st) t = (t, False)
    else \<exists>t1. evict (\<lambda>s st. st) t = (t1, True) \<and> makes_room t t1"
proof (cases "full t")
  case full: True
  obtain k n where scan: "oldest_scan (sessions t) ([], 0) = (k, n)" by force
  note found = oldest_scan_found [OF _ _ scan]
  show ?thesis
  proof (cases "k = []")
    case True
    then show ?thesis using found reg full scan by (simp add: registry_ok_def evict.simps [of _ t])
  next
    case False
    then obtain s where s: "map_of (sessions t) k = Some s" "\<not> authed s"
      "list_all (\<lambda>(k, s'). authed s' \<or> last_used s \<le> last_used s') (sessions t)"
      using found reg by (auto simp: registry_ok_def)
    let ?t = "t\<lparr>sessions := AList.delete k (sessions t)\<rparr>"
    have "length (AList.delete k (sessions t)) < length (sessions t)" by (rule length_delete_less [OF s(1)])
    then have "\<not> Registry.full ?t" using lim by (simp add: full_def within_limit_def)
    then have "evict (\<lambda>s st. st) t = (?t, True)"
      using full scan False s(1) by (simp add: evict.simps [of _ t] evict.simps [of _ ?t])
    moreover have "makes_room t ?t" using full s by (auto simp: makes_room_def)
    moreover have "\<not> list_all (\<lambda>(k, s). authed s) (sessions t)" using map_of_SomeD [OF s(1)] s(2) by (auto simp: list_all_iff)
    ultimately show ?thesis by auto
  qed
qed (simp add: evict.simps [of _ t] makes_room_def)

lemma create_session_exact:
  assumes "registry_ok t" and "within_limit t" and "create_session token now t addr http3 = (t', res)"
  shows "if full t \<and> list_all (\<lambda>(k, s). authed s) (sessions t)
    then t' = t \<and> res = Fail ''authenticated session capacity reached''
    else \<exists>t1. makes_room t t1 \<and>
      (case token of
         None \<Rightarrow> t' = t1 \<and> res = Fail ''rand''
       | Some tok \<Rightarrow> t' = t1\<lparr>sessions := AList.update (hex_encode tok) (new_session addr now http3) (sessions t1)\<rparr>
           \<and> res = Ok (hex_encode tok, True))"
  using evict_one [OF assms(1,2)] assms(3)
  by (auto simp: create_session_def Let_def split: if_splits option.splits)

lemma sessionClientIP_no_panic: "sessionClientIP parse_addr r \<noteq> Panic"
  by (auto simp: sessionClientIP_def split: outcome.splits if_splits option.splits)

lemma getSession_exact:
  assumes "registry_ok t" and "getSession parse_addr token now t r = (t', res)" and "within_limit t"
  shows "case sessionClientIP parse_addr r of
         Panic \<Rightarrow> False
       | Fail e \<Rightarrow> t' = t \<and> res = Fail e
       | Ok addr \<Rightarrow>
           if stopped t then t' = t \<and> res = Fail ''closed transport''
           else
             (\<forall>c s. Cookie r = Some c \<and> map_of (sessions t) c = Some s \<and> ip s = addr \<longrightarrow>
                (if authed s \<and> (ProtoMajor r = 3) \<noteq> h3 s
                 then t' = t \<and> res = Fail ''authenticated carrier protocol changed''
                 else t' = t\<lparr>sessions := AList.update c (s\<lparr>last_used := now\<rparr>) (sessions t)\<rparr> \<and> res = Ok (c, False)))
             \<and> ((\<nexists>c s. Cookie r = Some c \<and> map_of (sessions t) c = Some s \<and> ip s = addr) \<longrightarrow>
                (if Path r \<noteq> ''/'' then t' = t \<and> res = Fail ''session''
                 else if full t \<and> list_all (\<lambda>(k, s). authed s) (sessions t)
                 then t' = t \<and> res = Fail ''authenticated session capacity reached''
                 else \<exists>t1. makes_room t t1 \<and>
                   (case token of
                      None \<Rightarrow> t' = t1 \<and> res = Fail ''rand''
                    | Some tok \<Rightarrow>
                        t' = t1\<lparr>sessions := AList.update (hex_encode tok) (new_session addr now (ProtoMajor r = 3)) (sessions t1)\<rparr>
                        \<and> res = Ok (hex_encode tok, True))))"
proof (cases "sessionClientIP parse_addr r")
  case (Ok addr)
  have known: "known_session t r addr = Some (c, s) \<longleftrightarrow> Cookie r = Some c \<and> map_of (sessions t) c = Some s \<and> ip s = addr" for c s
    by (auto simp: known_session_def split: option.splits)
  show ?thesis
  proof (cases "known_session t r addr")
    case None
    then have no: "\<nexists>c s. Cookie r = Some c \<and> map_of (sessions t) c = Some s \<and> ip s = addr" using known by (metis option.distinct(1))
    show ?thesis
    proof (cases "stopped t \<or> Path r \<noteq> ''/''")
      case True
      then show ?thesis using assms(2) no Ok None by (auto simp: getSession_def)
    next
      case False
      then have "create_session token now t addr (ProtoMajor r = 3) = (t', res)"
        using assms(2) Ok None by (simp add: getSession_def)
      from create_session_exact [OF assms(1,3) this] show ?thesis
        using False no unfolding Ok outcome.case by (simp only: if_False not_False_eq_True de_Morgan_disj not_not simp_thms) blast
    qed
  next
    case (Some cs)
    obtain c s where cs: "cs = (c, s)" by force
    have yes: "Cookie r = Some c" "map_of (sessions t) c = Some s" "ip s = addr" using known Some cs by auto
    show ?thesis using assms(2) yes Some cs Ok by (auto simp: getSession_def split: if_splits)
  qed
next
  case (Fail e)
  then show ?thesis using assms(2) by (simp add: getSession_def)
next
  case Panic
  then show ?thesis using sessionClientIP_no_panic by blast
qed

section \<open>Properties\<close>

text \<open>
  C35. Looking up or creating a session, on every branch. A request without a valid client address or after the
  handler was stopped is refused. A cookie that names a session of the same address yields that session and notes its use,
  unless the session is authenticated and the request comes over the other kind of protocol. Every other request is refused
  unless it is for the root page; then a new anonymous session of the address is made under the random token,
  in place of the oldest anonymous session when the registry is full, and refused exactly when the registry is full
  of authenticated sessions or the random source fails. A refusal changes nothing, except that room was made
  before the random source failed. So no authenticated session is ever removed or changed, except that
  its own use is noted, and the number of sessions never passes the limit. The token of a new session is taken to be unused.
\<close>

theorem getSession_registry:
  assumes "registry_ok t" and "getSession parse_addr token now t r = (t', res)"
    and "\<And>tok. token = Some tok \<Longrightarrow> tok \<noteq> [] \<and> map_of (sessions t) (hex_encode tok) = None" and "within_limit t"
  shows "registry_ok t' \<and> within_limit t' \<and> evicts_oldest t t' \<and> keeps_authed (Cookie r) now t t'
    \<and> (\<forall>k cookie. res = Ok (k, cookie) \<longrightarrow>
         (\<exists>s addr. map_of (sessions t') k = Some s \<and> sessionClientIP parse_addr r = Ok addr \<and> ip s = addr
           \<and> (if cookie then \<not> authed s else Cookie r = Some k)))
    \<and> (case sessionClientIP parse_addr r of
         Panic \<Rightarrow> False
       | Fail e \<Rightarrow> t' = t \<and> res = Fail e
       | Ok addr \<Rightarrow>
           if stopped t then t' = t \<and> res = Fail ''closed transport''
           else
             (\<forall>c s. Cookie r = Some c \<and> map_of (sessions t) c = Some s \<and> ip s = addr \<longrightarrow>
                (if authed s \<and> (ProtoMajor r = 3) \<noteq> h3 s
                 then t' = t \<and> res = Fail ''authenticated carrier protocol changed''
                 else t' = t\<lparr>sessions := AList.update c (s\<lparr>last_used := now\<rparr>) (sessions t)\<rparr> \<and> res = Ok (c, False)))
             \<and> ((\<nexists>c s. Cookie r = Some c \<and> map_of (sessions t) c = Some s \<and> ip s = addr) \<longrightarrow>
                (if Path r \<noteq> ''/'' then t' = t \<and> res = Fail ''session''
                 else if full t \<and> list_all (\<lambda>(k, s). authed s) (sessions t)
                 then t' = t \<and> res = Fail ''authenticated session capacity reached''
                 else \<exists>t1. makes_room t t1 \<and>
                   (case token of
                      None \<Rightarrow> t' = t1 \<and> res = Fail ''rand''
                    | Some tok \<Rightarrow>
                        t' = t1\<lparr>sessions := AList.update (hex_encode tok) (new_session addr now (ProtoMajor r = 3)) (sessions t1)\<rparr>
                        \<and> res = Ok (hex_encode tok, True)))))"
proof -
  have g: "registry_ok t'" "within_limit t'" "evicts_oldest t t'" "keeps_authed (Cookie r) now t t'"
    "\<forall>k cookie. res = Ok (k, cookie) \<longrightarrow>
         (\<exists>s addr. map_of (sessions t') k = Some s \<and> sessionClientIP parse_addr r = Ok addr \<and> ip s = addr
           \<and> (if cookie then \<not> authed s else Cookie r = Some k))"
    using getSession_spec [OF assms] by simp_all
  show ?thesis by (intro conjI g getSession_exact [OF assms(1,2,4)])
qed

text \<open>One anonymous and one authenticated session, with room for two: a new visitor displaces the former.\<close>

definition no_application :: applicationFiles where
  "no_application = \<lparr>assets = [], resources = [], app_identity = [], bodyBytes = 0, directory = False\<rparr>"

definition no_access :: AccessConfig where
  "no_access = \<lparr>Credentials = [], ACL = [], AllowedPorts = [], DialTimeout = 0, Upstream = []\<rparr>"

definition registry_demo :: transport where
  "registry_demo = \<lparr>PacketCertificate = [], PacketKey = [], packetTLS = True, packetAdmission = 0, packetCount = 0,
     packets = [], packetNonces = [], ApplicationRoot = [], StatsPath = [], Access = no_access, MaxSessions = 2,
     Diagnostics = False, authHashes = [], policy = None, application = no_application,
     sessions = [(''a'', new_session ''192.0.2.1'' 5 False), (''b'', (new_session ''192.0.2.2'' 4 False)\<lparr>authed := True\<rparr>)],
     t_stats = demo_counters, t_store = \<lparr>startupJournalBytes = 0, results = []\<rparr>, stopped = False\<rparr>"

definition demo_visit :: request where
  "demo_visit = \<lparr>Method = ''GET'', Path = ''/'', RawQuery = [], Proto = ''HTTP/2.0'', ProtoMajor = 2, TLS = True,
     RemoteAddr = ''192.0.2.9:9'', Cookie = None, Authorization = [], TrustedProxy = False, ClientIP = None,
     over = False, ctx_id = 1\<rparr>"

theorem getSession_registry_witness:
  "\<exists>t'. getSession Some (Some [7]) 9 registry_demo demo_visit = (t', Ok (''07'', True))
    \<and> map_of (sessions t') ''b'' = Some ((new_session ''192.0.2.2'' 4 False)\<lparr>authed := True\<rparr>)
    \<and> length (sessions t') = 2 \<and> map_of (sessions t') ''a'' = None"
proof -
  have reg: "registry_ok registry_demo" and lim: "within_limit registry_demo"
    by (simp_all add: registry_ok_def registry_demo_def within_limit_def)
  obtain t' res where run: "getSession Some (Some [7]) 9 registry_demo demo_visit = (t', res)" by force
  have fresh: "tok \<noteq> [] \<and> map_of (sessions registry_demo) (hex_encode tok) = None" if "Some [7] = Some tok" for tok
    using that by (auto simp: registry_demo_def hex_digit_def)
  have ip: "sessionClientIP Some demo_visit = Ok ''192.0.2.9''" by code_simp
  have full: "full registry_demo" by (simp add: full_def registry_demo_def)
  have hex: "hex_encode [7] = ''07''" by code_simp
  let ?b = "(new_session ''192.0.2.2'' 4 False)\<lparr>authed := True\<rparr>"
  have ss: "sessions registry_demo = [(''a'', new_session ''192.0.2.1'' 5 False), (''b'', ?b)]" by (simp add: registry_demo_def)
  have anon: "\<not> authed (new_session a n p)" for a n p by (simp add: new_session_def)
  have d: "\<not> stopped registry_demo" "Cookie demo_visit = None" "Path demo_visit = ''/''" "ProtoMajor demo_visit = 2"
    by (simp_all add: registry_demo_def demo_visit_def)
  have room: "t1 = registry_demo\<lparr>sessions := [(''b'', ?b)]\<rparr>" if "makes_room registry_demo t1" for t1
  proof -
    obtain k s where k: "map_of (sessions registry_demo) k = Some s" "\<not> authed s"
      "t1 = registry_demo\<lparr>sessions := AList.delete k (sessions registry_demo)\<rparr>"
      using \<open>makes_room registry_demo t1\<close> full unfolding makes_room_def by auto
    then have "k = ''a''" by (auto simp: ss split: if_splits)
    then show ?thesis using k(3) by (simp add: ss)
  qed
  have "\<exists>t1. makes_room registry_demo t1
    \<and> t' = t1\<lparr>sessions := AList.update ''07'' (new_session ''192.0.2.9'' 9 False) (sessions t1)\<rparr> \<and> res = Ok (''07'', True)"
    using getSession_registry [OF reg run fresh lim] unfolding ip outcome.case by (simp add: d hex ss anon del: hex_encode.simps)
  then obtain t1 where t1: "makes_room registry_demo t1" "t' = t1\<lparr>sessions := AList.update ''07'' (new_session ''192.0.2.9'' 9 False) (sessions t1)\<rparr>"
    "res = Ok (''07'', True)" by blast
  have "t' = registry_demo\<lparr>sessions := [(''b'', ?b), (''07'', new_session ''192.0.2.9'' 9 False)]\<rparr>"
    unfolding t1(2) room [OF t1(1)] by simp
  then show ?thesis using run t1(3) by simp
qed

end
