(* ===== verification/Packet_Sessions.thy ===== *)
theory Packet_Sessions
  imports Registry Packet_Auth
begin

text \<open>
  The packet carrier of \<^verbatim>\<open>packet.go\<close>: a TLS connection over numbered HTTP requests. The operations on a packet
  session are functions on its record; a handler is the sequence of its locked sections, and what it
  waits for is an argument. TLS itself, HMAC and SHA-256 are parameters.
\<close>

definition packetSetupLimit :: nat where "packetSetupLimit = 65536"
definition maxPacketSessions :: int where "maxPacketSessions = 32"
definition maxPacketProvisional :: nat where "maxPacketProvisional = 16"

section \<open>Numbers and bodies\<close>

definition packetNumber :: "string \<Rightarrow> (conn_err, u64) outcome" where
  "packetNumber value =
     (case ParseUint value 64 of
        Ok n \<Rightarrow> if itoa n \<noteq> value then Fail ErrSequence else Ok (of_nat n)
      | _ \<Rightarrow> Fail ErrSequence)"

text \<open>
  A packet request: its envelope, what its body stream delivers and whether reading it fails, and an error of
  setting the read deadline.
\<close>

record packet_request =
  base :: request
  ContentLength :: int
  ContentType :: string
  ContentEncoding :: string
  CursorHeader :: string
  MACHeader :: string
  body_stream :: bytes
  read_fails :: bool
  deadline_err :: "string option"

datatype body_err = errPacketBodyRead | BodyOther string

definition packetBody :: "packet_request \<Rightarrow> nat \<Rightarrow> (body_err, bytes) outcome" where
  "packetBody r limit =
     (if ContentLength r = 0 \<or> ContentLength r > int limit \<or> ContentType r \<noteq> ''application/octet-stream''
         \<or> (ContentEncoding r \<noteq> [] \<and> ContentEncoding r \<noteq> ''identity'')
      then Fail (BodyOther ''packet body envelope'')
      else case deadline_err r of
        Some e \<Rightarrow> Fail (BodyOther e)
      | None \<Rightarrow>
          let body = take (limit + 1) (body_stream r) in
          if read_fails r then Fail errPacketBodyRead
          else if over (base r) then Fail errPacketBodyRead
          else if length body = 0 \<or> length body > limit \<or> (ContentLength r \<ge> 0 \<and> int (length body) \<noteq> ContentLength r)
          then Fail (BodyOther ''packet body length'')
          else Ok body)"

definition packetBodyStatus :: "body_err option \<Rightarrow> nat \<Rightarrow> nat" where
  "packetBodyStatus e invalid = (if e = Some errPacketBodyRead then 503 else invalid)"

fun err_of :: "('e, 'a) outcome \<Rightarrow> 'e option" where
  "err_of (Fail e) = Some e"
| "err_of _ = None"

text \<open>What a handler answers: a status, a body, an error, or that it goes on to wait.\<close>

datatype packet_reply = P_status nat | P_body bytes | P_error string | P_panic | P_wait string

section \<open>Beginning\<close>

definition provisional :: "transport \<Rightarrow> nat" where
  "provisional t = length (filter (\<lambda>(k, p). \<not> pk_authed p) (packets t))"

definition new_packet :: "string \<Rightarrow> bytes \<Rightarrow> bytes \<Rightarrow> int \<Rightarrow> packetSession" where
  "new_packet k nonce hash now =
     \<lparr>pk_id = k, pk_nonce = nonce, beginHash = hash, authHash = replicate 32 0, created = now, pk_last = now,
      raw = SetDeadline NewConn (Some (now + 30 * Second)), secret = [], pk_authed = False, pk_closed = False,
      authStarted = False, active = 0, beginNext = 0, authCursor = 0, authBody = [], authTag = [],
      beginReply = None, authReply = None, beginDone = False, authDone = False, pk_writer = False, state = None\<rparr>"

text \<open>A packet session for a new nonce; \<open>token\<close> is what \<^verbatim>\<open>rand.Read\<close> filled.\<close>

definition begin_new ::
  "(bytes \<Rightarrow> bytes) \<Rightarrow> bytes option \<Rightarrow> int \<Rightarrow> transport \<Rightarrow> packet_request \<Rightarrow> bytes \<Rightarrow> bytes \<Rightarrow> transport \<times> packet_reply" where
  "begin_new sha token now t r nonce body =
     (if int (length (packets t)) \<ge> min (MaxSessions t) maxPacketSessions \<or> provisional t \<ge> maxPacketProvisional
      then (t, P_status 503)
      else case token of
        None \<Rightarrow> (t, P_error ''rand'')
      | Some tok \<Rightarrow>
          (case reservePacketSession t (base r) of
             (t, False) \<Rightarrow> (t, P_status 503)
           | (t, True) \<Rightarrow>
               let k = hex_encode tok; p = new_packet k nonce (sha body) now in
               case Put sha (raw p) 0 (drop 32 body) of
                 (c, _, Ok _) \<Rightarrow>
                   (t\<lparr>packets := AList.update k (p\<lparr>raw := c\<rparr>) (packets t), packetNonces := AList.update nonce k (packetNonces t)\<rparr>,
                    P_wait k)
               | (c, _, Fail e) \<Rightarrow>
                   (t\<lparr>packets := AList.update k (snd (packet_close (t_stats t) (p\<lparr>raw := c\<rparr>))) (packets t),
                      packetNonces := AList.update nonce k (packetNonces t)\<rparr>, P_error ''put'')
               | (c, _, Panic) \<Rightarrow> (t, P_panic)))"

definition beginPacket ::
  "(bytes \<Rightarrow> bytes) \<Rightarrow> bytes option \<Rightarrow> int \<Rightarrow> transport \<Rightarrow> packet_request \<Rightarrow> transport \<times> packet_reply" where
  "beginPacket sha token now t r =
     (let t = expirePackets now t in
      case packetBody r packetSetupLimit of
        Ok body \<Rightarrow>
          if length body \<le> 32 then (t, P_status 400)
          else if stopped t then (t, P_status 503)
          else (case map_of (packetNonces t) (take 32 body) of
              Some k \<Rightarrow>
                (case map_of (packets t) k of
                   Some p \<Rightarrow> if beginHash p \<noteq> sha body then (t, P_status 409) else (t, P_wait k)
                 | None \<Rightarrow> (t, P_panic))
            | None \<Rightarrow> begin_new sha token now t r (take 32 body) body)
      | other \<Rightarrow> (t, P_status (packetBodyStatus (err_of other) 400)))"

text \<open>What a waiting request is answered with, after the reply was prepared.\<close>

definition begin_reply :: "packetSession \<Rightarrow> packet_reply" where
  "begin_reply p = (case beginReply p of None \<Rightarrow> P_status 410 | Some reply \<Rightarrow> P_body reply)"

fun flight_loop :: "Block list \<Rightarrow> u64 \<Rightarrow> bytes \<Rightarrow> (string, u64 \<times> bytes) outcome" where
  "flight_loop [] n body = Ok (n, body)"
| "flight_loop (b # bs) n body =
     (if length (BlockBody b) > packetSetupLimit - length body then Fail ''TLS setup flight too large''
      else flight_loop bs (BlockSequence b + 1) (body @ BlockBody b))"

definition packetFlight :: "Block list \<Rightarrow> (string, u64 \<times> bytes) outcome" where
  "packetFlight blocks =
     and_then (flight_loop blocks 0 []) (\<lambda>(n, body).
       if length body = 0 then Fail ''empty TLS flight'' else Ok (n, body))"

text \<open>\<open>prepareBegin\<close> once \<open>Flight\<close> returned: the id, the next block, the length and the flight.\<close>

definition prepareBegin :: "counters \<Rightarrow> packetSession \<Rightarrow> (conn_err, Block list) outcome \<Rightarrow> counters \<times> packetSession" where
  "prepareBegin st p flight =
     (let p = p\<lparr>beginDone := True\<rparr> in
      case flight of
        Ok blocks \<Rightarrow>
          (case packetFlight blocks of
             Ok (n, body) \<Rightarrow>
               let k = (case hex_decode (pk_id p) of Some k \<Rightarrow> k | None \<Rightarrow> []);
                   reply = copy_at (copy_at (copy_at (copy_at (replicate (44 + length body) 0) 0 k) 32 (put_u64 n))
                             40 (put_u32 (of_nat (length body)))) 44 body
               in (st, p\<lparr>beginNext := n, beginReply := Some reply\<rparr>)
           | _ \<Rightarrow> packet_close st p)
      | _ \<Rightarrow> packet_close st p)"

section \<open>Authentication\<close>

text \<open>
  \<open>authenticatePacket\<close> up to the wait. The first valid request starts authentication; a repeated one must be
  identical.
\<close>

definition authenticatePacket ::
  "(bytes \<Rightarrow> bytes) \<Rightarrow> counters \<Rightarrow> packetSession \<Rightarrow> packet_request \<Rightarrow> (counters \<times> packetSession) \<times> packet_reply" where
  "authenticatePacket sha st p r =
     (let body = packetBody r packetSetupLimit in
      case (body, packetNumber (CursorHeader r), hex_decode (MACHeader r)) of
        (Ok body, Ok pos, Some tag) \<Rightarrow>
          if length tag \<noteq> 32 then ((st, p), P_status 400)
          else if beginReply p = None \<or> pos \<noteq> beginNext p then ((st, p), P_status 409)
          else if authStarted p then
            (if authHash p = sha body \<and> authCursor p = pos \<and> authTag p = tag
             then ((st, p), P_wait (pk_id p)) else ((st, p), P_status 409))
          else
            let p = p\<lparr>authStarted := True, authHash := sha body, authBody := body, authTag := tag, authCursor := pos\<rparr>
            in (case Put sha (raw p) 1 body of
                  (c, _, Ok _) \<Rightarrow> ((st, p\<lparr>raw := c\<rparr>), P_wait (pk_id p))
                | (c, _, Fail e) \<Rightarrow> (packet_close st (p\<lparr>raw := c\<rparr>), P_error ''put'')
                | (c, _, Panic) \<Rightarrow> ((st, p\<lparr>raw := c\<rparr>), P_panic))
      | _ \<Rightarrow> ((st, p), P_status (packetBodyStatus (err_of body) 400)))"

definition auth_reply :: "packetSession \<Rightarrow> packet_reply" where
  "auth_reply p = (case authReply p of None \<Rightarrow> P_status 410 | Some reply \<Rightarrow> P_body reply)"

definition prepareAuth ::
  "(bytes \<Rightarrow> bytes \<Rightarrow> bytes) \<Rightarrow> (bytes \<Rightarrow> bytes) \<Rightarrow> counters \<Rightarrow> packetSession \<Rightarrow> (conn_err, Block list) outcome
     \<Rightarrow> counters \<times> packetSession" where
  "prepareAuth hmac sha st p flight =
     (let p = p\<lparr>authDone := True\<rparr> in
      case flight of
        Ok blocks \<Rightarrow>
          (case packetFlight blocks of
             Ok (n, body) \<Rightarrow>
               if \<not> pk_authed p then packet_close st p
               else
                 let reply = copy_at (copy_at (copy_at (copy_at (replicate (44 + length body) 0) 0 (put_u64 n))
                               8 (take 32 (MAC hmac sha (secret p) ''auth-reply'' (pk_id p) 2 n body)))
                               40 (put_u32 (of_nat (length body)))) 44 body
                 in (st, p\<lparr>authReply := Some reply\<rparr>)
           | _ \<Rightarrow> packet_close st p)
      | _ \<Rightarrow> packet_close st p)"

section \<open>Cells on the TLS stream\<close>

definition packet_capacity :: "nat \<Rightarrow> bool" where
  "packet_capacity n \<longleftrightarrow> n = 512 \<or> n = 4096 \<or> n = 8192 \<or> n = 16384 \<or> n = 131072"

text \<open>Reading from a stream that ends after the given bytes; the rest of the stream is returned too.\<close>

definition readPacketCell :: "bytes \<Rightarrow> (string, bytes \<times> bytes) outcome" where
  "readPacketCell stream =
     (if length stream < 4 then Fail (if stream = [] then ''EOF'' else ''unexpected EOF'')
      else let n = unat (get_u32 (take 4 stream)); rest = drop 4 stream in
        if \<not> packet_capacity n then Fail ''packet cell capacity''
        else if length rest < n then Fail (if rest = [] then ''EOF'' else ''unexpected EOF'')
        else Ok (take n rest, drop n rest))"

text \<open>The bytes of one write, and the error it gives when \<open>wrote\<close> is what the writer returned.\<close>

definition packet_frame :: "bytes \<Rightarrow> bytes" where
  "packet_frame body = copy_at (copy_at (replicate (4 + length body) 0) 0 (put_u32 (of_nat (length body)))) 4 body"

definition writePacketCell :: "bytes \<Rightarrow> nat \<times> string option \<Rightarrow> string option" where
  "writePacketCell body wrote =
     (case wrote of
        (_, Some e) \<Rightarrow> Some e
      | (n, None) \<Rightarrow> if n \<noteq> length (packet_frame body) then Some ''short write'' else None)"

text \<open>
  \<open>runPacket\<close> after the handshake: \<open>key\<close> is the exported keying material and \<open>stream\<close> the decrypted
  bytes of the client. The session becomes authenticated, with the greeting and the rest of the stream, or fails.
\<close>

definition auth_cell :: "bytes \<Rightarrow> bytes option" where
  "auth_cell body =
     (if length body \<noteq> 4096 then None
      else case Decode body of
        Ok (sequence, [f], _) \<Rightarrow>
          if sequence \<noteq> 0 \<or> Kind f \<noteq> AuthK \<or> Stream f \<noteq> 0 \<or> Sequence f \<noteq> 0 then None else Some (Body f)
      | _ \<Rightarrow> None)"

definition packet_state :: "int \<Rightarrow> session" where
  "packet_state now =
     \<lparr>ip = [], last_used = now, authed = True, up = 1, down = 1, s_peer = NewPacket True, wake = False, startupSteps = 0,
      startupInvalid = False, startupDeadline = None, startupJournal = replicate 40 None, startupBytes = 0, h3Active = 0,
      h3 = False, packet = True, pendingUploads = None, realtime = True, realtimeConn = True, ackPending = False,
      ackSequence = 0, wsStartupUp = 0, wsStartupDown = 0\<rparr>"

definition hello_body :: "string \<Rightarrow> string \<Rightarrow> bytes" where
  "hello_body identity k = to_bytes (transportIdentity @ [char_of (10 :: nat)] @ identity @ [char_of (10 :: nat)]
     @ ''https'' @ [char_of (10 :: nat)] @ k)"

definition packet_login ::
  "(bytes \<Rightarrow> bytes \<Rightarrow> bytes) \<Rightarrow> (bytes \<Rightarrow> bytes) \<Rightarrow> bytes list \<Rightarrow> (nat \<Rightarrow> bytes option) \<Rightarrow> string \<Rightarrow> int \<Rightarrow> packetSession
     \<Rightarrow> bytes \<Rightarrow> bytes \<Rightarrow> packetSession \<times> (bytes \<times> bytes) option" where
  "packet_login hmac sha hashes rand identity now p key stream =
     (case readPacketCell stream of
        Ok (body, rest) \<Rightarrow>
          (case auth_cell body of
             None \<Rightarrow> (p, None)
           | Some authorization \<Rightarrow>
               if \<not> (authStarted p \<and> Verify hmac sha key ''auth'' (pk_id p) 1 (authCursor p) (authBody p) (authTag p))
                  \<or> \<not> authenticate sha hashes authorization then (p, None)
               else (case Ack (raw p) (authCursor p) of
                   (c, Ok _) \<Rightarrow>
                     let p = p\<lparr>raw := c\<rparr> in
                     (case Encode rand 0 512 [\<lparr>Kind = HelloK, Stream = 0, Sequence = 0, Body = hello_body identity (pk_id p)\<rparr>] of
                        Ok hello \<Rightarrow>
                          if pk_closed p then (p, None)
                          else (p\<lparr>secret := key, pk_authed := True, state := Some (packet_state now), pk_last := now\<rparr>,
                                Some (hello, rest))
                      | _ \<Rightarrow> (p, None))
                 | (c, _) \<Rightarrow> (p\<lparr>raw := c\<rparr>, None)))
      | _ \<Rightarrow> (p, None))"

definition runPacket ::
  "(bytes \<Rightarrow> bytes \<Rightarrow> bytes) \<Rightarrow> (bytes \<Rightarrow> bytes) \<Rightarrow> bytes list \<Rightarrow> (nat \<Rightarrow> bytes option) \<Rightarrow> string \<Rightarrow> int
     \<Rightarrow> (string \<Rightarrow> bytes \<Rightarrow> nat \<Rightarrow> (string, bytes) outcome) \<Rightarrow> bool \<Rightarrow> packetSession \<Rightarrow> bytes
     \<Rightarrow> packetSession \<times> (bytes \<times> bytes) option" where
  "runPacket hmac sha hashes rand identity now export handshake p stream =
     (if \<not> handshake then (p, None)
      else case Secret export of
        Ok key \<Rightarrow> packet_login hmac sha hashes rand identity now p key stream
      | _ \<Rightarrow> (p, None))"

text \<open>After the greeting was written: no deadline any more, and the session counts as opened.\<close>

definition packet_opened :: "counters \<times> packetSession \<Rightarrow> counters \<times> packetSession" where
  "packet_opened x = (case x of (st, p) \<Rightarrow>
     (st\<lparr>PacketOpened := PacketOpened st + 1\<rparr>, p\<lparr>raw := SetDeadline (raw p) None\<rparr>))"

lemma readPacketCell_shorter: "readPacketCell stream = Ok (body, rest) \<Longrightarrow> length rest < length stream"
  by (auto simp: readPacketCell_def Let_def split: if_splits)

function packet_reader :: "int \<Rightarrow> counters \<times> session \<Rightarrow> bytes \<Rightarrow> counters \<times> session" where
  "packet_reader now ts stream =
     (case readPacketCell stream of
        Ok (body, rest) \<Rightarrow>
          (case receiveRealtime ts now body of
             (ts, Ok _) \<Rightarrow> packet_reader now ts rest
           | (ts, _) \<Rightarrow> ts)
      | _ \<Rightarrow> ts)"
  by pat_completeness auto
termination
  by (relation "measure (\<lambda>(_, _, stream). length stream)") (auto dest: readPacketCell_shorter)

declare packet_reader.simps [simp del]

end
