(* ===== verification/Packet_Handlers.thy ===== *)
theory Packet_Handlers
  imports Packet_Sessions
begin

text \<open>
  The requests of an established packet session: routing and admission (\<^verbatim>\<open>servePacket\<close>), uploads and
  downloads of \<^verbatim>\<open>packet.go\<close>.
\<close>

section \<open>Routing\<close>

datatype packet_route =
  R_decline | R_status nat | R_begin | R_auth string | R_upload string u64 | R_download string

text \<open>The session id of a path: 64 hexadecimal digits in lower case.\<close>

definition packet_id_ok :: "string \<Rightarrow> bool" where
  "packet_id_ok k \<longleftrightarrow> (case hex_decode k of None \<Rightarrow> False | Some b \<Rightarrow> hex_encode b = k)"

definition route_session :: "packetSession \<Rightarrow> request \<Rightarrow> string list \<Rightarrow> packet_route" where
  "route_session p r parts =
     (if length parts = 2 \<and> parts ! 1 = ''auth'' \<and> Method r = ''POST'' \<and> RawQuery r = [] then R_auth (parts ! 0)
      else if \<not> pk_authed p then R_status 403
      else if length parts = 3 \<and> parts ! 1 = ''upload'' \<and> Method r = ''POST'' \<and> RawQuery r = [] then
        (case packetNumber (parts ! 2) of Ok n \<Rightarrow> R_upload (parts ! 0) n | _ \<Rightarrow> R_status 400)
      else if length parts = 2 \<and> parts ! 1 = ''download'' \<and> Method r = ''GET'' then R_download (parts ! 0)
      else R_status 404)"

text \<open>
  \<open>servePacket\<close> up to the handler it calls: the state with an admission slot and a place in the
  session taken, whether each was taken, and where the request goes.
\<close>

definition servePacket :: "transport \<Rightarrow> request \<Rightarrow> transport \<times> bool \<times> string option \<times> packet_route" where
  "servePacket t r =
     (if \<not> packetTLS t \<or> \<not> TLS r \<or> (ProtoMajor r \<noteq> 1 \<and> ProtoMajor r \<noteq> 2)
      then (t\<lparr>t_stats := reject_count (t_stats t)\<rparr>, False, None, R_decline)
      else if packetAdmission t \<ge> 128 then (t, False, None, R_status 503)
      else
        let t = t\<lparr>packetAdmission := packetAdmission t + 1\<rparr> in
        if Path r = ''/api/packet'' \<and> Method r = ''POST'' \<and> RawQuery r = [] then (t, True, None, R_begin)
        else
          let parts = split_on CHR ''/'' (trim_prefix (Path r) ''/api/packet/'') in
          if length parts < 2 \<or> length (parts ! 0) \<noteq> 64 \<or> \<not> packet_id_ok (parts ! 0) then (t, True, None, R_status 404)
          else case map_of (packets t) (parts ! 0) of
            None \<Rightarrow> (t, True, None, R_status 410)
          | Some p \<Rightarrow>
              if pk_closed p \<or> active p \<ge> 20 then (t, True, None, R_status 503)
              else (t\<lparr>packets := AList.update (parts ! 0) (p\<lparr>active := active p + 1\<rparr>) (packets t)\<rparr>,
                    True, Some (parts ! 0), route_session p r parts))"

text \<open>What the handler gives back when it returns.\<close>

definition servePacket_leave :: "transport \<Rightarrow> bool \<Rightarrow> string option \<Rightarrow> transport" where
  "servePacket_leave t admitted place =
     (let t = (case place of
            None \<Rightarrow> t
          | Some k \<Rightarrow> (case map_of (packets t) k of
              None \<Rightarrow> t
            | Some p \<Rightarrow> t\<lparr>packets := AList.update k (p\<lparr>active := active p - 1\<rparr>) (packets t)\<rparr>))
      in if admitted then t\<lparr>packetAdmission := packetAdmission t - 1\<rparr> else t)"

section \<open>Uploads\<close>

text \<open>The counters of the request are in the tag, and so is the body.\<close>

definition upload_reply :: "(bytes \<Rightarrow> bytes \<Rightarrow> bytes) \<Rightarrow> (bytes \<Rightarrow> bytes) \<Rightarrow> bytes \<Rightarrow> string \<Rightarrow> u64 \<Rightarrow> u64 \<Rightarrow> bytes \<Rightarrow> bytes" where
  "upload_reply hmac sha key k n sequence body =
     copy_at (copy_at (copy_at (replicate 48 0) 0 (put_u64 n)) 8 (put_u64 sequence))
       16 (MAC hmac sha key ''upload-reply'' k n sequence body)"

definition uploadPacket ::
  "(bytes \<Rightarrow> bytes \<Rightarrow> bytes) \<Rightarrow> (bytes \<Rightarrow> bytes) \<Rightarrow> int \<Rightarrow> counters \<Rightarrow> packetSession \<Rightarrow> packet_request \<Rightarrow> bytes \<Rightarrow> u64
     \<Rightarrow> (counters \<times> packetSession) \<times> packet_reply" where
  "uploadPacket hmac sha now st p r key sequence =
     (let read = packetBody r MaxBlock in
      case (read, packetNumber (CursorHeader r), hex_decode (MACHeader r)) of
        (Ok body, Ok pos, Some tag) \<Rightarrow>
          if \<not> Verify hmac sha key ''upload'' (pk_id p) sequence pos body tag then ((st, p), P_status 403)
          else (case Ack (raw p) pos of
              (c, Fail _) \<Rightarrow> (packet_close st (p\<lparr>raw := c\<rparr>), P_status 410)
            | (c, Panic) \<Rightarrow> ((st, p\<lparr>raw := c\<rparr>), P_panic)
            | (c, Ok _) \<Rightarrow>
                let previous = Uploaded c in
                (case Put sha c sequence body of
                   (c, n, Fail e) \<Rightarrow>
                     if e = ErrFull then ((st, p\<lparr>raw := c\<rparr>), P_status 503)
                     else if e = ErrGone then ((st, p\<lparr>raw := c\<rparr>), P_status 410)
                     else (packet_close st (p\<lparr>raw := c\<rparr>), P_status 409)
                 | (c, n, Panic) \<Rightarrow> ((st, p\<lparr>raw := c\<rparr>), P_panic)
                 | (c, n, Ok _) \<Rightarrow>
                     ((st, p\<lparr>raw := c, pk_last := (if n > previous then now else pk_last p)\<rparr>),
                      P_body (upload_reply hmac sha key (pk_id p) n sequence body))))
      | _ \<Rightarrow> ((st, p), P_status (packetBodyStatus (err_of read) 403)))"

section \<open>Downloads\<close>

definition query_pairs :: "string \<Rightarrow> (string \<times> string) list" where
  "query_pairs q = concat (map (\<lambda>piece. case query_pair piece of Some kv \<Rightarrow> [kv] | None \<Rightarrow> []) (split_on CHR ''&'' q))"

definition query_count :: "string \<Rightarrow> string \<Rightarrow> nat" where
  "query_count q key = length (filter (\<lambda>(k, v). k = key) (query_pairs q))"

text \<open>The request is checked and takes over the stream of blocks; on success the writer runs.\<close>

definition downloadPacket ::
  "(bytes \<Rightarrow> bytes \<Rightarrow> bytes) \<Rightarrow> (bytes \<Rightarrow> bytes) \<Rightarrow> int \<Rightarrow> counters \<Rightarrow> packetSession \<Rightarrow> packet_request \<Rightarrow> bytes
     \<Rightarrow> (counters \<times> packetSession) \<times> (nat, u64 \<times> u64) outcome" where
  "downloadPacket hmac sha now st p r key =
     (let q = RawQuery (base r) in
      if length (remdups (map fst (query_pairs q))) \<noteq> 2 \<or> query_count q ''generation'' \<noteq> 1 \<or> query_count q ''cursor'' \<noteq> 1
      then ((st, p), Fail 400)
      else case (packetNumber (query_get q ''generation''), packetNumber (query_get q ''cursor''), hex_decode (MACHeader r)) of
        (Ok gen, Ok pos, Some tag) \<Rightarrow>
          if \<not> Verify hmac sha key ''download'' (pk_id p) gen pos [] tag then ((st, p), Fail 403)
          else (case Attach (raw p) gen pos of
              (c, Ok _) \<Rightarrow> ((st, p\<lparr>raw := c, pk_last := now, pk_writer := True\<rparr>), Ok (gen, pos))
            | (c, Fail e) \<Rightarrow>
                if e = ErrGone then (packet_close st (p\<lparr>raw := c\<rparr>), Fail 410) else ((st, p\<lparr>raw := c\<rparr>), Fail 409)
            | (c, Panic) \<Rightarrow> ((st, p\<lparr>raw := c\<rparr>), Panic))
      | _ \<Rightarrow> ((st, p), Fail 403))"

text \<open>The bytes a block is sent as.\<close>

definition download_block :: "(bytes \<Rightarrow> bytes \<Rightarrow> bytes) \<Rightarrow> (bytes \<Rightarrow> bytes) \<Rightarrow> bytes \<Rightarrow> string \<Rightarrow> Block \<Rightarrow> bytes" where
  "download_block hmac sha key k b =
     copy_at (copy_at (copy_at (replicate 44 0) 0 (put_u64 (BlockSequence b))) 8 (put_u32 (of_nat (length (BlockBody b)))))
       12 (take 32 (MAC hmac sha key ''down'' k (BlockSequence b) 0 (BlockBody b))) @ BlockBody b"

text \<open>
  One turn of the download loop: it ends with an error of \<open>Next\<close>, waits, or sends a block and moves the
  cursor; a flush follows unless another block is ready.
\<close>

datatype download_turn = D_end | D_wait | D_panic | D_block bytes u64 bool

definition download_step ::
  "(bytes \<Rightarrow> bytes \<Rightarrow> bytes) \<Rightarrow> (bytes \<Rightarrow> bytes) \<Rightarrow> bytes \<Rightarrow> packetSession \<Rightarrow> u64 \<Rightarrow> u64 \<Rightarrow> download_turn" where
  "download_step hmac sha key p gen pos =
     (case Next (raw p) gen pos of
        Fail _ \<Rightarrow> D_end
      | Panic \<Rightarrow> D_panic
      | Ok None \<Rightarrow> D_wait
      | Ok (Some b) \<Rightarrow> D_block (download_block hmac sha key (pk_id p) b) (pos + 1) (\<not> Ready (raw p) gen (pos + 1)))"

text \<open>
  The write function of the download writer: the cell goes through TLS into a corked connection and leaves in even
  blocks. \<open>records\<close> are the TLS records of one cell; TLS stops at the first error of the connection,
  and \<open>Ok False\<close> says that \<open>Uncork\<close> waits for room.
\<close>

fun write_records :: "Conn \<Rightarrow> int \<Rightarrow> bytes list \<Rightarrow> Conn \<times> conn_err option" where
  "write_records c now [] = (c, None)"
| "write_records c now (rec # records) =
     (case Write c now rec of
        (c, _, _, Fail e) \<Rightarrow> (c, Some e)
      | (c, _, _, _) \<Rightarrow> write_records c now records)"

definition download_cork :: "packetSession \<Rightarrow> int \<Rightarrow> bytes list \<Rightarrow> packetSession \<times> (conn_err, bool) outcome" where
  "download_cork p now records =
     (case write_records (Cork (raw p)) now records of
        (c, err) \<Rightarrow>
          (case Uncork c now of
             (c, _, uncorked) \<Rightarrow> (p\<lparr>raw := c\<rparr>, case err of Some e \<Rightarrow> Fail e | None \<Rightarrow> uncorked)))"

end
