(* ===== verification/Packet_Registry.thy ===== *)
theory Packet_Registry
  imports Packet_Handlers Packet_Properties Registry_Properties
begin

text \<open>
  The registry of packet sessions as a state machine: requests, the goroutines of a session, expiry and
  clean-up are its steps. The invariant ties the two maps, the count and the limits together and
  keeps the connection of every session reachable in the sense of \<open>Packet_Steps\<close>, so that what
  is proved there holds for every session of the registry.
\<close>

section \<open>Connections of packet sessions\<close>

definition conn_ok :: "(bytes \<Rightarrow> bytes) \<Rightarrow> Conn \<Rightarrow> bool" where
  "conn_ok sha c \<longleftrightarrow> (\<exists>h. conn_reachable sha c h)"

lemma conn_ok_step: "conn_ok sha c \<Longrightarrow> (\<And>h. \<exists>g. conn_step sha (c, h) (d, g)) \<Longrightarrow> conn_ok sha d"
  unfolding conn_ok_def by (meson conn_reachable_step)

lemma conn_ok_ops:
  assumes "conn_ok sha c"
  shows "conn_ok sha (fst (Put sha c n body))" "conn_ok sha (fst (Ack c n))" "conn_ok sha (fst (Attach c gen n))"
    "conn_ok sha (CloseConn c)" "conn_ok sha (SetDeadline c d)" "conn_ok sha (fst (Write c now p))"
    "conn_ok sha (Cork c)" "conn_ok sha (fst (Uncork c now))"
  unfolding CloseConn_def
  by (rule conn_ok_step [OF assms], blast intro: conn_step.intros)+

lemma conn_ok_new: "conn_ok sha (SetDeadline NewConn d)"
  unfolding conn_ok_def by (meson conn_reachable_start conn_reachable_step do_deadline)

lemma conn_ok_Put: "conn_ok sha c \<Longrightarrow> snd (snd (Put sha c n body)) \<noteq> Panic"
  unfolding conn_ok_def using Put_spec conn_reachable_inv by blast

lemma ackLocked_no_panic: "snd (ackLocked c n) \<noteq> Panic"
  by (auto simp: ackLocked_def split: prod.splits)

lemma Ack_no_panic: "snd (Ack c n) \<noteq> Panic"
  by (simp add: Ack_def ackLocked_no_panic)

lemma Attach_no_panic: "snd (Attach c gen n) \<noteq> Panic"
  using ackLocked_no_panic [of c n] by (cases "ackLocked c n"; cases "snd (ackLocked c n)") (auto simp: Attach_def)

text \<open>A closed connection stays closed.\<close>

lemma closed_ops:
  assumes "c_closed c"
  shows "c_closed (fst (Put sha c n body))" "c_closed (fst (Ack c n))" "c_closed (fst (Attach c gen n))"
    "c_closed (SetDeadline c d)" "c_closed (fst (Write c now p))"
    "c_closed (Cork c)" "c_closed (fst (Uncork c now))"
  using assms by (auto simp: Put_def Ack_def Attach_def ackLocked_def SetDeadline_def signal_def Write_def Cork_def
      Uncork_def Let_def writeLocked.simps)

lemma closed_CloseConn: "c_closed (CloseConn c)"
  by (simp add: CloseConn_def CloseWithError_def signal_def)

lemma closed_step: "conn_step sha (c, h) (d, g) \<Longrightarrow> c_closed c \<Longrightarrow> c_closed d"
  by (erule conn_step.cases)
    (auto simp: closed_ops Read_def read_resume_def CloseWithError_def SetReadDeadline_def SetWriteDeadline_def signal_def
      writeLocked.simps)

section \<open>Steps of one session\<close>

text \<open>
  Everything that runs on a session of the registry: the handlers of its requests, its goroutines, what TLS does
  with the connection, and the cells that change its state. The order is arbitrary and every
  argument too, so the relation allows at least what the program does.
\<close>

inductive packet_op ::
  "(bytes \<Rightarrow> bytes \<Rightarrow> bytes) \<Rightarrow> (bytes \<Rightarrow> bytes) \<Rightarrow> counters \<times> packetSession \<Rightarrow> counters \<times> packetSession \<Rightarrow> bool"
  for hmac sha where
  op_close: "packet_op hmac sha (st, p) (packet_close st p)"
| op_prepare_begin: "packet_op hmac sha (st, p) (prepareBegin st p flight)"
| op_authenticate: "packet_op hmac sha (st, p) (fst (authenticatePacket sha st p r))"
| op_prepare_auth: "packet_op hmac sha (st, p) (prepareAuth hmac sha st p flight)"
| op_run: "packet_op hmac sha (st, p) (st, fst (runPacket hmac sha hashes rand ident now export handshake p stream))"
| op_opened: "packet_op hmac sha (st, p) (packet_opened (st, p))"
| op_upload: "packet_op hmac sha (st, p) (fst (uploadPacket hmac sha now st p r key n))"
| op_download: "packet_op hmac sha (st, p) (fst (downloadPacket hmac sha now st p r key))"
| op_write: "packet_op hmac sha (st, p) (st, fst (download_cork p now records))"
| op_tls: "(\<And>h. \<exists>g. conn_step sha (raw p, h) (c, g)) \<Longrightarrow> packet_op hmac sha (st, p) (st, p\<lparr>raw := c\<rparr>)"
| op_cells: "state p \<noteq> None \<Longrightarrow> packet_op hmac sha (st, p) (st', p\<lparr>state := Some s\<rparr>)"

text \<open>What they all keep.\<close>

definition packet_ok :: "(bytes \<Rightarrow> bytes) \<Rightarrow> packetSession \<Rightarrow> bool" where
  "packet_ok sha p \<longleftrightarrow> conn_ok sha (raw p) \<and> (pk_closed p \<longrightarrow> c_closed (raw p))
     \<and> (pk_authed p \<longrightarrow> authStarted p \<and> state p \<noteq> None)"

definition same_packet :: "packetSession \<Rightarrow> packetSession \<Rightarrow> bool" where
  "same_packet p p' \<longleftrightarrow> pk_id p' = pk_id p \<and> pk_nonce p' = pk_nonce p \<and> active p' = active p
     \<and> (pk_authed p \<longrightarrow> pk_authed p') \<and> (pk_closed p \<longrightarrow> pk_closed p')"

definition packet_keeps :: "(bytes \<Rightarrow> bytes) \<Rightarrow> packetSession \<Rightarrow> packetSession \<Rightarrow> bool" where
  "packet_keeps sha p p' \<longleftrightarrow> same_packet p p' \<and> (packet_ok sha p \<longrightarrow> packet_ok sha p')"

lemmas packet_defs = packet_keeps_def same_packet_def packet_ok_def

lemma packet_keeps_refl: "packet_keeps sha p p"
  by (simp add: packet_defs)

lemma packet_keeps_trans: "packet_keeps sha p q \<Longrightarrow> packet_keeps sha q r \<Longrightarrow> packet_keeps sha p r"
  by (auto simp: packet_defs)

lemma packet_keeps_conn:
  assumes "conn_ok sha (raw p) \<Longrightarrow> conn_ok sha c" and "c_closed (raw p) \<Longrightarrow> c_closed c"
  shows "packet_keeps sha p (p\<lparr>raw := c\<rparr>)"
  using assms by (auto simp: packet_defs)

lemma packet_close_keeps: "packet_keeps sha p (snd (packet_close st p))"
  by (auto simp: packet_close_def packet_defs conn_ok_ops closed_CloseConn Let_def split: option.splits)

lemma packet_close_keeps': "packet_keeps sha p q \<Longrightarrow> packet_keeps sha p (snd (packet_close st q))"
  using packet_close_keeps packet_keeps_trans by blast

lemma write_records_inv:
  assumes "\<And>c rec. P c \<Longrightarrow> P (fst (Write c now rec))" and "P c"
  shows "P (fst (write_records c now records))"
  using assms(2)
proof (induction records arbitrary: c)
  case (Cons rec records)
  obtain d n l res where w: "Write c now rec = (d, n, l, res)" by (metis prod_cases4)
  have "P d" using assms(1) [OF Cons.prems, of rec] w by simp
  then show ?case using Cons.IH w by (cases res) auto
qed simp

lemma download_cork_keeps: "packet_keeps sha p (fst (download_cork p now records))"
proof -
  obtain c err where w: "write_records (Cork (raw p)) now records = (c, err)" by force
  obtain d l res where u: "Uncork c now = (d, l, res)" by (metis prod_cases3)
  have "conn_ok sha (raw p) \<Longrightarrow> conn_ok sha d"
    using write_records_inv [of "conn_ok sha" now "Cork (raw p)" records] conn_ok_ops(7) [of sha "raw p"] conn_ok_ops(8) [of sha c now] w u
    by (simp add: conn_ok_ops(6))
  moreover have "c_closed (raw p) \<Longrightarrow> c_closed d"
    using write_records_inv [of c_closed now "Cork (raw p)" records] closed_ops(6) [of "raw p"] closed_ops(7) [of c now] w u
    by (simp add: closed_ops(5))
  ultimately show ?thesis using w u packet_keeps_conn by (simp add: download_cork_def)
qed

lemma prepareBegin_keeps: "packet_keeps sha p (snd (prepareBegin st p flight))"
proof -
  have "packet_keeps sha p (p\<lparr>beginDone := True\<rparr>)" by (simp add: packet_defs)
  note packet_close_keeps' [OF this, of st]
  moreover have "packet_keeps sha p (p\<lparr>beginDone := True, beginNext := n, beginReply := Some b\<rparr>)" for n b
    by (simp add: packet_defs)
  ultimately show ?thesis by (simp add: prepareBegin_def Let_def split: outcome.split)
qed

lemma prepareAuth_keeps: "packet_keeps sha p (snd (prepareAuth hmac sha' st p flight))"
proof -
  have "packet_keeps sha p (p\<lparr>authDone := True\<rparr>)" by (simp add: packet_defs)
  note packet_close_keeps' [OF this, of st]
  moreover have "packet_keeps sha p (p\<lparr>authDone := True, authReply := Some b\<rparr>)" for b
    by (simp add: packet_defs)
  ultimately show ?thesis by (simp add: prepareAuth_def Let_def split: outcome.split)
qed

lemma Put_keeps: "Put sha (raw p) n body = (c, m, res) \<Longrightarrow> packet_keeps sha p (p\<lparr>raw := c\<rparr>)"
  using packet_keeps_conn conn_ok_ops(1) closed_ops(1) by (metis fst_conv)

lemma Ack_keeps: "Ack (raw p) n = (c, res) \<Longrightarrow> packet_keeps sha p (p\<lparr>raw := c\<rparr>)"
  using packet_keeps_conn conn_ok_ops(2) closed_ops(2) by (metis fst_conv)

lemma Attach_keeps: "Attach (raw p) gen n = (c, res) \<Longrightarrow> packet_keeps sha p (p\<lparr>raw := c\<rparr>)"
  using packet_keeps_conn conn_ok_ops(3) closed_ops(3) by (metis fst_conv)

text \<open>The handlers of requests, and that none of them panics on a session whose connection is reachable.\<close>

lemma started_keeps:
  assumes "Put sha (raw p) 1 body = (c, m, res)"
  shows "packet_keeps sha p (p\<lparr>authStarted := True, authHash := hash, authBody := body, authTag := tag, authCursor := pos, raw := c\<rparr>)"
proof -
  let ?p = "p\<lparr>authStarted := True, authHash := hash, authBody := body, authTag := tag, authCursor := pos\<rparr>"
  have "packet_keeps sha p ?p" by (auto simp: packet_defs)
  moreover have "packet_keeps sha ?p (?p\<lparr>raw := c\<rparr>)" using Put_keeps [of sha ?p 1 body c m res] assms by simp
  ultimately have "packet_keeps sha p (?p\<lparr>raw := c\<rparr>)" by (rule packet_keeps_trans)
  then show ?thesis by simp
qed

lemma authenticatePacket_keeps: "packet_keeps sha p (snd (fst (authenticatePacket sha st p r)))"
  using packet_keeps_refl
  by (auto simp: authenticatePacket_def Let_def split: outcome.split option.split prod.split
      intro: started_keeps packet_close_keeps')

lemma put_keeps:
  assumes "Ack (raw p) pos = (c, res)" and "Put sha c n body = (d, m, res')"
  shows "packet_keeps sha p (p\<lparr>raw := d\<rparr>)"
proof -
  have "packet_keeps sha (p\<lparr>raw := c\<rparr>) (p\<lparr>raw := c\<rparr>\<lparr>raw := d\<rparr>)"
    using Put_keeps [of sha "p\<lparr>raw := c\<rparr>" n body d m res'] assms(2) by simp
  then show ?thesis using packet_keeps_trans [OF Ack_keeps [OF assms(1)]] by simp
qed

lemma put_last_keeps:
  assumes "Ack (raw p) pos = (c, res)" and "Put sha c n body = (d, m, res')"
  shows "packet_keeps sha p (p\<lparr>raw := d, pk_last := l\<rparr>)"
proof -
  have "packet_keeps sha (p\<lparr>raw := d\<rparr>) (p\<lparr>raw := d, pk_last := l\<rparr>)" by (simp add: packet_defs)
  then show ?thesis using put_keeps [OF assms] packet_keeps_trans by blast
qed

lemma uploadPacket_keeps: "packet_keeps sha p (snd (fst (uploadPacket hmac sha now st p r key n)))"
  using packet_keeps_refl
  by (auto simp: uploadPacket_def Let_def split: outcome.split option.split prod.split
      intro: put_keeps put_last_keeps Ack_keeps packet_close_keeps')

lemma attach_keeps:
  assumes "Attach (raw p) gen n = (c, res)"
  shows "packet_keeps sha p (p\<lparr>raw := c, pk_last := l, pk_writer := True\<rparr>)"
proof -
  have "packet_keeps sha (p\<lparr>raw := c\<rparr>) (p\<lparr>raw := c, pk_last := l, pk_writer := True\<rparr>)" by (simp add: packet_defs)
  then show ?thesis using Attach_keeps [OF assms] packet_keeps_trans by blast
qed

lemma downloadPacket_keeps: "packet_keeps sha p (snd (fst (downloadPacket hmac sha now st p r key)))"
  using packet_keeps_refl
  by (auto simp: downloadPacket_def Let_def split: outcome.split option.split prod.split
      intro: attach_keeps Attach_keeps packet_close_keeps')

lemma login_keeps:
  assumes "Ack (raw p) n = (c, res)" and "authStarted p"
  shows "packet_keeps sha p (p\<lparr>raw := c, secret := key, pk_authed := True, state := Some s, pk_last := l\<rparr>)"
proof -
  have "packet_keeps sha (p\<lparr>raw := c\<rparr>) (p\<lparr>raw := c, secret := key, pk_authed := True, state := Some s, pk_last := l\<rparr>)"
    using assms(2) by (auto simp: packet_defs)
  then show ?thesis using Ack_keeps [OF assms(1)] packet_keeps_trans by blast
qed

lemma runPacket_keeps: "packet_keeps sha p (fst (runPacket hmac sha hashes rand ident now export handshake p stream))"
  using packet_keeps_refl
  by (auto simp: runPacket_def packet_login_def Let_def split: outcome.split option.split prod.split
      intro: login_keeps Ack_keeps)

lemma packet_op_keeps: "packet_op hmac sha (st, p) (st', p') \<Longrightarrow> packet_keeps sha p p'"
proof (erule packet_op.cases, goal_cases)
  case (6 st p)
  then show ?case by (auto simp: packet_opened_def intro: packet_keeps_conn conn_ok_ops closed_ops)
next
  case (10 p c st)
  have "conn_ok sha (raw p) \<Longrightarrow> conn_ok sha c" using 10(3) conn_ok_step by blast
  moreover have "c_closed (raw p) \<Longrightarrow> c_closed c" using 10(3) closed_step by blast
  ultimately show ?case using 10(1,2) packet_keeps_conn by auto
next
  case (11 p st st' s)
  then show ?case by (auto simp: packet_defs)
qed (metis (no_types) snd_conv packet_close_keeps prepareBegin_keeps authenticatePacket_keeps prepareAuth_keeps
      runPacket_keeps uploadPacket_keeps downloadPacket_keeps download_cork_keeps Pair_inject prod.collapse)+

section \<open>The registry\<close>

lemma length_delete_other: "k \<notin> fst ` set al \<Longrightarrow> length (AList.delete k al) = length al"
  by (induction al) (auto simp: AList.delete_eq)

lemma length_delete_key: "distinct (map fst al) \<Longrightarrow> map_of al k = Some v \<Longrightarrow> Suc (length (AList.delete k al)) = length al"
proof (induction al)
  case (Cons a al)
  then show ?case using length_delete_other [of k al] by (cases "fst a = k") (auto simp: AList.delete_eq)
qed simp

lemma length_update_key: "map_of al k = Some v \<Longrightarrow> length (AList.update k u al) = length al"
  by (induction al) auto

lemma filter_update_key:
  "map_of al k = Some v \<Longrightarrow> (P (k, u) \<Longrightarrow> P (k, v)) \<Longrightarrow> length (filter P (AList.update k u al)) \<le> length (filter P al)"
  by (induction al) auto

lemma filter_delete_key: "length (filter P (AList.delete k al)) \<le> length (filter P al)"
  by (induction al) (auto simp: AList.delete_eq)

text \<open>The two maps mirror each other, every session is registered under its id, and the count is exact.\<close>

definition maps_ok :: "(bytes \<Rightarrow> bytes) \<Rightarrow> transport \<Rightarrow> bool" where
  "maps_ok sha t \<longleftrightarrow> distinct (map fst (packets t)) \<and> distinct (map fst (packetNonces t))
     \<and> (\<forall>k p. map_of (packets t) k = Some p \<longrightarrow> pk_id p = k \<and> map_of (packetNonces t) (pk_nonce p) = Some k
          \<and> packet_ok sha p \<and> active p \<le> 20)
     \<and> (\<forall>n k. map_of (packetNonces t) n = Some k \<longrightarrow> (\<exists>p. map_of (packets t) k = Some p \<and> pk_nonce p = n))
     \<and> packetCount t = int (length (packets t))"

definition limits_ok :: "transport \<Rightarrow> bool" where
  "limits_ok t \<longleftrightarrow> int (length (packets t)) \<le> min (MaxSessions t) maxPacketSessions
     \<and> provisional t \<le> maxPacketProvisional \<and> packetAdmission t \<le> 128"

definition packets_inv :: "(bytes \<Rightarrow> bytes) \<Rightarrow> transport \<Rightarrow> bool" where
  "packets_inv sha t \<longleftrightarrow> registry_ok t \<and> within_limit t \<and> maps_ok sha t \<and> limits_ok t"

lemma maps_okD:
  assumes "maps_ok sha t" and "map_of (packets t) k = Some p"
  shows "pk_id p = k" "map_of (packetNonces t) (pk_nonce p) = Some k" "packet_ok sha p" "active p \<le> 20"
  using assms unfolding maps_ok_def by blast+

lemma maps_ok_nonce:
  "maps_ok sha t \<Longrightarrow> map_of (packetNonces t) n = Some k \<Longrightarrow> \<exists>p. map_of (packets t) k = Some p \<and> pk_nonce p = n"
  unfolding maps_ok_def by blast

lemma packets_inv_cong:
  assumes "packets_inv sha t" and "packets t' = packets t" "packetNonces t' = packetNonces t" "packetCount t' = packetCount t"
    and "MaxSessions t' = MaxSessions t" and "packetAdmission t' \<le> 128" and "registry_ok t'" and "within_limit t'"
  shows "packets_inv sha t'"
proof -
  have "maps_ok sha t' = maps_ok sha t" unfolding maps_ok_def assms(2,3,4) ..
  then show ?thesis using assms by (simp add: packets_inv_def limits_ok_def provisional_def)
qed

text \<open>A session that changes but keeps its identity.\<close>

lemma maps_ok_update:
  assumes "maps_ok sha t" and "map_of (packets t) k = Some p" and "pk_id p' = pk_id p" "pk_nonce p' = pk_nonce p"
    and "packet_ok sha p'" and "active p' \<le> 20"
    and "packetNonces t' = packetNonces t" "packetCount t' = packetCount t" "packets t' = AList.update k p' (packets t)"
  shows "maps_ok sha t'"
proof -
  have "distinct (map fst (packets t'))" using assms(1,9) by (simp add: maps_ok_def distinct_update)
  moreover have "pk_id q = j \<and> map_of (packetNonces t') (pk_nonce q) = Some j \<and> packet_ok sha q \<and> active q \<le> 20"
    if "map_of (packets t') j = Some q" for j q
    using that maps_okD [OF assms(1)] assms(2-9) by (auto split: if_splits)
  moreover have "\<exists>q. map_of (packets t') j = Some q \<and> pk_nonce q = n" if "map_of (packetNonces t') n = Some j" for n j
    using that maps_ok_nonce [OF assms(1), of n j] assms(2,4,7,9) by (cases "j = k") auto
  moreover have "distinct (map fst (packetNonces t'))" "packetCount t' = int (length (packets t'))"
    using assms(1,7,8,9) length_update_key [OF assms(2)] by (simp_all add: maps_ok_def)
  ultimately show ?thesis unfolding maps_ok_def by blast
qed

lemma limits_ok_update:
  assumes "limits_ok t" and "map_of (packets t) k = Some p" and "pk_authed p \<Longrightarrow> pk_authed p'"
    and "packetAdmission t' \<le> 128" "MaxSessions t' = MaxSessions t" "packets t' = AList.update k p' (packets t)"
  shows "limits_ok t'"
proof -
  have "provisional t' \<le> provisional t"
    unfolding provisional_def assms(6) by (rule filter_update_key [OF assms(2)]) (use assms(3) in auto)
  then show ?thesis using assms length_update_key [OF assms(2)] by (simp add: limits_ok_def)
qed

lemma packets_inv_update:
  assumes "packets_inv sha t" and "map_of (packets t) k = Some p" and "packet_keeps sha p p'"
  shows "packets_inv sha (t\<lparr>t_stats := st, packets := AList.update k p' (packets t)\<rparr>)"
proof -
  let ?t = "t\<lparr>t_stats := st, packets := AList.update k p' (packets t)\<rparr>"
  have m: "maps_ok sha t" "limits_ok t" using assms(1) by (simp_all add: packets_inv_def)
  have "maps_ok sha ?t"
    by (rule maps_ok_update [OF m(1) assms(2)]) (use assms(3) maps_okD [OF m(1) assms(2)] in \<open>auto simp: packet_keeps_def same_packet_def\<close>)
  moreover have "limits_ok ?t"
    by (rule limits_ok_update [OF m(2) assms(2)]) (use assms(3) m(2) in \<open>auto simp: packet_keeps_def same_packet_def limits_ok_def\<close>)
  ultimately show ?thesis using assms(1) by (simp add: packets_inv_def registry_ok_def within_limit_def)
qed

text \<open>Dropping a session.\<close>

lemma drop_packet_inv:
  assumes "packets_inv sha t" and "map_of (packets t) k = Some p"
  shows "packets_inv sha (drop_packet t (k, p))"
proof -
  let ?t = "drop_packet t (k, p)"
  have m: "maps_ok sha t" "limits_ok t" using assms(1) by (simp_all add: packets_inv_def)
  have len: "Suc (length (packets ?t)) = length (packets t)"
    using length_delete_key [OF _ assms(2)] m(1) by (simp add: drop_packet_def maps_ok_def)
  have "provisional ?t \<le> provisional t" by (simp add: provisional_def drop_packet_def filter_delete_key)
  then have "limits_ok ?t" using m(2) len by (simp add: limits_ok_def drop_packet_def)
  moreover have "pk_id q = j \<and> map_of (packetNonces ?t) (pk_nonce q) = Some j \<and> packet_ok sha q \<and> active q \<le> 20"
    if "map_of (packets ?t) j = Some q" for j q
  proof -
    have j: "j \<noteq> k" "map_of (packets t) j = Some q" using that by (auto simp: drop_packet_def split: if_splits)
    moreover have "pk_nonce q \<noteq> pk_nonce p" using maps_okD [OF m(1) j(2)] maps_okD [OF m(1) assms(2)] j(1) by auto
    ultimately show ?thesis using maps_okD [OF m(1) j(2)] by (simp add: drop_packet_def)
  qed
  moreover have "\<exists>q. map_of (packets ?t) j = Some q \<and> pk_nonce q = n" if "map_of (packetNonces ?t) n = Some j" for n j
  proof -
    have n: "n \<noteq> pk_nonce p" "map_of (packetNonces t) n = Some j" using that by (auto simp: drop_packet_def split: if_splits)
    from maps_ok_nonce [OF m(1) n(2)] show ?thesis using n(1) assms(2) by (auto simp: drop_packet_def)
  qed
  moreover have "distinct (map fst (packets ?t))" "distinct (map fst (packetNonces ?t))" "packetCount ?t = int (length (packets ?t))"
    using m(1) len by (auto simp: maps_ok_def drop_packet_def distinct_delete)
  ultimately have "maps_ok sha ?t" "limits_ok ?t" unfolding maps_ok_def by blast+
  then show ?thesis using assms(1) by (simp add: packets_inv_def registry_ok_def within_limit_def drop_packet_def)
qed

lemma drop_packets_inv:
  assumes "packets_inv sha t" and "distinct (map fst ps)" and "\<And>k p. (k, p) \<in> set ps \<Longrightarrow> map_of (packets t) k = Some p"
  shows "packets_inv sha (foldl drop_packet t ps)"
  using assms
proof (induction ps arbitrary: t)
  case (Cons kp ps)
  obtain k p where kp: "kp = (k, p)" by force
  have "packets_inv sha (drop_packet t kp)" using Cons.prems(1,3) drop_packet_inv kp by simp
  moreover have "map_of (packets (drop_packet t kp)) j = Some q" if "(j, q) \<in> set ps" for j q
    using that Cons.prems(2) Cons.prems(3) [of j q] kp by (force simp: drop_packet_def)
  ultimately show ?case using Cons.IH Cons.prems(2) by simp
qed simp

lemma expirePackets_inv: "packets_inv sha t \<Longrightarrow> packets_inv sha (expirePackets now t)"
  unfolding expirePackets_def
  by (rule drop_packets_inv) (auto simp: packets_inv_def maps_ok_def distinct_map_filter)

lemma closePackets_inv: "packets_inv sha t \<Longrightarrow> packets_inv sha (closePackets t)"
  unfolding closePackets_def by (rule drop_packets_inv) (auto simp: packets_inv_def maps_ok_def)

text \<open>Requests: admission, the begin request, and leaving.\<close>

lemma servePacket_inv:
  assumes "packets_inv sha t"
  shows "packets_inv sha (fst (servePacket t r))"
proof -
  have m: "maps_ok sha t" "limits_ok t" using assms by (simp_all add: packets_inv_def)
  have admit: "packets_inv sha (t\<lparr>packetAdmission := packetAdmission t + 1\<rparr>)" if "\<not> packetAdmission t \<ge> 128"
    using packets_inv_cong [OF assms] that assms by (simp add: packets_inv_def registry_ok_def within_limit_def)
  have enter: "packets_inv sha (t\<lparr>packetAdmission := packetAdmission t + 1, packets := AList.update k (p\<lparr>active := active p + 1\<rparr>) (packets t)\<rparr>)"
    if k: "\<not> packetAdmission t \<ge> 128" "map_of (packets t) k = Some p" "\<not> active p \<ge> 20" for k p
  proof -
    let ?t = "t\<lparr>packetAdmission := packetAdmission t + 1, packets := AList.update k (p\<lparr>active := active p + 1\<rparr>) (packets t)\<rparr>"
    have "maps_ok sha ?t"
      by (rule maps_ok_update [OF m(1) k(2), of "p\<lparr>active := active p + 1\<rparr>"])
        (use k(3) maps_okD(3) [OF m(1) k(2)] in \<open>simp_all add: packet_ok_def\<close>)
    moreover have "limits_ok ?t" by (rule limits_ok_update [OF m(2) k(2), of "p\<lparr>active := active p + 1\<rparr>"]) (use k(1) in simp_all)
    ultimately show ?thesis using assms by (simp add: packets_inv_def registry_ok_def within_limit_def)
  qed
  have count: "packets_inv sha (t\<lparr>t_stats := st\<rparr>)" for st
    using packets_inv_cong [OF assms] assms by (simp add: packets_inv_def registry_ok_def within_limit_def limits_ok_def)
  show ?thesis using assms admit enter count by (simp add: servePacket_def Let_def split: option.split)
qed

lemma servePacket_leave_inv:
  assumes "packets_inv sha t"
  shows "packets_inv sha (servePacket_leave t admitted place)"
proof -
  define u where "u = (case place of None \<Rightarrow> t | Some k \<Rightarrow> (case map_of (packets t) k of None \<Rightarrow> t
    | Some p \<Rightarrow> t\<lparr>packets := AList.update k (p\<lparr>active := active p - 1\<rparr>) (packets t)\<rparr>))"
  have m: "maps_ok sha t" "limits_ok t" using assms by (simp_all add: packets_inv_def)
  have "packets_inv sha (t\<lparr>packets := AList.update k (p\<lparr>active := active p - 1\<rparr>) (packets t)\<rparr>)"
    if k: "map_of (packets t) k = Some p" for k p
  proof -
    let ?t = "t\<lparr>packets := AList.update k (p\<lparr>active := active p - 1\<rparr>) (packets t)\<rparr>"
    have "maps_ok sha ?t"
      by (rule maps_ok_update [OF m(1) k, of "p\<lparr>active := active p - 1\<rparr>"])
        (use maps_okD(3,4) [OF m(1) k] in \<open>simp_all add: packet_ok_def\<close>)
    moreover have "limits_ok ?t"
      by (rule limits_ok_update [OF m(2) k, of "p\<lparr>active := active p - 1\<rparr>"]) (use m(2) in \<open>simp_all add: limits_ok_def\<close>)
    ultimately show ?thesis using assms by (simp add: packets_inv_def registry_ok_def within_limit_def)
  qed
  then have u: "packets_inv sha u" using assms by (simp add: u_def split: option.split)
  then have "packets_inv sha (u\<lparr>packetAdmission := packetAdmission u - 1\<rparr>)"
    by (intro packets_inv_cong [OF u]) (auto simp: packets_inv_def registry_ok_def within_limit_def limits_ok_def)
  with u show ?thesis by (simp add: servePacket_leave_def u_def Let_def)
qed

lemma drop_visitor_fields:
  assumes "registry_ok t" and "within_limit t"
  shows "registry_ok (drop_visitor t r)" "within_limit (drop_visitor t r)"
    "packets (drop_visitor t r) = packets t" "packetNonces (drop_visitor t r) = packetNonces t"
    "packetCount (drop_visitor t r) = packetCount t" "MaxSessions (drop_visitor t r) = MaxSessions t"
    "packetAdmission (drop_visitor t r) = packetAdmission t"
proof -
  have "registry_ok (t\<lparr>sessions := AList.delete k (sessions t), t_store := st\<rparr>)" for k st
    using assms(1) delete_keys [of k "sessions t"] by (auto simp: registry_ok_def distinct_delete)
  moreover have "within_limit (t\<lparr>sessions := AList.delete k (sessions t), t_store := st\<rparr>)" for k st
    using assms(2) length_delete_le [of k "sessions t"] by (simp add: within_limit_def)
  ultimately show "registry_ok (drop_visitor t r)" "within_limit (drop_visitor t r)"
    using assms by (simp_all add: drop_visitor_def split: option.split)
qed (simp_all add: drop_visitor_def split: option.split)

lemma evict_admission: "evict close_it t = (t', ok) \<Longrightarrow> packetAdmission t' = packetAdmission t"
proof (induction close_it t rule: evict.induct)
  case (1 close_it t)
  then show ?case using evict.simps [of close_it t] by (auto simp: Let_def split: if_splits option.splits)
qed

text \<open>A registered session: the maps grow by one entry each, and the count was raised before.\<close>

lemma packets_inv_add:
  assumes t: "packets_inv sha t" and k: "map_of (packets t) k = None" "map_of (packetNonces t) n = None"
    and p: "pk_id p = k" "pk_nonce p = n" "packet_ok sha p" "active p \<le> 20" "\<not> pk_authed p"
    and room: "int (length (packets t)) < min (MaxSessions t) maxPacketSessions" "provisional t < maxPacketProvisional"
    and t': "packets t' = AList.update k p (packets t)" "packetNonces t' = AList.update n k (packetNonces t)"
      "packetCount t' = packetCount t + 1" "MaxSessions t' = MaxSessions t" "packetAdmission t' \<le> 128"
      "registry_ok t'" "within_limit t'"
  shows "packets_inv sha t'"
proof -
  have m: "maps_ok sha t" using t by (simp add: packets_inv_def)
  have upd: "packets t' = packets t @ [(k, p)]" "packetNonces t' = packetNonces t @ [(n, k)]"
    using t'(1,2) k update_fresh by (metis map_of_eq_None_iff)+
  have "limits_ok t'" using room t'(4,5) p(5) upd(1) by (simp add: limits_ok_def provisional_def)
  moreover have "distinct (map fst (packets t'))" "distinct (map fst (packetNonces t'))" "packetCount t' = int (length (packets t'))"
    using m upd k t'(3) by (auto simp: maps_ok_def map_of_eq_None_iff)
  moreover have "pk_id q = j \<and> map_of (packetNonces t') (pk_nonce q) = Some j \<and> packet_ok sha q \<and> active q \<le> 20"
    if "map_of (packets t') j = Some q" for j q
    using that maps_okD [OF m, of j q] p k(2) t'(1,2) by (auto split: if_splits)
  moreover have "\<exists>q. map_of (packets t') j = Some q \<and> pk_nonce q = i" if "map_of (packetNonces t') i = Some j" for i j
    using that maps_ok_nonce [OF m, of i j] p(2) k(1) t'(1,2) by (auto split: if_splits)
  ultimately have "maps_ok sha t'" "limits_ok t'" unfolding maps_ok_def by blast+
  then show ?thesis using t'(6,7) by (simp add: packets_inv_def)
qed

lemma reservePacket_inv:
  assumes "packets_inv sha t" and "reservePacketSession t r = (t', ok)"
  shows "packets t' = packets t" "packetNonces t' = packetNonces t" "MaxSessions t' = MaxSessions t"
    "packetAdmission t' = packetAdmission t" "packetCount t' = packetCount t + (if ok then 1 else 0)" "registry_ok t'" "within_limit t'"
proof -
  note d = drop_visitor_fields [of t r]
  have rw: "registry_ok t" "within_limit t" using assms(1) by (simp_all add: packets_inv_def)
  obtain u ok' where e: "evict close_store (drop_visitor t r) = (u, ok')" by force
  note ev = evict_spec [OF d(1) [OF rw] e] evict_admission [OF e]
  have t': "t' = (if ok then u\<lparr>packetCount := packetCount u + 1\<rparr> else u)" "ok = ok'"
    using assms(2) e by (auto simp: reservePacketSession_def split: bool.splits)
  have lim: "within_limit u" using ev(1) d(2) [OF rw] by (simp add: within_limit_def)
  show "packets t' = packets t" "packetNonces t' = packetNonces t" "MaxSessions t' = MaxSessions t"
    "packetAdmission t' = packetAdmission t" "packetCount t' = packetCount t + (if ok then 1 else 0)" "registry_ok t'"
    using t' ev d rw by (auto simp: registry_ok_def)
  show "within_limit t'" using t' ev(1) lim by (auto simp: within_limit_def full_def)
qed

lemma packet_ok_new: "packet_ok sha (new_packet k nonce hash now)"
  by (simp add: packet_ok_def new_packet_def conn_ok_new)

definition fresh_token :: "transport \<Rightarrow> bytes option \<Rightarrow> bool" where
  "fresh_token t token \<longleftrightarrow> (case token of None \<Rightarrow> True
     | Some tok \<Rightarrow> tok \<noteq> [] \<and> map_of (packets t) (hex_encode tok) = None \<and> map_of (sessions t) (hex_encode tok) = None)"

lemma begin_new_inv:
  assumes "packets_inv sha t" and "fresh_token t token" and "map_of (packetNonces t) nonce = None"
  shows "packets_inv sha (fst (begin_new sha token now t r nonce body)) \<and> snd (begin_new sha token now t r nonce body) \<noteq> P_panic"
proof (cases "int (length (packets t)) \<ge> min (MaxSessions t) maxPacketSessions \<or> provisional t \<ge> maxPacketProvisional \<or> token = None")
  case True
  then show ?thesis using assms(1) by (auto simp: begin_new_def split: option.split)
next
  case False
  then obtain tok where tok: "token = Some tok" by auto
  obtain u ok where u: "reservePacketSession t (base r) = (u, ok)" by force
  note res = reservePacket_inv [OF assms(1) u]
  let ?k = "hex_encode tok"
  let ?p = "new_packet ?k nonce (sha body) now"
  obtain c m q where put: "Put sha (raw ?p) 0 (drop 32 body) = (c, m, q)" by (metis prod_cases3)
  have q: "q \<noteq> Panic"
    using conn_ok_Put [of sha "raw ?p" 0 "drop 32 body"] packet_ok_new [of sha ?k nonce "sha body" now] put by (simp add: packet_ok_def)
  have k: "map_of (packets t) ?k = None" using assms(2) tok by (simp add: fresh_token_def)
  have kept: "packet_keeps sha ?p (?p\<lparr>raw := c\<rparr>)" using Put_keeps [OF put] .
  note closed = packet_close_keeps' [OF kept, of "t_stats u"]
  have adm: "packetAdmission t \<le> 128" using assms(1) by (simp add: packets_inv_def limits_ok_def)
  have add: "packets_inv sha (u\<lparr>packets := AList.update ?k p (packets u), packetNonces := AList.update nonce ?k (packetNonces u)\<rparr>)"
    if keep: "packet_keeps sha ?p p" and ok and auth: "\<not> pk_authed p" for p
  proof (rule packets_inv_add [OF assms(1) k assms(3), of p])
    show "pk_id p = ?k" "pk_nonce p = nonce" "packet_ok sha p" "active p \<le> 20"
      using keep packet_ok_new [of sha ?k nonce "sha body" now] by (auto simp: packet_keeps_def same_packet_def new_packet_def)
  qed (use False auth res adm \<open>ok\<close> in \<open>auto simp: registry_ok_def within_limit_def\<close>)
  have unauth: "\<not> pk_authed (snd (packet_close (t_stats u) (?p\<lparr>raw := c\<rparr>)))"
    by (simp add: packet_close_def new_packet_def Let_def)
  have failed: "packets_inv sha u" if "\<not> ok"
    by (rule packets_inv_cong [OF assms(1)]) (use res adm that in auto)
  show ?thesis
  proof (cases ok)
    case True
    then show ?thesis
      using False tok u put q add [OF kept True] add [OF closed True unauth]
      by (cases q) (auto simp: begin_new_def Let_def new_packet_def)
  next
    case no: False
    then show ?thesis using False tok u failed by (auto simp: begin_new_def)
  qed
qed

lemma drop_packets_fields:
  "sessions (foldl drop_packet t ps) = sessions t" "map_of (packets t) k = None \<Longrightarrow> map_of (packets (foldl drop_packet t ps)) k = None"
  by (induction ps arbitrary: t) (auto simp: drop_packet_def)

lemma fresh_token_expire: "fresh_token t token \<Longrightarrow> fresh_token (expirePackets now t) token"
  by (auto simp: fresh_token_def expirePackets_def drop_packets_fields split: option.splits)

lemma beginPacket_inv:
  assumes "packets_inv sha t" and "fresh_token t token"
  shows "packets_inv sha (fst (beginPacket sha token now t r)) \<and> snd (beginPacket sha token now t r) \<noteq> P_panic"
proof -
  let ?t = "expirePackets now t"
  have inv: "packets_inv sha ?t" using expirePackets_inv [OF assms(1)] .
  then have m: "maps_ok sha ?t" by (simp add: packets_inv_def)
  note new = begin_new_inv [OF inv fresh_token_expire [OF assms(2)]]
  show ?thesis
  proof (cases "packetBody r packetSetupLimit")
    case (Ok body)
    then show ?thesis
      using inv new [of "take 32 body" now r body] maps_ok_nonce [OF m, of "take 32 body"]
      by (auto simp: beginPacket_def Let_def split: option.split)
  qed (use inv in \<open>simp_all add: beginPacket_def Let_def\<close>)
qed

lemma expire_sessions_filter:
  "fst (expire_sessions now ss st) = filter (\<lambda>(k, s). \<not> session_expired now s) ss"
  by (induction now ss st rule: expire_sessions.induct) (auto split: prod.splits)

lemma packets_inv_sessions:
  assumes "packets_inv sha t" and "distinct (map fst ss)" and "[] \<notin> fst ` set ss" and "length ss \<le> length (sessions t)"
  shows "packets_inv sha (t\<lparr>sessions := ss, t_store := store, t_stats := st\<rparr>)"
  by (rule packets_inv_cong [OF assms(1)])
    (use assms in \<open>auto simp: packets_inv_def registry_ok_def within_limit_def limits_ok_def\<close>)

lemma expire_inv:
  assumes "packets_inv sha t"
  shows "packets_inv sha (expire now t)"
proof -
  let ?t = "expirePackets now t"
  have inv: "packets_inv sha ?t" using expirePackets_inv [OF assms] .
  obtain ss st where e: "expire_sessions now (sessions ?t) (t_store ?t) = (ss, st)" by force
  have ss: "ss = filter (\<lambda>(k, s). \<not> session_expired now s) (sessions ?t)"
    using expire_sessions_filter [of now "sessions ?t" "t_store ?t"] e by simp
  have "packets_inv sha (?t\<lparr>sessions := ss, t_store := st, t_stats := t_stats ?t\<rparr>)"
    by (rule packets_inv_sessions [OF inv])
      (use inv in \<open>auto simp: ss packets_inv_def registry_ok_def distinct_map_filter\<close>)
  then show ?thesis using e by (simp add: expire_def Let_def)
qed

lemma Cleanup_inv:
  assumes "packets_inv sha t"
  shows "packets_inv sha (Cleanup t)"
proof -
  have "packets_inv sha (t\<lparr>stopped := True\<rparr>)"
    by (rule packets_inv_cong [OF assms]) (use assms in \<open>auto simp: packets_inv_def registry_ok_def within_limit_def limits_ok_def\<close>)
  from closePackets_inv [OF this] have inv: "packets_inv sha (closePackets (t\<lparr>stopped := True\<rparr>))" .
  show ?thesis unfolding Cleanup_def Let_def
    by (rule packets_inv_cong [OF inv]) (use inv in \<open>auto simp: packets_inv_def registry_ok_def within_limit_def limits_ok_def\<close>)
qed

section \<open>Reachable registries\<close>

text \<open>
  The steps of the handler. A token of \<^verbatim>\<open>rand.Read\<close> is taken not to be in use. \<open>visit\<close> stands for
  whatever the other handlers do with a session that exists.
\<close>

inductive registry_step :: "(bytes \<Rightarrow> bytes \<Rightarrow> bytes) \<Rightarrow> (bytes \<Rightarrow> bytes) \<Rightarrow> transport \<Rightarrow> transport \<Rightarrow> bool" for hmac sha where
  step_begin: "fresh_token t token \<Longrightarrow> registry_step hmac sha t (fst (beginPacket sha token now t r))"
| step_serve: "registry_step hmac sha t (fst (servePacket t req))"
| step_leave: "registry_step hmac sha t (servePacket_leave t admitted place)"
| step_packet: "map_of (packets t) k = Some p \<Longrightarrow> packet_op hmac sha (t_stats t, p) (st, p')
    \<Longrightarrow> registry_step hmac sha t (t\<lparr>t_stats := st, packets := AList.update k p' (packets t)\<rparr>)"
| step_expire: "registry_step hmac sha t (expire now t)"
| step_cleanup: "registry_step hmac sha t (Cleanup t)"
| step_session: "fresh_token t token \<Longrightarrow> registry_step hmac sha t (fst (getSession parse_addr token now t req))"
| step_visit: "map_of (sessions t) k = Some s
    \<Longrightarrow> registry_step hmac sha t (t\<lparr>sessions := AList.update k s' (sessions t), t_store := store, t_stats := st\<rparr>)"

definition registry_start :: "transport \<Rightarrow> bool" where
  "registry_start t \<longleftrightarrow> MaxSessions t > 0 \<and> packets t = [] \<and> packetNonces t = [] \<and> packetCount t = 0
     \<and> packetAdmission t = 0 \<and> sessions t = []"

definition registry_reachable :: "(bytes \<Rightarrow> bytes \<Rightarrow> bytes) \<Rightarrow> (bytes \<Rightarrow> bytes) \<Rightarrow> transport \<Rightarrow> bool" where
  "registry_reachable hmac sha t \<longleftrightarrow> (\<exists>t0. registry_start t0 \<and> (registry_step hmac sha)\<^sup>*\<^sup>* t0 t)"

lemma getSession_packets:
  assumes "registry_ok t" and "getSession parse_addr token now t r = (t', res)"
  shows "packets t' = packets t" "packetNonces t' = packetNonces t" "packetCount t' = packetCount t"
    "MaxSessions t' = MaxSessions t" "packetAdmission t' = packetAdmission t"
proof -
  obtain u ok where e: "evict (\<lambda>s st. st) t = (u, ok)" by force
  note ev = evict_spec [OF assms(1) e] evict_admission [OF e]
  have "packets t' = packets t \<and> packetNonces t' = packetNonces t \<and> packetCount t' = packetCount t
    \<and> MaxSessions t' = MaxSessions t \<and> packetAdmission t' = packetAdmission t"
    using assms(2) e ev
    by (auto simp: getSession_def create_session_def Let_def split: outcome.splits if_splits option.splits bool.splits)
  then show "packets t' = packets t" "packetNonces t' = packetNonces t" "packetCount t' = packetCount t"
    "MaxSessions t' = MaxSessions t" "packetAdmission t' = packetAdmission t" by auto
qed

lemma getSession_inv:
  assumes "packets_inv sha t" and "fresh_token t token"
  shows "packets_inv sha (fst (getSession parse_addr token now t r))"
proof -
  obtain t' res where g: "getSession parse_addr token now t r = (t', res)" by force
  have rw: "registry_ok t" "within_limit t" "packetAdmission t \<le> 128" using assms(1) by (simp_all add: packets_inv_def limits_ok_def)
  have fresh: "tok \<noteq> [] \<and> map_of (sessions t) (hex_encode tok) = None" if "token = Some tok" for tok
    using assms(2) that by (simp add: fresh_token_def)
  have "packets_inv sha t'"
    by (rule packets_inv_cong [OF assms(1)])
      (use getSession_packets [OF rw(1) g] getSession_spec [OF rw(1) g fresh rw(2)] rw(3) in auto)
  then show ?thesis by (simp add: g)
qed

lemma visit_inv:
  assumes "packets_inv sha t" and "map_of (sessions t) k = Some s"
  shows "packets_inv sha (t\<lparr>sessions := AList.update k s' (sessions t), t_store := store, t_stats := st\<rparr>)"
proof -
  have "k \<in> fst ` set (sessions t)" using assms(2) by (metis domI dom_map_of_conv_image_fst)
  then have keys: "map fst (AList.update k s' (sessions t)) = map fst (sessions t)" by (simp add: update_keys)
  then have "fst ` set (AList.update k s' (sessions t)) = fst ` set (sessions t)" by (metis list.set_map)
  moreover have "registry_ok t" using assms(1) by (simp add: packets_inv_def)
  ultimately show ?thesis
    using keys length_update_key [OF assms(2)] by (intro packets_inv_sessions [OF assms(1)]) (simp_all add: registry_ok_def)
qed

lemma packets_inv_step: "packets_inv sha t \<Longrightarrow> registry_step hmac sha t t' \<Longrightarrow> packets_inv sha t'"
  by (erule registry_step.cases)
    (auto intro: packets_inv_update packet_op_keeps servePacket_inv servePacket_leave_inv expire_inv Cleanup_inv getSession_inv
      visit_inv simp: beginPacket_inv)

interpretation packet_registry: step_system registry_start "registry_step hmac sha" "packets_inv sha" for hmac sha
proof
  show "packets_inv sha t" if "registry_start t" for t
    using that by (auto simp: registry_start_def packets_inv_def registry_ok_def within_limit_def maps_ok_def limits_ok_def
        provisional_def maxPacketSessions_def maxPacketProvisional_def)
qed (rule packets_inv_step)

lemma registry_reachable_inv: "registry_reachable hmac sha t \<Longrightarrow> packets_inv sha t"
  unfolding registry_reachable_def using packet_registry.reachable_inv by blast

lemma packet_panic_free:
  assumes "conn_ok sha (raw p)"
  shows "snd (authenticatePacket sha st p r) \<noteq> P_panic" "snd (uploadPacket hmac sha now st p r key n) \<noteq> P_panic"
    "snd (downloadPacket hmac sha now st p r key) \<noteq> Panic" "download_step hmac sha key p gen pos \<noteq> D_panic"
proof -
  have put: "Put sha c n body \<noteq> (d, m, Panic)" if "conn_ok sha c" for c d n m body
    using conn_ok_Put [OF that, of n body] by auto
  have ack: "Ack (raw p) n \<noteq> (d, Panic)" for d n using Ack_no_panic [of "raw p" n] by auto
  have acked: "conn_ok sha d" if "Ack (raw p) n = (d, q)" for d n q using conn_ok_ops(2) [OF assms, of n] that by simp
  have attach: "Attach (raw p) gen n \<noteq> (d, Panic)" for gen n d using Attach_no_panic [of "raw p" gen n] by auto
  show "snd (authenticatePacket sha st p r) \<noteq> P_panic"
    using put [OF assms] by (auto simp: authenticatePacket_def Let_def split: outcome.split option.split prod.split)
  show "snd (uploadPacket hmac sha now st p r key n) \<noteq> P_panic"
    using put [OF acked] ack by (auto simp: uploadPacket_def Let_def split: outcome.split option.split prod.split)
  show "snd (downloadPacket hmac sha now st p r key) \<noteq> Panic"
    using attach by (auto simp: downloadPacket_def Let_def split: outcome.split option.split prod.split)
  have "Next (raw p) gen pos \<noteq> Panic" using assms conn_reachable_inv Next_spec(1) unfolding conn_ok_def by blast
  then show "download_step hmac sha key p gen pos \<noteq> D_panic" by (auto simp: download_step_def split: outcome.split option.split)
qed

section \<open>Properties\<close>

text \<open>
  C36. In every reachable state of the handler the registry of packet sessions is well formed: each session is
  registered under its own id and exactly its nonce leads to it, the count that admission uses is the number of
  sessions, and there are at most 32 of them, at most \<open>MaxSessions\<close> together with the HTTP sessions, at most
  16 of them not authenticated, each with at most 20 requests, and at most 128 admitted requests altogether.
  An authenticated session has been through an authentication request and has its multiplexer, and a
  closed one has closed its connection. No request to a registered session, and no begin request, panics.
\<close>

theorem packet_registry_wf:
  assumes "registry_reachable hmac sha t"
  shows "int (length (packets t)) \<le> 32 \<and> int (length (sessions t)) + int (length (packets t)) \<le> MaxSessions t
    \<and> packetCount t = int (length (packets t)) \<and> provisional t \<le> 16 \<and> packetAdmission t \<le> 128
    \<and> (\<forall>n k. map_of (packetNonces t) n = Some k \<longleftrightarrow> (\<exists>p. map_of (packets t) k = Some p \<and> pk_nonce p = n))
    \<and> (\<forall>k p. map_of (packets t) k = Some p \<longrightarrow> pk_id p = k \<and> active p \<le> 20
         \<and> (pk_authed p \<longrightarrow> authStarted p \<and> state p \<noteq> None) \<and> (pk_closed p \<longrightarrow> c_closed (raw p))
         \<and> snd (authenticatePacket sha st p r) \<noteq> P_panic \<and> snd (uploadPacket hmac sha now st p r key n) \<noteq> P_panic
         \<and> snd (downloadPacket hmac sha now st p r key) \<noteq> Panic \<and> download_step hmac sha key p gen pos \<noteq> D_panic)
    \<and> (fresh_token t token \<longrightarrow> snd (beginPacket sha token now t r) \<noteq> P_panic)"
proof -
  have inv: "packets_inv sha t" using registry_reachable_inv [OF assms] .
  then have m: "maps_ok sha t" and l: "limits_ok t" and w: "within_limit t" by (simp_all add: packets_inv_def)
  have c: "packetCount t = int (length (packets t))" using m by (simp add: maps_ok_def)
  have n: "map_of (packetNonces t) n = Some k \<longleftrightarrow> (\<exists>p. map_of (packets t) k = Some p \<and> pk_nonce p = n)" for n k
    using maps_ok_nonce [OF m] maps_okD(2) [OF m] by blast
  have p: "pk_id p = k \<and> active p \<le> 20 \<and> packet_ok sha p" if "map_of (packets t) k = Some p" for k p
    using maps_okD [OF m that] by blast
  have "int (length (packets t)) \<le> 32 \<and> provisional t \<le> 16 \<and> packetAdmission t \<le> 128"
    "int (length (sessions t)) + int (length (packets t)) \<le> MaxSessions t"
    using l w c by (simp_all add: limits_ok_def within_limit_def maxPacketSessions_def maxPacketProvisional_def)
  then show ?thesis using c n p packet_panic_free beginPacket_inv [OF inv] by (auto simp: packet_ok_def)
qed

text \<open>A handler after its first begin request.\<close>

definition empty_demo :: transport where
  "empty_demo = registry_demo\<lparr>sessions := []\<rparr>"

definition begin_request :: packet_request where
  "begin_request = \<lparr>base = demo_visit\<lparr>Method := ''POST'', Path := ''/api/packet''\<rparr>, ContentLength = 34,
     ContentType = ''application/octet-stream'', ContentEncoding = [], CursorHeader = [], MACHeader = [],
     body_stream = replicate 34 7, read_fails = False, deadline_err = None\<rparr>"

definition begin_demo :: transport where
  "begin_demo = fst (beginPacket demo_sha (Some [1]) 0 empty_demo begin_request)"

lemma begin_demo_reachable: "registry_reachable (\<lambda>_ _. []) demo_sha begin_demo"
proof -
  have "registry_start empty_demo" by (simp add: registry_start_def empty_demo_def registry_demo_def)
  moreover have "fresh_token empty_demo (Some [1])" by (simp add: fresh_token_def empty_demo_def registry_demo_def)
  ultimately show ?thesis unfolding registry_reachable_def begin_demo_def by (blast intro: step_begin)
qed

lemma begin_demo_packets: "map fst (packets begin_demo) = [''01'']"
proof -
  let ?p = "new_packet ''01'' (replicate 32 7) (demo_sha (replicate 34 7)) 0"
  have body: "packetBody begin_request packetSetupLimit = Ok (replicate 34 7)"
    by (simp add: packetBody_def begin_request_def packetSetupLimit_def demo_visit_def)
  have t: "expirePackets 0 empty_demo = empty_demo" by (simp add: expirePackets_def empty_demo_def registry_demo_def)
  have hex: "hex_encode [1] = ''01''" by code_simp
  obtain c m q where put: "Put demo_sha (raw ?p) 0 (replicate 2 7) = (c, m, q)" by (metis prod_cases3)
  have q: "q \<noteq> Panic" using conn_ok_Put [of demo_sha "raw ?p" 0 "replicate 2 7"] put by (simp add: new_packet_def conn_ok_new)
  have res: "reservePacketSession empty_demo (base begin_request) = (empty_demo\<lparr>packetCount := 1\<rparr>, True)"
    by (simp add: reservePacketSession_def drop_visitor_def begin_request_def demo_visit_def evict.simps full_def empty_demo_def
        registry_demo_def)
  have "map fst (packets (fst (begin_new demo_sha (Some [1]) 0 empty_demo begin_request (replicate 32 7) (replicate 34 7)))) = [''01'']"
    using put q res hex
    by (cases q) (simp_all add: begin_new_def Let_def empty_demo_def registry_demo_def provisional_def maxPacketSessions_def
        maxPacketProvisional_def)
  then show ?thesis
    by (simp add: begin_demo_def beginPacket_def body t) (simp add: empty_demo_def registry_demo_def)
qed

theorem packet_registry_wf_witness:
  "map fst (packets begin_demo) = [''01''] \<and> packetCount begin_demo = 1 \<and> provisional begin_demo \<le> 16
    \<and> (\<exists>p. map_of (packets begin_demo) ''01'' = Some p \<and> pk_id p = ''01'')
    \<and> snd (beginPacket demo_sha None 0 begin_demo begin_request) \<noteq> P_panic"
proof -
  have "length (packets begin_demo) = 1" using begin_demo_packets by (metis length_map length_Cons list.size(3) One_nat_def)
  moreover have "fresh_token begin_demo None" by (simp add: fresh_token_def)
  moreover obtain p where "map_of (packets begin_demo) ''01'' = Some p" using begin_demo_packets by (cases "packets begin_demo") auto
  ultimately show ?thesis using packet_registry_wf [OF begin_demo_reachable] begin_demo_packets by auto
qed

end
