(* ===== verification/Packet_Requests.thy ===== *)
theory Packet_Requests
  imports Packet_Registry
begin

text \<open>
  What a packet request must carry before it changes a session and how, and the wire formats of the packet carrier:
  numbers in paths and headers, and cells on the TLS stream.
\<close>

section \<open>Signed requests\<close>

definition upload_signed ::
  "(bytes \<Rightarrow> bytes \<Rightarrow> bytes) \<Rightarrow> (bytes \<Rightarrow> bytes) \<Rightarrow> bytes \<Rightarrow> packetSession \<Rightarrow> packet_request \<Rightarrow> u64 \<Rightarrow> bool" where
  "upload_signed hmac sha key p r n \<longleftrightarrow>
     (\<exists>body pos tag. packetBody r MaxBlock = Ok body \<and> packetNumber (CursorHeader r) = Ok pos
        \<and> hex_decode (MACHeader r) = Some tag \<and> Verify hmac sha key ''upload'' (pk_id p) n pos body tag)"

definition download_signed ::
  "(bytes \<Rightarrow> bytes \<Rightarrow> bytes) \<Rightarrow> (bytes \<Rightarrow> bytes) \<Rightarrow> bytes \<Rightarrow> packetSession \<Rightarrow> packet_request \<Rightarrow> bool" where
  "download_signed hmac sha key p r \<longleftrightarrow>
     (\<exists>gen pos tag. packetNumber (query_get (RawQuery (base r)) ''generation'') = Ok gen
        \<and> packetNumber (query_get (RawQuery (base r)) ''cursor'') = Ok pos
        \<and> hex_decode (MACHeader r) = Some tag \<and> Verify hmac sha key ''download'' (pk_id p) gen pos [] tag)"

text \<open>
  The first cell of the TLS session presents a configured credential, and the recorded authentication request was
  signed with the key of that very TLS session.
\<close>

definition login_verified ::
  "(bytes \<Rightarrow> bytes \<Rightarrow> bytes) \<Rightarrow> (bytes \<Rightarrow> bytes) \<Rightarrow> bytes list \<Rightarrow> (string \<Rightarrow> bytes \<Rightarrow> nat \<Rightarrow> (string, bytes) outcome) \<Rightarrow> bool
     \<Rightarrow> packetSession \<Rightarrow> bytes \<Rightarrow> bytes \<Rightarrow> bytes \<Rightarrow> bool" where
  "login_verified hmac sha hashes export handshake p stream key rest \<longleftrightarrow> handshake \<and> authStarted p \<and> Secret export = Ok key
     \<and> (\<exists>body authorization. readPacketCell stream = Ok (body, rest)
          \<and> auth_cell body = Some authorization \<and> authenticate sha hashes authorization)
     \<and> Verify hmac sha key ''auth'' (pk_id p) 1 (authCursor p) (authBody p) (authTag p)"

text \<open>The authentication request that may be recorded: well formed, for the next block after the greeting flight, and the first one.\<close>

definition auth_recordable :: "packetSession \<Rightarrow> packet_request \<Rightarrow> bytes \<Rightarrow> bytes \<Rightarrow> bool" where
  "auth_recordable p r body tag \<longleftrightarrow> packetBody r packetSetupLimit = Ok body \<and> hex_decode (MACHeader r) = Some tag \<and> length tag = 32
     \<and> packetNumber (CursorHeader r) = Ok (beginNext p) \<and> beginReply p \<noteq> None \<and> \<not> authStarted p"

definition auth_recorded :: "(bytes \<Rightarrow> bytes) \<Rightarrow> packetSession \<Rightarrow> bytes \<Rightarrow> bytes \<Rightarrow> packetSession" where
  "auth_recorded sha p body tag = p\<lparr>authStarted := True, authHash := sha body, authBody := body, authTag := tag,
     authCursor := beginNext p, raw := fst (Put sha (raw p) 1 body)\<rparr>"

definition logged_in :: "int \<Rightarrow> packetSession \<Rightarrow> bytes \<Rightarrow> packetSession" where
  "logged_in now p key = p\<lparr>raw := fst (Ack (raw p) (authCursor p)), secret := key, pk_authed := True,
     state := Some (packet_state now), pk_last := now\<rparr>"

lemma upload_unsigned:
  assumes "\<not> upload_signed hmac sha key p r n"
  shows "fst (uploadPacket hmac sha now st p r key n) = (st, p)
    \<and> (\<exists>s. snd (uploadPacket hmac sha now st p r key n) = P_status s \<and> (s = 403 \<or> s = 503))"
proof (cases "packetBody r MaxBlock")
  case (Ok body)
  then show ?thesis using assms
    by (auto simp: uploadPacket_def upload_signed_def packetBodyStatus_def Let_def split: outcome.split option.split)
qed (auto simp: uploadPacket_def packetBodyStatus_def Let_def)

lemma download_unsigned:
  "\<not> download_signed hmac sha key p r \<Longrightarrow>
     fst (downloadPacket hmac sha now st p r key) = (st, p)
     \<and> (\<exists>s. snd (downloadPacket hmac sha now st p r key) = Fail s \<and> (s = 400 \<or> s = 403))"
  by (auto simp: downloadPacket_def download_signed_def Let_def split: outcome.split option.split)

lemma upload_signed_served: "upload_signed hmac sha key p r n \<Longrightarrow> snd (uploadPacket hmac sha now st p r key n) \<noteq> P_status 403"
  by (auto simp: uploadPacket_def upload_signed_def Let_def split: outcome.splits prod.splits if_splits)

lemma download_signed_served: "download_signed hmac sha key p r \<Longrightarrow> snd (downloadPacket hmac sha now st p r key) \<noteq> Fail 403"
  by (auto simp: downloadPacket_def download_signed_def Let_def split: outcome.split prod.split)

lemma packet_close_authed: "packet_close st p = (st', p') \<Longrightarrow> pk_authed p' = pk_authed p \<and> secret p' = secret p"
  by (auto simp: packet_close_def Let_def split: if_splits option.splits)

lemma auth_refused:
  assumes "\<nexists>body tag. auth_recordable p r body tag"
  shows "fst (authenticatePacket sha st p r) = (st, p)"
proof (cases "packetBody r packetSetupLimit")
  case (Ok body)
  then show ?thesis
    using assms by (auto simp: authenticatePacket_def auth_recordable_def Let_def split: outcome.split option.split)
qed (simp_all add: authenticatePacket_def Let_def)

lemma auth_accepted:
  assumes "auth_recordable p r body tag"
  shows "fst (authenticatePacket sha st p r) = (st, auth_recorded sha p body tag)
    \<or> fst (authenticatePacket sha st p r) = packet_close st (auth_recorded sha p body tag)"
  using assms
  by (auto simp: authenticatePacket_def auth_recordable_def auth_recorded_def Let_def split: outcome.split prod.split)

lemma auth_keeps:
  assumes "authenticatePacket sha st p r = ((st', p'), reply)"
  shows "pk_authed p' = pk_authed p \<and> secret p' = secret p"
proof (cases "\<exists>body tag. auth_recordable p r body tag")
  case True
  then obtain body tag where ok: "auth_recordable p r body tag" by blast
  have q: "pk_authed (auth_recorded sha p body tag) = pk_authed p" "secret (auth_recorded sha p body tag) = secret p"
    by (simp_all add: auth_recorded_def)
  show ?thesis using auth_accepted [OF ok, of sha st] q packet_close_authed [of st "auth_recorded sha p body tag" st' p'] assms by auto
next
  case False
  then show ?thesis using auth_refused [OF False, of sha st] assms by simp
qed

lemma login_unverified:
  assumes "\<nexists>key rest. login_verified hmac sha hashes export handshake p stream key rest"
  shows "runPacket hmac sha hashes rand ident now export handshake p stream = (p, None)"
  using assms
  by (auto simp: runPacket_def packet_login_def login_verified_def Let_def split: outcome.split option.split prod.split)

lemma login_exact:
  "runPacket hmac sha hashes rand ident now export handshake p stream = (p', Some (hello, rest)) \<longleftrightarrow>
     (\<exists>key. login_verified hmac sha hashes export handshake p stream key rest \<and> p' = logged_in now p key) \<and> \<not> pk_closed p
     \<and> snd (Ack (raw p) (authCursor p)) = Ok ()
     \<and> Encode rand 0 512 [\<lparr>Kind = HelloK, Stream = 0, Sequence = 0, Body = hello_body ident (pk_id p)\<rparr>] = Ok hello"
  by (auto simp: runPacket_def packet_login_def login_verified_def logged_in_def Let_def
      split: outcome.splits option.splits prod.splits if_splits)

section \<open>Wire formats\<close>

lemma packetNumber_iff: "packetNumber s = Ok n \<longleftrightarrow> s = itoa (unat n)"
proof
  assume a: "packetNumber s = Ok n"
  then obtain m where m: "ParseUint s 64 = Ok m" "itoa m = s" "n = of_nat m"
    by (auto simp: packetNumber_def split: outcome.splits if_splits)
  have "m < 2 ^ 64" using ParseUint_Ok [OF m(1)] by simp
  then have "unat n = m" using m(3) unat_of_nat_small [where 'a = 64, of m] by simp
  then show "s = itoa (unat n)" using m(2) by simp
next
  assume s: "s = itoa (unat n)"
  have "unat n < 2 ^ 64" using unat_bound [of n] by simp
  then show "packetNumber s = Ok n" using s ParseUint_itoa [of "unat n" 64] by (simp add: packetNumber_def)
qed

lemma packet_frame_eq: "packet_frame body = put_u32 (of_nat (length body)) @ body"
proof -
  have r: "replicate (4 + length body) 0 = [] @ replicate 4 0 @ (replicate (length body) 0 :: bytes)" by (simp add: replicate_add)
  have "copy_at (replicate (4 + length body) 0) 0 (put_u32 (of_nat (length body)))
    = put_u32 (of_nat (length body)) @ replicate (length body) 0"
    unfolding r using copy_at_prefix [of "replicate 4 0" "put_u32 (of_nat (length body))" "[]" "replicate (length body) 0"] by simp
  then show ?thesis
    using copy_at_prefix [of "replicate (length body) 0" body "put_u32 (of_nat (length body))" "[]"]
    by (simp add: packet_frame_def)
qed

lemma readPacketCell_frame:
  assumes "packet_capacity (length body)"
  shows "readPacketCell (packet_frame body @ rest) = Ok (body, rest)"
proof -
  have "length body < 2 ^ 32" using assms by (auto simp: packet_capacity_def)
  then have "unat (of_nat (length body) :: u32) = length body" by (simp add: unat_of_nat_small)
  then show ?thesis using assms by (simp add: readPacketCell_def packet_frame_eq)
qed

lemma readPacketCell_iff:
  "readPacketCell stream = Ok (body, rest) \<longleftrightarrow> packet_capacity (length body) \<and> stream = packet_frame body @ rest"
proof
  assume a: "readPacketCell stream = Ok (body, rest)"
  let ?n = "unat (get_u32 (take 4 stream))"
  have r: "packet_capacity ?n" "length (drop 4 stream) \<ge> ?n" "body = take ?n (drop 4 stream)" "rest = drop ?n (drop 4 stream)"
    "length (take 4 stream) = 4"
    using a by (auto simp: readPacketCell_def Let_def split: if_splits)
  have len: "length body = ?n" using r(2,3) by simp
  then have "put_u32 (of_nat (length body)) = take 4 stream" using r(5) by (simp add: put_get_u32)
  moreover have "body @ rest = drop 4 stream" by (simp only: r(3,4) append_take_drop_id)
  ultimately have "packet_frame body @ rest = take 4 stream @ drop 4 stream" by (simp add: packet_frame_eq)
  then show "packet_capacity (length body) \<and> stream = packet_frame body @ rest" using r(1) len by simp
qed (use readPacketCell_frame in blast)

lemma length_hex_encode: "length (hex_encode b) = 2 * length b"
  by (induction b) auto

lemma packet_id_iff: "packet_id_ok k \<and> length k = 64 \<longleftrightarrow> (\<exists>b. length b = 32 \<and> k = hex_encode b)"
  by (auto simp: packet_id_ok_def length_hex_encode split: option.splits)

section \<open>Properties\<close>


text \<open>
  A request without a tag, to a session that has one request behind it; a login before any handshake; and an
  authentication request that is recorded.
\<close>

definition packet_demo :: packetSession where
  "packet_demo = (new_packet ''01'' [] [] 0)\<lparr>pk_authed := True, secret := replicate 32 1\<rparr>"

definition begun_demo :: packetSession where
  "begun_demo = (new_packet ''01'' [] [] 0)\<lparr>beginReply := Some [], beginNext := 3\<rparr>"

definition auth_demo :: packet_request where
  "auth_demo = begin_request\<lparr>CursorHeader := ''3'', MACHeader := hex_encode (replicate 32 5), ContentLength := 1, body_stream := [9],
     read_fails := False, deadline_err := None\<rparr>"


text \<open>
  C38. The wire formats of the packet carrier are exact. A number is accepted in exactly one spelling, the
  decimal one without leading zeros that \<^verbatim>\<open>strconv.FormatUint\<close> writes; a session id in a path is
  accepted exactly if it is the lower-case hexadecimal text of 32 bytes; and reading a cell from a stream yields a
  cell and the rest exactly if the stream is what writing that cell produced, followed by the rest, and
  the cell has one of the five capacities.
\<close>

theorem packet_wire_exact:
  "(packetNumber s = Ok n \<longleftrightarrow> s = itoa (unat n))
   \<and> (packet_id_ok k \<and> length k = 64 \<longleftrightarrow> (\<exists>b. length b = 32 \<and> k = hex_encode b))
   \<and> (readPacketCell stream = Ok (body, rest) \<longleftrightarrow>
        length body \<in> {512, 4096, 8192, 16384, 131072} \<and> stream = packet_frame body @ rest)"
  using packetNumber_iff packet_id_iff readPacketCell_iff by (simp add: packet_capacity_def)

end
