(* ===== verification/Router.thy ===== *)
theory Router
  imports Packet_Handlers Carrier
begin

text \<open>
  The entry point: \<^verbatim>\<open>ServeHTTP\<close> of \<^verbatim>\<open>transport.go\<close>, which sends a request to the packet carrier, to the
  HTTP/3 and WebSocket carriers, to the startup exchange, to the public site or to the next handler,
  and \<^verbatim>\<open>decline\<close> and \<^verbatim>\<open>reject\<close>. The handlers are those of the other theories; here they act on the whole state.
\<close>

section \<open>What the handler is given\<close>

text \<open>
  The cryptography, the random source, the parser of addresses, the token of a new session, two readings of the
  clock, the subprotocols the client offers, and the directory of the site.
\<close>

record world =
  w_sha :: "bytes \<Rightarrow> bytes"
  w_hmac :: "bytes \<Rightarrow> bytes \<Rightarrow> bytes"
  w_rand :: "nat \<Rightarrow> bytes option"
  w_parse_addr :: "string \<Rightarrow> string option"
  w_token :: "bytes option"
  w_now :: int
  w_later :: int
  w_offered :: "string list"
  w_stat :: "nat \<Rightarrow> string \<Rightarrow> fs_err + file_mode"
  w_open :: "string \<Rightarrow> fs_err + file_mode option"

text \<open>
  How a request ends or goes on. \<open>H_next\<close> hands it to the next handler, with the body that one will read;
  \<open>H_asset\<close> has the cache control, the type, the length and, for GET, the body; a carrier that was
  admitted carries the id of its session.
\<close>

datatype http_reply =
    H_next bytes | H_status nat | H_error string | H_panic | H_stats string
  | H_static static_reply | H_asset string string nat "bytes option"
  | H_packet packet_reply | H_download u64 u64
  | H_stream string | H_upload string | H_realtime string | H_startup string startup_reply

definition decline :: "transport \<Rightarrow> packet_request \<Rightarrow> transport \<times> http_reply" where
  "decline t r = (t\<lparr>t_stats := reject_count (t_stats t)\<rparr>, H_next (body_stream r))"

definition reject :: "transport \<Rightarrow> transport \<times> http_reply" where
  "reject t = (t\<lparr>t_stats := reject_count (t_stats t)\<rparr>, H_status 400)"

section \<open>Packet requests\<close>

text \<open>A request that waits keeps its slots; every other one gives them back when it is answered.\<close>

definition packet_answer :: "transport \<Rightarrow> bool \<Rightarrow> string option \<Rightarrow> packet_reply \<Rightarrow> transport \<times> http_reply" where
  "packet_answer t admitted place reply =
     ((case reply of P_wait _ \<Rightarrow> t | _ \<Rightarrow> servePacket_leave t admitted place), H_packet reply)"

definition on_packet ::
  "transport \<Rightarrow> string \<Rightarrow> (counters \<Rightarrow> packetSession \<Rightarrow> (counters \<times> packetSession) \<times> 'a) \<Rightarrow> transport \<times> 'a option" where
  "on_packet t k f =
     (case map_of (packets t) k of
        None \<Rightarrow> (t, None)
      | Some p \<Rightarrow>
          (case f (t_stats t) p of ((st, p'), x) \<Rightarrow>
             (t\<lparr>t_stats := st, packets := AList.update k p' (packets t)\<rparr>, Some x)))"

definition serve_packet :: "world \<Rightarrow> transport \<Rightarrow> packet_request \<Rightarrow> transport \<times> http_reply" where
  "serve_packet w t r =
     (case servePacket t (base r) of (t, admitted, place, route) \<Rightarrow>
      case route of
        R_decline \<Rightarrow> (t, H_next (body_stream r))
      | R_status n \<Rightarrow> (servePacket_leave t admitted place, H_status n)
      | R_begin \<Rightarrow>
          (case beginPacket (w_sha w) (w_token w) (w_now w) t r of (t, reply) \<Rightarrow> packet_answer t admitted place reply)
      | R_auth k \<Rightarrow>
          (case on_packet t k (\<lambda>st p. authenticatePacket (w_sha w) st p r) of
             (t, Some reply) \<Rightarrow> packet_answer t admitted place reply
           | (t, None) \<Rightarrow> (t, H_panic))
      | R_upload k n \<Rightarrow>
          (case on_packet t k (\<lambda>st p. uploadPacket (w_hmac w) (w_sha w) (w_now w) st p r (secret p) n) of
             (t, Some reply) \<Rightarrow> packet_answer t admitted place reply
           | (t, None) \<Rightarrow> (t, H_panic))
      | R_download k \<Rightarrow>
          (case on_packet t k (\<lambda>st p. downloadPacket (w_hmac w) (w_sha w) (w_now w) st p r (secret p)) of
             (t, Some (Ok (gen, pos))) \<Rightarrow> (t, H_download gen pos)
           | (t, Some (Fail n)) \<Rightarrow> (servePacket_leave t admitted place, H_status n)
           | (t, _) \<Rightarrow> (t, H_panic)))"

section \<open>Requests of a session\<close>

text \<open>Every carrier request starts with its session; without one it is declined.\<close>

definition on_session ::
  "world \<Rightarrow> transport \<Rightarrow> packet_request \<Rightarrow> (transport \<Rightarrow> string \<Rightarrow> session \<Rightarrow> transport \<times> http_reply) \<Rightarrow> transport \<times> http_reply" where
  "on_session w t r f =
     (case getSession (w_parse_addr w) (w_token w) (w_now w) t (base r) of
        (t, Ok (k, _)) \<Rightarrow> (case map_of (sessions t) k of Some s \<Rightarrow> f t k s | None \<Rightarrow> (t, H_panic))
      | (t, _) \<Rightarrow> decline t r)"

definition put_session :: "transport \<Rightarrow> string \<Rightarrow> session \<Rightarrow> startup_store \<Rightarrow> transport" where
  "put_session t k s store = t\<lparr>sessions := AList.update k s (sessions t), t_store := store\<rparr>"

fun admitted_reply :: "transport \<Rightarrow> packet_request \<Rightarrow> admission \<Rightarrow> http_reply \<Rightarrow> transport \<times> http_reply" where
  "admitted_reply t r A_decline ok = decline t r"
| "admitted_reply t r A_reject ok = reject t"
| "admitted_reply t r (A_error e) ok = (t, H_error e)"
| "admitted_reply t r A_ok ok = (t, ok)"

definition serve_stream :: "world \<Rightarrow> transport \<Rightarrow> packet_request \<Rightarrow> transport \<times> http_reply" where
  "serve_stream w t r = on_session w t r (\<lambda>t k s.
     case h3_admit (t_stats t) (s, t_store t) (base r) (w_now w) of
       (st, (s, store), adm) \<Rightarrow> admitted_reply ((put_session t k s store)\<lparr>t_stats := st\<rparr>) r adm (H_stream k))"

text \<open>An upload that is refused gives its slot back at once.\<close>

definition serve_upload :: "world \<Rightarrow> transport \<Rightarrow> packet_request \<Rightarrow> transport \<times> http_reply" where
  "serve_upload w t r = on_session w t r (\<lambda>t k s.
     case h3Upload_enter s (base r) of
       (s', ready, adm) \<Rightarrow>
         let s' = (if adm = A_ok then s' else h3Upload_leave s' ready)
         in admitted_reply (put_session t k s' (t_store t)) r adm (H_upload k))"

definition serve_realtime :: "world \<Rightarrow> transport \<Rightarrow> packet_request \<Rightarrow> transport \<times> http_reply" where
  "serve_realtime w t r = on_session w t r (\<lambda>t k s.
     case realtime_admit (s, t_store t) (base r) (w_offered w) (w_now w) of
       ((s, store), adm) \<Rightarrow> admitted_reply (put_session t k s store) r adm (H_realtime k))"

section \<open>The startup exchange\<close>

text \<open>The cell of an upload: what was read, and the decoded cell or Go's zero values.\<close>

definition sync_body :: "packet_request \<Rightarrow> bytes" where
  "sync_body r = take 4097 (body_stream r)"

definition sync_cell :: "packet_request \<Rightarrow> u32 \<times> frame list \<times> int \<times> bool" where
  "sync_cell r =
     (case Decode (sync_body r) of
        Ok (sequence, frames, filler) \<Rightarrow> (sequence, frames, int filler, True)
      | _ \<Rightarrow> (0, [], 0, False))"

definition sync_valid :: "packet_request \<Rightarrow> bool" where
  "sync_valid r \<longleftrightarrow> \<not> read_fails r \<and> snd (snd (snd (sync_cell r))) \<and> length (sync_body r) = 4096 \<and> \<not> over (base r)"

text \<open>The first cell of a session that is not authenticated: one AUTH frame with a configured credential.\<close>

definition presents_credential :: "(bytes \<Rightarrow> bytes) \<Rightarrow> bytes list \<Rightarrow> packet_request \<Rightarrow> bool" where
  "presents_credential sha hashes r \<longleftrightarrow> sync_valid r
     \<and> (case sync_cell r of
          (sequence, [f], _) \<Rightarrow> sequence = 0 \<and> Kind f = AuthK \<and> Stream f = 0 \<and> Sequence f = 0 \<and> authenticate sha hashes (Body f)
        | _ \<Rightarrow> False)"

definition is_sync :: "request \<Rightarrow> bool" where
  "is_sync r \<longleftrightarrow> Path r = ''/api/sync'' \<and> Method r = ''POST''"

definition run_startup ::
  "world \<Rightarrow> transport \<Rightarrow> string \<Rightarrow> session \<Rightarrow> packet_request \<Rightarrow> bytes \<Rightarrow> u32 \<times> frame list \<times> int \<Rightarrow> transport \<times> http_reply" where
  "run_startup w t k s r body cell =
     (case cell of (sequence, frames, filler) \<Rightarrow>
      case startup (w_sha w) (authHashes t) (w_rand w) (app_identity (application t)) (w_now w) (w_later w) (t_stats t)
          (s, t_store t) (base r) body sequence frames filler of
        (st, (s, store), reply) \<Rightarrow> ((put_session t k s store)\<lparr>t_stats := st\<rparr>, H_startup k reply))"

text \<open>
  A cell that does not authenticate is handed on with the body put together again, so that the next handler reads
  all of it.
\<close>

definition serve_startup :: "world \<Rightarrow> transport \<Rightarrow> packet_request \<Rightarrow> transport \<times> http_reply" where
  "serve_startup w t r = on_session w t r (\<lambda>t k s.
     if \<not> authed s \<and> \<not> is_sync (base r) then decline t r
     else if is_sync (base r) then
       (case sync_cell r of (sequence, frames, filler, _) \<Rightarrow>
        if \<not> authed s then
          (if presents_credential (w_sha w) (authHashes t) r then run_startup w t k s r (sync_body r) (sequence, frames, filler)
           else (t\<lparr>t_stats := reject_count (t_stats t)\<rparr>, H_next (sync_body r @ drop 4097 (body_stream r))))
        else if \<not> sync_valid r then reject t
        else run_startup w t k s r (sync_body r) (sequence, frames, filler))
     else run_startup w t k s r [] (0, [], 0))"

section \<open>The public site\<close>

definition serve_asset :: "world \<Rightarrow> transport \<Rightarrow> packet_request \<Rightarrow> applicationAsset \<Rightarrow> transport \<times> http_reply" where
  "serve_asset w t r found =
     (let req = base r; path = Path req in
      if Method req \<noteq> ''GET'' \<and> Method req \<noteq> ''HEAD'' then decline t r
      else
        case (if path = ''/'' \<and> Method req = ''GET''
              then (case getSession (w_parse_addr w) (w_token w) (w_now w) t req of (t, Ok _) \<Rightarrow> (t, True) | (t, _) \<Rightarrow> (t, False))
              else (t, True)) of
          (t, False) \<Rightarrow> reject t
        | (t, True) \<Rightarrow>
            (t, H_asset (responseCacheControl req (path \<noteq> ''/'')) (mime found) (length (asset_body found))
                  (if Method req = ''HEAD'' then None else Some (asset_body found))))"

text \<open>The labels a request is counted under.\<close>

definition method_label :: "request \<Rightarrow> string" where
  "method_label r = (if Method r \<noteq> ''GET'' \<and> Method r \<noteq> ''POST'' then ''OTHER'' else Method r)"

definition path_label :: "request \<Rightarrow> string" where
  "path_label r = (if has_prefix (Path r) ''/media/chunk/'' then ''/media/chunk/*'' else Path r)"

definition protocol_label :: "request \<Rightarrow> string" where
  "protocol_label r = (if Proto r \<in> {''HTTP/1.0'', ''HTTP/1.1'', ''HTTP/2.0'', ''HTTP/3.0''} then Proto r else ''OTHER'')"

definition count_request :: "transport \<Rightarrow> request \<Rightarrow> transport" where
  "count_request t r =
     (let st = t_stats t in
      t\<lparr>t_stats := st\<lparr>Requests := bump (method_label r @ '' '' @ path_label r) (Requests st),
          Protocols := bump (protocol_label r) (Protocols st)\<rparr>\<rparr>)"

section \<open>The handler\<close>

definition ServeHTTP :: "world \<Rightarrow> transport \<Rightarrow> packet_request \<Rightarrow> transport \<times> http_reply" where
  "ServeHTTP w t r =
     (let req = base r; path = Path req in
      if path = ''/api/packet'' \<or> has_prefix path ''/api/packet/'' then serve_packet w t r
      else if path = ''/api/stream'' then serve_stream w t r
      else if path = ''/api/upload'' then serve_upload w t r
      else if path = ''/api/realtime'' then serve_realtime w t r
      else if has_prefix path ''/__lab/'' then
        (if \<not> Diagnostics t \<or> path \<noteq> ''/__lab/stats'' \<or> Method req \<noteq> ''GET''
            \<or> \<not> authenticate (w_sha w) (authHashes t) (to_bytes (Authorization req))
         then (t, H_status 404)
         else (t, H_stats (responseCacheControl req False)))
      else case asset (application t) path of
        Some found \<Rightarrow> serve_asset w (count_request t req) r found
      | None \<Rightarrow>
          if isCarrierPath path then serve_startup w (count_request t req) r
          else (case serveStatic (w_stat w) (w_open w) (application t) req of
              F_pass \<Rightarrow> (t, H_next (body_stream r))
            | reply \<Rightarrow> (t, H_static reply)))"

end
