(* ===== verification/Router_Properties.thy ===== *)
theory Router_Properties
  imports Router Packet_Requests
begin

text \<open>
  Properties of the entry point: sessions are authenticated only by a credential and carriers are invisible
  without one; files of the site are served under their canonical name only, and redirects end.
\<close>

section \<open>Who is authenticated\<close>

definition authed_in :: "transport \<Rightarrow> string \<Rightarrow> bool" where
  "authed_in t k \<longleftrightarrow> (\<exists>s. map_of (sessions t) k = Some s \<and> authed s)"

text \<open>A change of the sessions that authenticates nobody.\<close>

definition no_new_auth :: "transport \<Rightarrow> transport \<Rightarrow> bool" where
  "no_new_auth t t' \<longleftrightarrow> (\<forall>k. authed_in t' k \<longrightarrow> authed_in t k) \<and> authHashes t' = authHashes t
     \<and> application t' = application t"

lemma no_new_auth_refl: "no_new_auth t t"
  by (simp add: no_new_auth_def)

lemma no_new_auth_trans: "no_new_auth t u \<Longrightarrow> no_new_auth u v \<Longrightarrow> no_new_auth t v"
  by (auto simp: no_new_auth_def)

lemma no_new_auth_same:
  "sessions t' = sessions t \<Longrightarrow> authHashes t' = authHashes t \<Longrightarrow> application t' = application t \<Longrightarrow> no_new_auth t t'"
  by (simp add: no_new_auth_def authed_in_def)

lemma evict_no_new: "no_new_auth t (fst (evict close_it t))"
proof (induction close_it t rule: evict.induct)
  case (1 close_it t)
  have "no_new_auth t (t\<lparr>sessions := AList.delete k (sessions t), t_store := st\<rparr>)" for k st
    by (auto simp: no_new_auth_def authed_in_def split: if_splits)
  then have step: "no_new_auth t u" if "no_new_auth (t\<lparr>sessions := AList.delete k (sessions t), t_store := st\<rparr>) u" for u k st
    using that no_new_auth_trans by blast
  show ?case
    by (subst evict.simps) (auto simp: Let_def no_new_auth_refl split: option.split intro!: step 1)
qed

lemma drop_visitor_no_new: "no_new_auth t (drop_visitor t r)"
  by (auto simp: drop_visitor_def no_new_auth_def authed_in_def split: option.splits if_splits)

lemma reserve_no_new: "reservePacketSession t r = (t', ok) \<Longrightarrow> no_new_auth t t'"
  using evict_no_new [of "drop_visitor t r" close_store] drop_visitor_no_new [of t r]
  by (auto simp: reservePacketSession_def no_new_auth_def authed_in_def split: prod.splits bool.splits)

lemma put_session_no_new:
  assumes "map_of (sessions t) k = Some s" and "authed s' \<Longrightarrow> authed s"
  shows "no_new_auth t ((put_session t k s' store)\<lparr>t_stats := st\<rparr>)" "no_new_auth t (put_session t k s' store)"
  using assms by (auto simp: put_session_def no_new_auth_def authed_in_def split: if_splits)

lemma getSession_no_new:
  assumes "getSession parse_addr token now t r = (t', res)"
  shows "no_new_auth t t'"
proof -
  have create: "no_new_auth t u" if c: "create_session token now t addr http3 = (u, x)" for addr http3 u x
  proof -
    obtain v ok where e: "evict (\<lambda>s st. st) t = (v, ok)" by force
    have v: "no_new_auth t v" using evict_no_new [of t "\<lambda>s st. st"] e by simp
    have "no_new_auth v (v\<lparr>sessions := AList.update k (new_session addr now http3) (sessions v)\<rparr>)" for k
      by (auto simp: no_new_auth_def authed_in_def new_session_def split: if_splits)
    then show ?thesis using c e v no_new_auth_trans
      by (auto simp: create_session_def Let_def split: bool.splits option.splits)
  qed
  have used: "no_new_auth t (t\<lparr>sessions := AList.update c (s\<lparr>last_used := now\<rparr>) (sessions t)\<rparr>)"
    if "map_of (sessions t) c = Some s" for c s
    using that by (auto simp: no_new_auth_def authed_in_def split: if_splits)
  show ?thesis using assms create used no_new_auth_refl
    by (auto simp: getSession_def known_session_def split: outcome.splits if_splits option.splits)
qed

lemma clear_authed: "authed (fst (clearStartupLocked x)) = authed (fst x)"
  by (cases x) (simp add: clearStartupLocked_def)

lemma admit_authed:
  "h3_admit st (s, store) r now = (st', (s', store'), adm) \<Longrightarrow> authed s' = authed s"
  "realtime_admit (s, store) r offered now = ((s', store'), adm) \<Longrightarrow> authed s' = authed s"
  "h3Upload_enter s r = (s', ready, adm) \<Longrightarrow> authed s' = authed s"
  using clear_authed [of "(s\<lparr>realtime := True, h3 := True\<rparr>, store)"] clear_authed [of "(s\<lparr>realtime := True\<rparr>, store)"]
  by (auto simp: h3_admit_def realtime_admit_def h3Upload_enter_def Let_def split: if_splits prod.splits)

section \<open>The handlers\<close>

lemma drop_packets_no_new: "no_new_auth t (foldl drop_packet t ps)"
proof (induction ps arbitrary: t)
  case (Cons kp ps)
  have "no_new_auth t (drop_packet t kp)" by (rule no_new_auth_same) (auto simp: drop_packet_def split: prod.split)
  then show ?case using Cons no_new_auth_trans by fastforce
qed (simp add: no_new_auth_refl)

lemma beginPacket_no_new: "no_new_auth t (fst (beginPacket sha token now t r))"
proof -
  let ?t = "expirePackets now t"
  have e: "no_new_auth t ?t" by (simp add: expirePackets_def drop_packets_no_new)
  have "no_new_auth ?t (fst (begin_new sha token now ?t r nonce body))" for nonce body
  proof (cases "reservePacketSession ?t (base r)")
    case (Pair u ok)
    have "no_new_auth u (u\<lparr>packets := ps, packetNonces := ns\<rparr>)" for ps ns by (rule no_new_auth_same) auto
    then show ?thesis using reserve_no_new [OF Pair] Pair no_new_auth_refl no_new_auth_trans
      by (auto simp: begin_new_def Let_def split: option.split bool.split prod.split outcome.split)
  qed
  then have "no_new_auth ?t (fst (beginPacket sha token now t r))"
    using no_new_auth_refl by (auto simp: beginPacket_def Let_def split: outcome.split option.split)
  with e show ?thesis by (rule no_new_auth_trans)
qed

lemma on_packet_same:
  assumes "on_packet t k f = (t', x)"
  shows "sessions t' = sessions t" "authHashes t' = authHashes t" "application t' = application t"
  using assms by (auto simp: on_packet_def split: option.splits prod.splits)

lemma on_packet_no_new: "on_packet t k f = (t', x) \<Longrightarrow> no_new_auth t t'"
  using no_new_auth_same [OF on_packet_same] .

lemma leave_same:
  "sessions (servePacket_leave t a p) = sessions t" "authHashes (servePacket_leave t a p) = authHashes t"
  "application (servePacket_leave t a p) = application t"
  by (simp_all add: servePacket_leave_def Let_def split: option.split)

lemma servePacket_same:
  assumes "servePacket t r = (t', a, p, route)"
  shows "sessions t' = sessions t" "authHashes t' = authHashes t" "application t' = application t"
  using assms by (auto simp: servePacket_def Let_def split: if_splits option.splits)

lemma serve_packet_no_new: "no_new_auth t (fst (serve_packet w t r))"
proof -
  obtain u a p route where s: "servePacket t (base r) = (u, a, p, route)" by (metis prod_cases4)
  have t: "no_new_auth t u" using no_new_auth_same [OF servePacket_same [OF s]] .
  have lv: "no_new_auth u (servePacket_leave v a p)" if "no_new_auth u v" for v
    using that no_new_auth_trans no_new_auth_same [OF leave_same] by blast
  have ans: "no_new_auth u (fst (packet_answer v a p reply))" if "no_new_auth u v" for v reply
    using lv [OF that] that by (cases reply) (auto simp: packet_answer_def)
  have bg: "no_new_auth u v" if "beginPacket (w_sha w) (w_token w) (w_now w) u r = (v, x)" for v x
    using beginPacket_no_new [of u "w_sha w" "w_token w" "w_now w" r] that by simp
  have "no_new_auth u (fst (serve_packet w t r))"
    by (auto simp: serve_packet_def s no_new_auth_refl intro: lv ans bg on_packet_no_new
        split: packet_route.split option.split prod.split outcome.split)
  with t show ?thesis by (rule no_new_auth_trans)
qed

text \<open>A request of a session: what holds for every session it may get holds for the reply.\<close>

lemma on_session_cases:
  assumes "on_session w t r f = (t', reply)"
  obtains u where "no_new_auth t u" and "(t', reply) = decline u r"
  | u where "no_new_auth t u" and "t' = u" and "reply = H_panic"
  | u k s where "no_new_auth t u" and "map_of (sessions u) k = Some s" and "f u k s = (t', reply)"
proof -
  obtain u res where g: "getSession (w_parse_addr w) (w_token w) (w_now w) t (base r) = (u, res)" by force
  have "no_new_auth t u" using getSession_no_new [OF g] .
  then show ?thesis using assms g that by (auto simp: on_session_def split: outcome.splits option.splits)
qed

lemma decline_no_new: "no_new_auth t (fst (decline t r))"
  by (rule no_new_auth_same) (simp_all add: decline_def)

lemma reject_no_new: "no_new_auth t (fst (reject t))"
  by (rule no_new_auth_same) (simp_all add: reject_def)

lemma admitted_no_new: "no_new_auth t u \<Longrightarrow> no_new_auth t (fst (admitted_reply u r adm ok))"
  using decline_no_new [of u r] reject_no_new [of u] no_new_auth_trans by (cases adm) auto

lemma on_session_no_new:
  assumes "\<And>u k s. map_of (sessions u) k = Some s \<Longrightarrow> no_new_auth u (fst (f u k s))"
  shows "no_new_auth t (fst (on_session w t r f))"
proof -
  obtain t' reply where run: "on_session w t r f = (t', reply)" by force
  from run have "no_new_auth t t'"
  proof (cases rule: on_session_cases)
    case (1 u)
    then show ?thesis using decline_no_new [of u r] no_new_auth_trans by (metis fst_conv)
  next
    case (3 u k s)
    then show ?thesis using assms [of u k s] no_new_auth_trans by (metis fst_conv)
  qed simp
  then show ?thesis by (simp add: run)
qed

lemma serve_carrier_no_new:
  "no_new_auth t (fst (serve_stream w t r))" "no_new_auth t (fst (serve_upload w t r))"
  "no_new_auth t (fst (serve_realtime w t r))"
  unfolding serve_stream_def serve_upload_def serve_realtime_def
  by (rule on_session_no_new,
      auto split: prod.split simp: Let_def h3Upload_leave_def
        intro!: admitted_no_new put_session_no_new dest: admit_authed)+

text \<open>The startup exchange can authenticate a session, but only with a credential.\<close>

lemma run_startup_auth:
  assumes "map_of (sessions t) k = Some s" and "authed s \<or> ok"
  shows "authed_in (fst (run_startup w t k s r body cell)) j \<Longrightarrow> authed_in t j \<or> ok"
  using assms by (auto simp: run_startup_def put_session_def authed_in_def split: prod.splits if_splits)

lemma serve_startup_auth:
  assumes "authed_in (fst (serve_startup w t r)) j"
  shows "authed_in t j \<or> (is_sync (base r) \<and> presents_credential (w_sha w) (authHashes t) r)"
proof -
  obtain t' reply where run: "serve_startup w t r = (t', reply)" by force
  from run [unfolded serve_startup_def] show ?thesis
  proof (cases rule: on_session_cases)
    case (1 u)
    then show ?thesis using assms run decline_no_new [of u r] by (auto simp: no_new_auth_def)
  next
    case (2 u)
    then show ?thesis using assms run by (auto simp: no_new_auth_def)
  next
    case (3 u k s)
    let ?ok = "is_sync (base r) \<and> presents_credential (w_sha w) (authHashes u) r"
    have hash: "authHashes u = authHashes t" and prev: "authed_in u j \<Longrightarrow> authed_in t j"
      using 3(1) by (auto simp: no_new_auth_def)
    have "authed_in t' j" using assms run by simp
    have run: "authed_in u j \<or> ?ok" if "run_startup w u k s r b c = (t', reply)" "authed s \<or> ?ok" for b c
      using run_startup_auth [OF 3(2) that(2), of w r b c j] that(1) \<open>authed_in t' j\<close> by simp
    have same: "authed_in u j" if "(t', reply) = decline u r \<or> (t', reply) = reject u \<or> t' = u\<lparr>t_stats := st\<rparr>" for st
      using that \<open>authed_in t' j\<close> by (auto simp: decline_def reject_def authed_in_def)
    have "authed_in u j \<or> ?ok"
    proof (cases "is_sync (base r)")
      case True
      then show ?thesis using 3(3) same run by (auto split: if_splits prod.splits)
    next
      case False
      then show ?thesis using 3(3) same run [of "[]" "(0, [], 0)"] by (auto split: if_splits)
    qed
    then show ?thesis using hash prev by auto
  qed
qed

lemma serve_asset_no_new: "no_new_auth t (fst (serve_asset w t r found))"
proof -
  obtain u res where g: "getSession (w_parse_addr w) (w_token w) (w_now w) t (base r) = (u, res)" by force
  note u = getSession_no_new [OF g]
  have "no_new_auth t (fst (reject u))" using u reject_no_new no_new_auth_trans by blast
  then show ?thesis using u g decline_no_new no_new_auth_refl
    by (auto simp: serve_asset_def Let_def split: outcome.split bool.split)
qed

lemma count_request_same:
  "sessions (count_request t r) = sessions t" "authHashes (count_request t r) = authHashes t"
  "application (count_request t r) = application t"
  by (simp_all add: count_request_def Let_def)

lemma ServeHTTP_auth:
  assumes "authed_in (fst (ServeHTTP w t r)) k"
  shows "authed_in t k \<or> (is_sync (base r) \<and> presents_credential (w_sha w) (authHashes t) r)"
proof -
  let ?t = "count_request t (base r)"
  have "authed_in ?t k = authed_in t k" by (simp add: authed_in_def count_request_same)
  moreover have "authed_in ?t k" if "authed_in (fst (serve_asset w ?t r found)) k" for found
    using serve_asset_no_new [of ?t w r found] that by (simp add: no_new_auth_def)
  moreover have "authed_in ?t k \<or> (is_sync (base r) \<and> presents_credential (w_sha w) (authHashes t) r)"
    if "authed_in (fst (serve_startup w ?t r)) k"
    using serve_startup_auth [OF that] by (simp add: count_request_same)
  ultimately show ?thesis
    using assms serve_packet_no_new [of t w r] serve_carrier_no_new [of t w r]
    by (auto simp: ServeHTTP_def Let_def no_new_auth_def split: if_splits option.splits static_reply.splits)
qed

section \<open>Packet sessions\<close>

definition packet_authed_in :: "transport \<Rightarrow> string \<Rightarrow> bool" where
  "packet_authed_in t k \<longleftrightarrow> (\<exists>p. map_of (packets t) k = Some p \<and> pk_authed p)"

definition no_new_packet :: "transport \<Rightarrow> transport \<Rightarrow> bool" where
  "no_new_packet t t' \<longleftrightarrow> (\<forall>k. packet_authed_in t' k \<longrightarrow> packet_authed_in t k)"

lemma no_new_packet_same: "packets t' = packets t \<Longrightarrow> no_new_packet t t'"
  by (simp add: no_new_packet_def packet_authed_in_def)

lemma no_new_packet_trans: "no_new_packet t u \<Longrightarrow> no_new_packet u v \<Longrightarrow> no_new_packet t v"
  by (auto simp: no_new_packet_def)

lemma no_new_packet_update:
  "(pk_authed p \<Longrightarrow> packet_authed_in t k) \<Longrightarrow> packets t' = AList.update k p (packets t) \<Longrightarrow> no_new_packet t t'"
  by (auto simp: no_new_packet_def packet_authed_in_def split: if_splits)

lemma evict_packets: "packets (fst (evict close_it t)) = packets t"
proof (induction close_it t rule: evict.induct)
  case (1 close_it t)
  show ?case using 1 by (subst evict.simps) (auto simp: Let_def split: option.split)
qed

lemma getSession_keeps_packets: "packets (fst (getSession parse_addr token now t r)) = packets t"
  using evict_packets [of "\<lambda>s st. st" t]
  by (auto simp: getSession_def create_session_def Let_def split: outcome.split option.split bool.split prod.split)

lemma on_session_packets:
  assumes "\<And>u k s. packets (fst (f u k s)) = packets u"
  shows "packets (fst (on_session w t r f)) = packets t"
  using assms getSession_keeps_packets [of "w_parse_addr w" "w_token w" "w_now w" t "base r"]
  by (auto simp: on_session_def decline_def split: outcome.split option.split prod.split)

lemma admitted_packets: "packets (fst (admitted_reply u r adm ok)) = packets u"
  by (cases adm) (simp_all add: decline_def reject_def)

lemma serve_sessions_packets:
  "packets (fst (serve_stream w t r)) = packets t" "packets (fst (serve_upload w t r)) = packets t"
  "packets (fst (serve_realtime w t r)) = packets t" "packets (fst (serve_startup w t r)) = packets t"
  unfolding serve_stream_def serve_upload_def serve_realtime_def serve_startup_def
  by (rule on_session_packets; auto simp: admitted_packets put_session_def run_startup_def decline_def reject_def Let_def split: prod.split)+

lemma serve_asset_packets: "packets (fst (serve_asset w t r found)) = packets t"
  using getSession_keeps_packets [of "w_parse_addr w" "w_token w" "w_now w" t "base r"]
  by (auto simp: serve_asset_def decline_def reject_def Let_def split: outcome.split bool.split prod.split)

lemma drop_packets_no_new_packet: "no_new_packet t (foldl drop_packet t ps)"
proof (induction ps arbitrary: t)
  case (Cons kp ps)
  have "no_new_packet t (drop_packet t kp)"
    by (auto simp: drop_packet_def no_new_packet_def packet_authed_in_def split: prod.splits if_splits)
  then show ?case using Cons no_new_packet_trans by fastforce
qed (simp add: no_new_packet_same)

lemma reserve_packets: "packets (fst (reservePacketSession t r)) = packets t"
  using evict_packets [of close_store "drop_visitor t r"]
  by (auto simp: reservePacketSession_def drop_visitor_def split: prod.split bool.split option.splits if_splits)

lemma beginPacket_no_new_packet: "no_new_packet t (fst (beginPacket sha token now t r))"
proof -
  let ?t = "expirePackets now t"
  have e: "no_new_packet t ?t" by (simp add: expirePackets_def drop_packets_no_new_packet)
  have "no_new_packet ?t (fst (begin_new sha token now ?t r nonce body))" for nonce body
  proof (cases "reservePacketSession ?t (base r)")
    case (Pair u ok)
    have u: "packets u = packets ?t" using reserve_packets [of ?t "base r"] Pair by simp
    have anon: "\<not> pk_authed (snd (packet_close st ((new_packet k nonce h now)\<lparr>raw := c\<rparr>)))" for st k h c
      by (auto simp: packet_close_def new_packet_def Let_def)
    have "no_new_packet ?t (u\<lparr>packets := AList.update k ((new_packet k nonce h now)\<lparr>raw := c\<rparr>) (packets u), packetNonces := ns\<rparr>)"
      "no_new_packet ?t (u\<lparr>packets := AList.update k (snd (packet_close st ((new_packet k nonce h now)\<lparr>raw := c\<rparr>))) (packets u), packetNonces := ns\<rparr>)"
      for k h c ns st
      using anon by (auto simp: no_new_packet_def packet_authed_in_def new_packet_def u split: if_splits)
    then show ?thesis using Pair no_new_packet_same [OF u] no_new_packet_same [of ?t ?t]
      by (auto simp: begin_new_def Let_def split: option.split bool.split prod.split outcome.split)
  qed
  then have "no_new_packet ?t (fst (beginPacket sha token now t r))"
    using no_new_packet_same [of ?t ?t] by (auto simp: beginPacket_def Let_def split: outcome.split option.split)
  with e show ?thesis by (rule no_new_packet_trans)
qed

lemma on_packet_no_new_packet:
  assumes "on_packet t k f = (t', x)" and "\<And>st p. pk_authed (snd (fst (f st p))) = pk_authed p"
  shows "no_new_packet t t'"
proof (cases "map_of (packets t) k")
  case None
  then show ?thesis using assms(1) by (auto simp: on_packet_def no_new_packet_same)
next
  case (Some p)
  obtain st q y where f: "f (t_stats t) p = ((st, q), y)" by (metis surj_pair)
  have "pk_authed q = pk_authed p" using assms(2) [of "t_stats t" p] f by simp
  then show ?thesis using assms(1) Some f no_new_packet_update [of q t k t'] by (auto simp: on_packet_def packet_authed_in_def)
qed

lemma packet_ops_keep:
  "pk_authed (snd (fst (uploadPacket hmac sha now st p r key n))) = pk_authed p"
  "pk_authed (snd (fst (downloadPacket hmac sha now st p r key))) = pk_authed p"
  "pk_authed (snd (fst (authenticatePacket sha st p r))) = pk_authed p"
proof -
  have c: "pk_authed (snd (packet_close st q)) = pk_authed q" for st q using packet_close_authed by (metis surjective_pairing)
  show "pk_authed (snd (fst (uploadPacket hmac sha now st p r key n))) = pk_authed p"
    by (auto simp: uploadPacket_def c Let_def split: outcome.split option.split prod.split)
  show "pk_authed (snd (fst (downloadPacket hmac sha now st p r key))) = pk_authed p"
    by (auto simp: downloadPacket_def c Let_def split: outcome.split option.split prod.split)
  show "pk_authed (snd (fst (authenticatePacket sha st p r))) = pk_authed p"
    using auth_keeps by (metis surjective_pairing)
qed

lemma servePacket_no_new_packet: "servePacket t r = (t', a, p, route) \<Longrightarrow> no_new_packet t t'"
  by (auto simp: servePacket_def no_new_packet_def packet_authed_in_def Let_def split: if_splits option.splits)

lemma leave_no_new_packet: "no_new_packet t (servePacket_leave t a p)"
  by (auto simp: servePacket_leave_def no_new_packet_def packet_authed_in_def Let_def split: if_splits option.splits)

lemma serve_packet_no_new_packet: "no_new_packet t (fst (serve_packet w t r))"
proof -
  obtain u a p route where s: "servePacket t (base r) = (u, a, p, route)" by (metis prod_cases4)
  have lv: "no_new_packet u (servePacket_leave v a p)" if "no_new_packet u v" for v
    using that no_new_packet_trans leave_no_new_packet by blast
  have ans: "no_new_packet u (fst (packet_answer v a p reply))" if "no_new_packet u v" for v reply
    using lv [OF that] that by (cases reply) (auto simp: packet_answer_def)
  have bg: "no_new_packet u v" if "beginPacket (w_sha w) (w_token w) (w_now w) u r = (v, x)" for v x
    using beginPacket_no_new_packet [of u "w_sha w" "w_token w" "w_now w" r] that by simp
  have ops: "on_packet u k (\<lambda>st p. authenticatePacket (w_sha w) st p r) = (v, x) \<Longrightarrow> no_new_packet u v"
    "on_packet u k (\<lambda>st p. uploadPacket (w_hmac w) (w_sha w) (w_now w) st p r (secret p) n) = (v, y) \<Longrightarrow> no_new_packet u v"
    "on_packet u k (\<lambda>st p. downloadPacket (w_hmac w) (w_sha w) (w_now w) st p r (secret p)) = (v, z) \<Longrightarrow> no_new_packet u v"
    for k n v x y z
    by (erule on_packet_no_new_packet, simp add: packet_ops_keep)+
  have "no_new_packet u (fst (serve_packet w t r))"
    by (auto simp: serve_packet_def s no_new_packet_same intro: lv ans bg ops
        split: packet_route.split option.split prod.split outcome.split)
  then show ?thesis using servePacket_no_new_packet [OF s] no_new_packet_trans by blast
qed

lemma ServeHTTP_no_new_packet: "no_new_packet t (fst (ServeHTTP w t r))"
proof -
  have c: "packets (count_request t q) = packets t" for q by (simp add: count_request_def Let_def)
  have "no_new_packet t (fst (ServeHTTP w t r)) \<or> packets (fst (ServeHTTP w t r)) = packets t"
    using serve_packet_no_new_packet [of t w r]
    by (auto simp: ServeHTTP_def Let_def serve_sessions_packets serve_asset_packets c split: option.split static_reply.split)
  then show ?thesis using no_new_packet_same by blast
qed

text \<open>
  A request to the packet carrier that neither begins nor authenticates a session. The carrier is there when its certificate is
  loaded and the request came over TLS with HTTP/1 or HTTP/2.
\<close>

definition packet_path :: "string \<Rightarrow> bool" where
  "packet_path path \<longleftrightarrow> path = ''/api/packet'' \<or> has_prefix path ''/api/packet/''"

definition packet_present :: "transport \<Rightarrow> request \<Rightarrow> bool" where
  "packet_present t r \<longleftrightarrow> packetTLS t \<and> TLS r \<and> (ProtoMajor r = 1 \<or> ProtoMajor r = 2)"

definition packet_parts :: "request \<Rightarrow> string list" where
  "packet_parts r = split_on CHR ''/'' (trim_prefix (Path r) ''/api/packet/'')"

definition packet_setup :: "request \<Rightarrow> bool" where
  "packet_setup r \<longleftrightarrow> Method r = ''POST'' \<and> RawQuery r = []
     \<and> (Path r = ''/api/packet'' \<or> (length (packet_parts r) = 2 \<and> packet_parts r ! 1 = ''auth''))"

text \<open>The status such a request is refused with when the session it names is not authenticated.\<close>

definition packet_refusal :: "transport \<Rightarrow> request \<Rightarrow> nat" where
  "packet_refusal t r =
     (if packetAdmission t \<ge> 128 then 503
      else if length (packet_parts r) < 2 \<or> \<not> (length (packet_parts r ! 0) = 64 \<and> packet_id_ok (packet_parts r ! 0)) then 404
      else case map_of (packets t) (packet_parts r ! 0) of
        None \<Rightarrow> 410
      | Some p \<Rightarrow> if pk_closed p \<or> active p \<ge> 20 then 503 else 403)"

lemma ServeHTTP_packet: "packet_path (Path (base r)) \<Longrightarrow> ServeHTTP w t r = serve_packet w t r"
  by (simp add: ServeHTTP_def packet_path_def Let_def)

lemma packet_absent:
  assumes "packet_path (Path (base r))" and "\<not> packet_present t (base r)"
  shows "snd (ServeHTTP w t r) = H_next (body_stream r)"
  using assms by (auto simp: ServeHTTP_packet serve_packet_def servePacket_def packet_present_def)

lemma packet_refused:
  assumes path: "packet_path (Path (base r))" and here: "packet_present t (base r)" and op: "\<not> packet_setup (base r)"
    and anon: "\<not> packet_authed_in t (packet_parts (base r) ! 0)"
  shows "snd (ServeHTTP w t r) = H_status (packet_refusal t (base r))
    \<and> map_of (packets (fst (ServeHTTP w t r))) = map_of (packets t) \<and> sessions (fst (ServeHTTP w t r)) = sessions t"
proof (cases "packet_refusal t (base r) = 403")
  case True
  then obtain p where p: "map_of (packets t) (packet_parts (base r) ! 0) = Some p" "\<not> pk_closed p" "active p < 20"
    "packetAdmission t < 128" "2 \<le> length (packet_parts (base r))" "length (packet_parts (base r) ! 0) = 64"
    "packet_id_ok (packet_parts (base r) ! 0)"
    by (auto simp: packet_refusal_def split: if_splits option.splits)
  have "\<not> pk_authed p" using anon p(1) by (simp add: packet_authed_in_def)
  then show ?thesis
    using p op here True unfolding ServeHTTP_packet [OF path]
    by (auto simp: serve_packet_def servePacket_def servePacket_leave_def packet_present_def packet_setup_def packet_parts_def
        route_session_def Let_def)
next
  case False
  then show ?thesis
    using here op unfolding ServeHTTP_packet [OF path]
    by (auto simp: serve_packet_def servePacket_def servePacket_leave_def packet_refusal_def packet_present_def packet_setup_def
        packet_parts_def Let_def split: option.splits if_splits)
qed

section \<open>What a visitor sees\<close>

definition visitor_authed :: "transport \<Rightarrow> request \<Rightarrow> bool" where
  "visitor_authed t r \<longleftrightarrow> (case Cookie r of None \<Rightarrow> False | Some c \<Rightarrow> authed_in t c)"

lemma on_session_anonymous:
  assumes "Path (base r) \<noteq> ''/''" and "\<not> visitor_authed t (base r)"
    and "\<And>u k s. \<not> authed s \<Longrightarrow> authHashes u = authHashes t \<Longrightarrow> snd (f u k s) = H_next (body_stream r)"
  shows "snd (on_session w t r f) = H_next (body_stream r)"
proof -
  have "\<not> authed s" if "known_session t (base r) addr = Some (c, s)" for addr c s
    using that assms(2) by (auto simp: known_session_def visitor_authed_def authed_in_def split: option.splits if_splits)
  then show ?thesis using assms(1,3)
    by (auto simp: on_session_def getSession_def decline_def split: outcome.split option.split)
qed

definition carrier_request :: "transport \<Rightarrow> request \<Rightarrow> bool" where
  "carrier_request t r \<longleftrightarrow> Path r = ''/api/stream'' \<or> Path r = ''/api/upload'' \<or> Path r = ''/api/realtime''
     \<or> (isCarrierPath (Path r) \<and> asset (application t) (Path r) = None)"

lemma serve_anonymous:
  assumes "Path (base r) \<noteq> ''/''" and "\<not> visitor_authed t (base r)"
  shows "snd (serve_stream w t r) = H_next (body_stream r)" "snd (serve_upload w t r) = H_next (body_stream r)"
    "snd (serve_realtime w t r) = H_next (body_stream r)"
    "\<not> (is_sync (base r) \<and> presents_credential (w_sha w) (authHashes t) r) \<Longrightarrow> snd (serve_startup w t r) = H_next (body_stream r)"
proof -
  show "snd (serve_stream w t r) = H_next (body_stream r)" "snd (serve_upload w t r) = H_next (body_stream r)"
    "snd (serve_realtime w t r) = H_next (body_stream r)"
    unfolding serve_stream_def serve_upload_def serve_realtime_def
    by (rule on_session_anonymous [OF assms], simp add: h3_admit_def h3Upload_enter_def realtime_admit_def decline_def Let_def)+
  assume c: "\<not> (is_sync (base r) \<and> presents_credential (w_sha w) (authHashes t) r)"
  show "snd (serve_startup w t r) = H_next (body_stream r)"
    unfolding serve_startup_def
    by (rule on_session_anonymous [OF assms])
      (use c in \<open>auto simp: decline_def sync_body_def split: prod.split\<close>)
qed

lemma has_prefix_take: "has_prefix p a \<Longrightarrow> n \<le> length a \<Longrightarrow> take n p = take n a"
  unfolding has_prefix_def by (metis min.absorb1 take_take)

lemma carrier_paths:
  assumes "isCarrierPath path"
  shows "path \<noteq> ''/'' \<and> path \<noteq> ''/api/packet'' \<and> \<not> has_prefix path ''/api/packet/'' \<and> \<not> has_prefix path ''/__lab/''"
proof (cases "has_prefix path ''/media/chunk/''")
  case True
  from has_prefix_take [OF True, of 2] show ?thesis
    using has_prefix_take [of path "''/api/packet/''" 2] has_prefix_take [of path "''/__lab/''" 2] by auto
next
  case False
  then show ?thesis using assms by (auto simp: isCarrierPath_def has_prefix_def)
qed

lemma ServeHTTP_anonymous:
  assumes "carrier_request t (base r)" and "\<not> visitor_authed t (base r)"
    and "\<not> (is_sync (base r) \<and> presents_credential (w_sha w) (authHashes t) r)"
  shows "snd (ServeHTTP w t r) = H_next (body_stream r)"
proof -
  let ?t = "count_request t (base r)"
  have v: "\<not> visitor_authed ?t (base r)" using assms(2)
    by (auto simp: visitor_authed_def authed_in_def count_request_same split: option.splits)
  note an = serve_anonymous [OF _ assms(2)] and sn = serve_anonymous(4) [OF _ v]
  show ?thesis
    using assms(1,3) an(1-3) [of w] sn [of w] carrier_paths [of "Path (base r)"]
    by (auto simp: carrier_request_def ServeHTTP_def Let_def has_prefix_def count_request_same split: if_splits option.split)
qed

text \<open>
  C39. The authentication gate of the entry point. Whatever a request is, afterwards a session of the startup, WebSocket and HTTP/3
  carriers is authenticated only if it was before, or if this request is a POST to \<^verbatim>\<open>/api/sync\<close> whose body is one valid
  cell of 4096 bytes with sequence number 0 and a single AUTH frame that presents a configured credential; and a packet
  session is authenticated only if it was before, since it logs in on its own TLS connection. To a visitor without an
  authenticated session and without a credential these three carriers do not exist: a request to one of their paths goes to the next
  handler, which reads the whole body as the client sent it. The packet carrier is hidden only where it is not
  available, that is without its certificate or over another protocol: elsewhere anybody may begin a packet session and authenticate it, and
  every other request that does not name an authenticated packet session is answered with status 403, 404, 410 or
  503 and changes no session.
\<close>

theorem auth_gate:
  "(authed_in (fst (ServeHTTP w t r)) k \<longrightarrow> authed_in t k \<or> (is_sync (base r) \<and> presents_credential (w_sha w) (authHashes t) r))
   \<and> (packet_authed_in (fst (ServeHTTP w t r)) k \<longrightarrow> packet_authed_in t k)
   \<and> (carrier_request t (base r) \<and> \<not> visitor_authed t (base r)
        \<and> \<not> (is_sync (base r) \<and> presents_credential (w_sha w) (authHashes t) r)
      \<longrightarrow> snd (ServeHTTP w t r) = H_next (body_stream r))
   \<and> (packet_path (Path (base r)) \<and> \<not> packet_present t (base r) \<longrightarrow> snd (ServeHTTP w t r) = H_next (body_stream r))
   \<and> (packet_path (Path (base r)) \<and> packet_present t (base r) \<and> \<not> packet_setup (base r)
        \<and> \<not> packet_authed_in t (packet_parts (base r) ! 0)
      \<longrightarrow> snd (ServeHTTP w t r) = H_status (packet_refusal t (base r)) \<and> packet_refusal t (base r) \<in> {403, 404, 410, 503}
        \<and> map_of (packets (fst (ServeHTTP w t r))) = map_of (packets t) \<and> sessions (fst (ServeHTTP w t r)) = sessions t)"
proof -
  have "packet_authed_in (fst (ServeHTTP w t r)) k \<Longrightarrow> packet_authed_in t k"
    using ServeHTTP_no_new_packet [of t w r] by (simp add: no_new_packet_def)
  moreover have "packet_refusal t (base r) \<in> {403, 404, 410, 503}" by (auto simp: packet_refusal_def split: option.split)
  ultimately show ?thesis
    using ServeHTTP_auth [of w t r k] ServeHTTP_anonymous [of t r w] packet_absent [of r t w] packet_refused [of r t w] by blast
qed

definition demo_world :: world where
  "demo_world = \<lparr>w_sha = demo_sha, w_hmac = (\<lambda>_ _. []), w_rand = (\<lambda>_. None), w_parse_addr = Some, w_token = None, w_now = 0,
     w_later = 0, w_offered = [], w_stat = (\<lambda>_ _. Inl NotExist), w_open = (\<lambda>_. Inl NotExist)\<rparr>"

definition demo_chunk :: packet_request where
  "demo_chunk = begin_request\<lparr>base := demo_visit\<lparr>Path := ''/media/chunk/1'', Cookie := Some ''a''\<rparr>\<rparr>"

definition demo_guess :: packet_request where
  "demo_guess = begin_request\<lparr>base := demo_visit\<lparr>Path := ''/api/packet/x''\<rparr>\<rparr>"

theorem auth_gate_witness:
  "snd (ServeHTTP demo_world registry_demo demo_chunk) = H_next (replicate 34 7)
   \<and> \<not> authed_in (fst (ServeHTTP demo_world registry_demo demo_chunk)) ''a''
   \<and> snd (ServeHTTP demo_world registry_demo demo_guess) = H_status 404"
proof -
  have "carrier_request registry_demo (base demo_chunk)" "\<not> visitor_authed registry_demo (base demo_chunk)"
    "\<not> authed_in registry_demo ''a''" "\<not> is_sync (base demo_chunk)" "body_stream demo_chunk = replicate 34 7"
    by (simp_all add: carrier_request_def visitor_authed_def authed_in_def is_sync_def demo_chunk_def demo_visit_def
        begin_request_def registry_demo_def no_application_def asset_def isCarrierPath_def has_prefix_def new_session_def)
  then have chunk: "snd (ServeHTTP demo_world registry_demo demo_chunk) = H_next (replicate 34 7)"
    "\<not> authed_in (fst (ServeHTTP demo_world registry_demo demo_chunk)) ''a''"
    using auth_gate [of demo_world registry_demo demo_chunk "''a''"] by simp_all
  have parts: "packet_parts (base demo_guess) = [''x'']"
    by (simp add: packet_parts_def demo_guess_def trim_prefix_def has_prefix_def)
  have "packet_path (Path (base demo_guess))" "packet_present registry_demo (base demo_guess)" "\<not> packet_setup (base demo_guess)"
    "\<not> packet_authed_in registry_demo (packet_parts (base demo_guess) ! 0)"
    by (simp_all add: packet_path_def packet_present_def packet_setup_def packet_authed_in_def parts,
        simp_all add: demo_guess_def demo_visit_def has_prefix_def registry_demo_def)
  then have "snd (ServeHTTP demo_world registry_demo demo_guess) = H_status (packet_refusal registry_demo (base demo_guess))"
    using auth_gate [of demo_world registry_demo demo_guess "''a''"] by blast
  moreover have "packet_refusal registry_demo (base demo_guess) = 404"
    by (simp add: packet_refusal_def parts registry_demo_def)
  ultimately show ?thesis using chunk by simp
qed

section \<open>Files of the site\<close>

lemma F_pass_open: "open_static open_file name \<noteq> F_redirect p q" "open_static open_file name = F_file n \<Longrightarrow> n = name"
  by (auto simp: open_static_def staticLookupError_def split: sum.splits option.splits if_splits)

lemma serve_name_redirect:
  "serve_name stat open_file r name = F_redirect p q \<Longrightarrow> p = Path r @ ''/'' \<and> q = RawQuery r \<and> \<not> has_suffix (Path r) ''/''"
  by (auto simp: serve_name_def redirectApplication_def staticLookupError_def F_pass_open Let_def
      split: sum.splits file_mode.splits if_splits)

lemma serve_name_file:
  "serve_name stat open_file r name = F_file n \<Longrightarrow> n = name \<or> (n = Join name ''index.html'' \<and> has_suffix (Path r) ''/'')"
  by (auto simp: serve_name_def redirectApplication_def staticLookupError_def F_pass_open Let_def
      dest!: F_pass_open(2) split: sum.splits file_mode.splits if_splits)

text \<open>A request that gets as far as the files has a canonical path.\<close>

lemma serveStatic_cases:
  assumes "serveStatic stat open_file app r = reply"
  obtains "reply = F_pass" | s where "reply = F_status s"
  | "has_prefix (Path r) ''/''" "''..'' \<notin> set (split_on CHR ''/'' (Path r))" "canonical_path app (Path r) \<noteq> Path r"
    "reply = F_redirect (canonical_path app (Path r)) (RawQuery r)"
  | "has_prefix (Path r) ''/''" "''..'' \<notin> set (split_on CHR ''/'' (Path r))" "canonical_path app (Path r) = Path r"
    "reply = serve_name stat open_file r (trim_prefix (Path r) ''/'')"
  using assms by (auto simp: serveStatic_def redirectApplication_def Let_def list_ex_iff split: if_splits)

lemma static_reached:
  assumes "snd (ServeHTTP w t r) = H_static reply"
  shows "serveStatic (w_stat w) (w_open w) (application t) (base r) = reply"
    "isReservedApplicationPath (application t) (Path (base r)) \<Longrightarrow> Path (base r) = ''/index.html''"
proof -
  have os: "snd (on_session w t r f) \<noteq> H_static reply"
    if "\<And>u k s. snd (f u k s) \<noteq> H_static reply" for t :: transport and f
    using that by (auto simp: on_session_def decline_def split: prod.split outcome.split option.split)
  have ad: "snd (admitted_reply u r adm ok) \<noteq> H_static reply" if "ok \<noteq> H_static reply" for u adm ok
    using that by (cases adm) (simp_all add: decline_def reject_def)
  have "snd (serve_stream w t r) \<noteq> H_static reply" "snd (serve_upload w t r) \<noteq> H_static reply"
    "snd (serve_realtime w t r) \<noteq> H_static reply"
    unfolding serve_stream_def serve_upload_def serve_realtime_def
    by (rule os; auto simp: Let_def ad split: prod.split)+
  moreover have "snd (serve_startup w u r) \<noteq> H_static reply" for u
    unfolding serve_startup_def
    by (rule os) (auto simp: decline_def reject_def run_startup_def split: prod.split)
  moreover have "snd (serve_packet w t r) \<noteq> H_static reply"
    by (auto simp: serve_packet_def packet_answer_def split: prod.split packet_route.split option.split outcome.split)
  moreover have "snd (serve_asset w u r found) \<noteq> H_static reply" for u found
    by (auto simp: serve_asset_def Let_def decline_def reject_def split: prod.split bool.split)
  ultimately show "serveStatic (w_stat w) (w_open w) (application t) (base r) = reply"
    "isReservedApplicationPath (application t) (Path (base r)) \<Longrightarrow> Path (base r) = ''/index.html''"
    using assms
    by (auto simp: ServeHTTP_def Let_def isReservedApplicationPath_def split: if_splits option.splits static_reply.splits)
qed

lemma Join_proper:
  assumes "list_all proper cs"
  shows "cs = [] \<Longrightarrow> Join (join_slash cs) ''index.html'' = ''index.html''"
    "cs \<noteq> [] \<Longrightarrow> Join (join_slash cs @ ''/'') ''index.html'' = join_slash cs @ ''/index.html''"
proof -
  show "Join (join_slash cs) ''index.html'' = ''index.html''" if "cs = []"
    using that by (simp add: Join_def Clean_def has_prefix_def)
  assume ne: "cs \<noteq> []"
  have "split_on CHR ''/'' (join_slash (cs @ [[]] @ [''index.html''])) = cs @ [[]] @ [''index.html'']"
    using split_join [of "cs @ [[]] @ [''index.html'']"] proper_sep [OF assms] by simp
  moreover have e: "join_slash (cs @ [[]] @ [''index.html'']) = join_slash cs @ ''//index.html''"
    using join_slash_append [of "cs @ [[]]" "''index.html''"] join_slash_append [OF ne, of "[]"] by simp
  moreover have "\<not> has_prefix (join_slash cs @ ''//index.html'') ''/''"
    using ne assms by (cases cs rule: join_slash.cases) (auto simp: proper_def has_prefix_def neq_Nil_conv)
  moreover have "join_slash (cs @ [''index.html'']) = join_slash cs @ ''/index.html''" using join_slash_append [OF ne] by simp
  ultimately show "Join (join_slash cs @ ''/'') ''index.html'' = join_slash cs @ ''/index.html''"
    using assms by (simp add: Join_def Clean_def clean_comps_drop_dots proper_no_dots proper_filter)
qed

definition plain_name :: "string \<Rightarrow> bool" where
  "plain_name n \<longleftrightarrow> ''.'' \<notin> set (split_on CHR ''/'' n) \<and> ''..'' \<notin> set (split_on CHR ''/'' n)"

lemma plain_join:
  assumes "list_all proper cs"
  shows "plain_name (join_slash cs)" "cs \<noteq> [] \<Longrightarrow> plain_name (join_slash cs @ CHR ''/'' # n) \<longleftrightarrow> plain_name n"
proof -
  show "plain_name (join_slash cs)" using assms split_proper [OF assms] by (auto simp: plain_name_def list_all_iff proper_def)
  assume "cs \<noteq> []"
  then show "plain_name (join_slash cs @ CHR ''/'' # n) \<longleftrightarrow> plain_name n"
    using assms
  proof (induction cs rule: join_slash.induct)
    case (2 c)
    then show ?case by (auto simp: plain_name_def split_on_append proper_def)
  next
    case (3 c d cs)
    then show ?case by (auto simp: plain_name_def split_on_append proper_def)
  qed simp
qed

lemma trim_slash: "trim_prefix (CHR ''/'' # s) ''/'' = s"
  by (simp add: trim_prefix_def has_prefix_def)

lemma static_file:
  assumes "snd (ServeHTTP w t r) = H_static (F_file n)"
  shows "plain_name n" "Path (base r) = CHR ''/'' # n \<or> Path (base r) @ ''index.html'' = CHR ''/'' # n"
    "\<not> isReservedApplicationPath (application t) (Path (base r))"
    "has_suffix (Path (base r)) ''/'' \<Longrightarrow> Path (base r) \<noteq> ''/'' \<Longrightarrow> \<not> isReservedApplicationPath (application t) (butlast (Path (base r)))"
proof -
  let ?p = "Path (base r)" and ?app = "application t"
  note sr = static_reached [OF assms]
  from sr(1) have c: "has_prefix ?p ''/''" "''..'' \<notin> set (split_on CHR ''/'' ?p)" "canonical_path ?app ?p = ?p"
    and n: "serve_name (w_stat w) (w_open w) (base r) (trim_prefix ?p ''/'') = F_file n"
    by (cases rule: serveStatic_cases; simp)+
  from c(1,2) show "\<not> isReservedApplicationPath ?app ?p"
  proof (cases rule: canonical_path_cases [where app = ?app])
    case (1 cs)
    then show ?thesis using sr(2) c(3) index_path [of cs] by auto
  next
    case (2 cs)
    then show ?thesis using sr(2) c(3) by (auto simp: has_suffix_last)
  qed
  from c(1,2) have "plain_name n \<and> (?p = CHR ''/'' # n \<or> ?p @ ''index.html'' = CHR ''/'' # n)
    \<and> (has_suffix ?p ''/'' \<longrightarrow> ?p \<noteq> ''/'' \<longrightarrow> \<not> isReservedApplicationPath ?app (butlast ?p))"
  proof (cases rule: canonical_path_cases [where app = ?app])
    case (1 cs)
    have p: "?p = CHR ''/'' # join_slash cs" using 1(3) c(3) by simp
    have "has_suffix ?p ''/'' \<longleftrightarrow> cs = []" using join_proper_slash [OF 1(1)] p by simp
    then show ?thesis
      using serve_name_file [OF n] p Join_proper(1) [OF 1(1)] plain_join(1) [OF 1(1)] by (auto simp: trim_slash plain_name_def)
  next
    case (2 cs)
    have p: "?p = CHR ''/'' # join_slash cs @ ''/''" using 2(4) c(3) by simp
    have "n = join_slash cs @ ''/'' \<or> n = join_slash cs @ ''/index.html''"
      using serve_name_file [OF n] Join_proper(2) [OF 2(1,2)] unfolding p trim_slash by auto
    moreover have "plain_name (join_slash cs @ ''/'')" "plain_name (join_slash cs @ ''/index.html'')"
      using plain_join(2) [OF 2(1,2), of "[]"] plain_join(2) [OF 2(1,2), of "''index.html''"] by (simp_all add: plain_name_def)
    moreover have "butlast ?p = CHR ''/'' # join_slash cs" unfolding p by (simp add: butlast_append)
    ultimately show ?thesis using 2(5) unfolding p by auto
  qed
  then show "plain_name n" "?p = CHR ''/'' # n \<or> ?p @ ''index.html'' = CHR ''/'' # n"
    "has_suffix ?p ''/'' \<Longrightarrow> ?p \<noteq> ''/'' \<Longrightarrow> \<not> isReservedApplicationPath ?app (butlast ?p)" by auto
qed

text \<open>A canonical path with a slash at its end is not redirected again.\<close>

lemma no_redirect_slash:
  assumes "canonical_path (application t) (Path (base r)) = Path (base r)" and "has_suffix (Path (base r)) ''/''"
  shows "snd (ServeHTTP w t r) \<noteq> H_static (F_redirect p q)"
proof
  assume "snd (ServeHTTP w t r) = H_static (F_redirect p q)"
  from static_reached(1) [OF this] show False
    by (cases rule: serveStatic_cases) (use assms serve_name_redirect in \<open>auto dest: sym\<close>)
qed

text \<open>The target of a redirect is canonical, and from a canonical path there is only one.\<close>

lemma redirect_settles:
  assumes "snd (ServeHTTP w t r) = H_static (F_redirect p q)"
  shows "q = RawQuery (base r)" "canonical_path (application t) p = p"
    "canonical_path (application t) (Path (base r)) = Path (base r) \<Longrightarrow> p = Path (base r) @ ''/''"
proof -
  let ?p = "Path (base r)" and ?app = "application t"
  note sr = static_reached [OF assms]
  from sr(1) have "q = RawQuery (base r) \<and> canonical_path ?app p = p \<and> (canonical_path ?app ?p = ?p \<longrightarrow> p = ?p @ ''/'')"
  proof (cases rule: serveStatic_cases)
    case 3
    then show ?thesis using canonical_path_idem [OF 3(1,2)] by auto
  next
    case 4
    have d: "p = ?p @ ''/'' \<and> q = RawQuery (base r) \<and> \<not> has_suffix ?p ''/''" using serve_name_redirect 4(4) by metis
    from 4(1,2) have "canonical_path ?app p = p"
    proof (cases rule: canonical_path_cases [where app = ?app])
      case (1 cs)
      have p: "?p = CHR ''/'' # join_slash cs" using 1(3) 4(3) by simp
      have "cs \<noteq> []" using d join_proper_slash [OF 1(1)] p by simp
      moreover have "\<not> isReservedApplicationPath ?app ?p" using sr(2) p index_path [OF 1(1)] 1(2) by auto
      ultimately show ?thesis using canonical_path_slash [OF 1(1) _ 1(2)] d p by simp
    next
      case (2 cs)
      then show ?thesis using d 4(3) by (simp add: has_suffix_last)
    qed
    then show ?thesis using d by blast
  qed simp_all
  then show "q = RawQuery (base r)" "canonical_path ?app p = p" "canonical_path ?app ?p = ?p \<Longrightarrow> p = ?p @ ''/''" by blast+
qed

definition follow :: "packet_request \<Rightarrow> string \<Rightarrow> string \<Rightarrow> packet_request" where
  "follow r p q = r\<lparr>base := (base r)\<lparr>Path := p, RawQuery := q\<rparr>\<rparr>"

lemma follow_simps [simp]: "Path (base (follow r p q)) = p" "RawQuery (base (follow r p q)) = q"
  by (simp_all add: follow_def)

lemma redirects_end:
  assumes "snd (ServeHTTP w t r) = H_static (F_redirect p q)" and "snd (ServeHTTP w' t' (follow r p q)) = H_static (F_redirect p' q')"
    and "application t' = application t" and "application t'' = application t"
  shows "snd (ServeHTTP w'' t'' (follow (follow r p q) p' q')) \<noteq> H_static (F_redirect p'' q'')"
proof (rule no_redirect_slash)
  have "canonical_path (application t') p = p" using redirect_settles(2) [OF assms(1)] assms(3) by simp
  then have "p' = p @ ''/''" using redirect_settles(3) [OF assms(2)] by simp
  then show "has_suffix (Path (base (follow (follow r p q) p' q'))) ''/''" by (simp add: has_suffix_last)
  show "canonical_path (application t'') (Path (base (follow (follow r p q) p' q'))) = Path (base (follow (follow r p q) p' q'))"
    using redirect_settles(2) [OF assms(2)] assms(3,4) by simp
qed

section \<open>Properties of the site\<close>

text \<open>
  C40. Files of the site. If the entry point sends a file, the path of the request is the name of that file, or the
  directory whose index it is; the name has no component \<^verbatim>\<open>.\<close> or \<^verbatim>\<open>..\<close>; and neither the path nor
  the path without its last slash is an asset, a carrier or another reserved path, so that no spelling of a path
  shows the file behind an asset or a carrier. A redirect keeps the query, and following redirects ends: after two
  of them there is no third one, whatever happens to the files in between.
\<close>

theorem static_site:
  "(snd (ServeHTTP w t r) = H_static (F_file n) \<longrightarrow>
      plain_name n \<and> (Path (base r) = CHR ''/'' # n \<or> Path (base r) @ ''index.html'' = CHR ''/'' # n)
      \<and> \<not> isReservedApplicationPath (application t) (Path (base r))
      \<and> (has_suffix (Path (base r)) ''/'' \<and> Path (base r) \<noteq> ''/'' \<longrightarrow>
          \<not> isReservedApplicationPath (application t) (butlast (Path (base r)))))
   \<and> (snd (ServeHTTP w t r) = H_static (F_redirect p q) \<and> snd (ServeHTTP w' t' (follow r p q)) = H_static (F_redirect p' q')
        \<and> application t' = application t \<and> application t'' = application t \<longrightarrow>
      q = RawQuery (base r)
      \<and> (\<forall>p'' q''. snd (ServeHTTP w'' t'' (follow (follow r p q) p' q')) \<noteq> H_static (F_redirect p'' q'')))"
  using static_file [of w t r n] redirect_settles(1) [of w t r p q] redirects_end by blast

text \<open>A site with a directory \<^verbatim>\<open>d\<close> that has an index: the path \<^verbatim>\<open>//d\<close> leads there in two redirects.\<close>

definition site_world :: world where
  "site_world = demo_world\<lparr>w_stat := (\<lambda>i n. if n = ''d'' \<or> n = ''d/'' then Inr IsDir else Inr Regular),
     w_open := (\<lambda>n. Inr (Some Regular))\<rparr>"

definition site_demo :: transport where
  "site_demo = registry_demo\<lparr>application := no_application\<lparr>directory := True\<rparr>\<rparr>"

definition site_request :: packet_request where
  "site_request = begin_request\<lparr>base := demo_visit\<lparr>Path := ''//d'', RawQuery := ''x''\<rparr>\<rparr>"

lemma site_steps:
  "snd (ServeHTTP site_world site_demo site_request) = H_static (F_redirect ''/d'' ''x'')"
  "snd (ServeHTTP site_world site_demo (follow site_request ''/d'' ''x'')) = H_static (F_redirect ''/d/'' ''x'')"
  "snd (ServeHTTP site_world site_demo (follow site_request ''/d/'' ''x'')) = H_static (F_file ''d/index.html'')"
  by code_simp+

theorem static_site_witness:
  "plain_name ''d/index.html'' \<and> \<not> isReservedApplicationPath (application site_demo) ''/d''
   \<and> (\<forall>p q. snd (ServeHTTP site_world site_demo (follow (follow site_request ''/d'' ''x'') ''/d/'' ''x'')) \<noteq> H_static (F_redirect p q))"
proof -
  have "has_suffix ''/d/'' ''/''" by (simp add: has_suffix_def)
  then have "plain_name ''d/index.html'' \<and> \<not> isReservedApplicationPath (application site_demo) ''/d''"
    using static_site [of site_world site_demo "follow site_request ''/d/'' ''x''" "''d/index.html''"] site_steps(3) by simp
  moreover have "\<forall>p q. snd (ServeHTTP site_world site_demo (follow (follow site_request ''/d'' ''x'') ''/d/'' ''x'')) \<noteq> H_static (F_redirect p q)"
    using static_site [of site_world site_demo site_request "[]" "''/d''" "''x''" site_world site_demo "''/d/''" "''x''" site_demo site_world]
      site_steps(1,2) by blast
  ultimately show ?thesis by blast
qed

end
