(* ===== verification/Caddyfile.thy ===== *)
theory Caddyfile
  imports Registry_Properties
begin

text \<open>
  The configuration: \<^verbatim>\<open>UnmarshalCaddyfile\<close> of \<^verbatim>\<open>caddyfile.go\<close>. What the dispenser of the web server delivers is
  the input: for every use of the directive its arguments and the lines of its block, each a name with arguments.
  \<^verbatim>\<open>AllArgs\<close> wants exactly as many arguments as it has targets, \<^verbatim>\<open>RemainingArgs\<close> takes all, and
  \<^verbatim>\<open>NextArg\<close> says whether there is one. \<^verbatim>\<open>time.ParseDuration\<close> is a parameter.
\<close>

section \<open>Parsing\<close>

type_synonym caddy_line = "string \<times> string list"

record segment =
  seg_args :: "string list"
  seg_block :: "caddy_line list"

fun parse_ports :: "string list \<Rightarrow> int list \<Rightarrow> (string, int list) outcome" where
  "parse_ports [] acc = Ok acc"
| "parse_ports (v # vs) acc =
     (case Atoi v of
        Ok port \<Rightarrow> if port < 1 \<or> port > 65535 then Fail ''invalid port'' else parse_ports vs (acc @ [port])
      | _ \<Rightarrow> Fail ''invalid port'')"

definition arg_err :: "(string, 'a) outcome" where
  "arg_err = Fail ''wrong argument count or unexpected line ending''"

definition option_line :: "(string \<Rightarrow> int option) \<Rightarrow> string \<Rightarrow> string list \<Rightarrow> transport \<Rightarrow> (string, transport) outcome" where
  "option_line parse_duration name args t =
     (if name = ''packet_tls'' then
        (case args of [c, k] \<Rightarrow> Ok (t\<lparr>PacketCertificate := c, PacketKey := k\<rparr>) | _ \<Rightarrow> arg_err)
      else if name = ''application_root'' then
        (case args of [root] \<Rightarrow> Ok (t\<lparr>ApplicationRoot := root\<rparr>) | _ \<Rightarrow> arg_err)
      else if name = ''diagnostics'' then
        (if args \<noteq> [] then arg_err else Ok (t\<lparr>Diagnostics := True\<rparr>))
      else if name = ''max_sessions'' then
        (case args of
           [v] \<Rightarrow>
             (case Atoi v of
                Ok limit \<Rightarrow> if limit \<le> 0 then Fail ''max_sessions must be a positive integer'' else Ok (t\<lparr>MaxSessions := limit\<rparr>)
              | _ \<Rightarrow> Fail ''max_sessions must be a positive integer'')
         | _ \<Rightarrow> arg_err)
      else if name = ''basic_auth'' then
        (case args of
           [u, p] \<Rightarrow> Ok (t\<lparr>Access := (Access t)\<lparr>Credentials := Credentials (Access t) @ [\<lparr>Username = u, Password = p\<rparr>]\<rparr>\<rparr>)
         | _ \<Rightarrow> arg_err)
      else if name = ''allow'' \<or> name = ''deny'' then
        (if length args = 0 then arg_err
         else Ok (t\<lparr>Access := (Access t)\<lparr>ACL := ACL (Access t) @ [\<lparr>Subjects = args, Allow = (name = ''allow'')\<rparr>]\<rparr>\<rparr>))
      else if name = ''ports'' then
        (if length args = 0 then arg_err
         else and_then (parse_ports args (AllowedPorts (Access t))) (\<lambda>ps. Ok (t\<lparr>Access := (Access t)\<lparr>AllowedPorts := ps\<rparr>\<rparr>)))
      else if name = ''dial_timeout'' then
        (case args of
           [v] \<Rightarrow>
             (case parse_duration v of
                Some duration \<Rightarrow>
                  if duration \<le> 0 then Fail ''invalid dial_timeout'' else Ok (t\<lparr>Access := (Access t)\<lparr>DialTimeout := duration\<rparr>\<rparr>)
              | None \<Rightarrow> Fail ''invalid dial_timeout'')
         | _ \<Rightarrow> arg_err)
      else if name = ''upstream'' then
        (case args of [v] \<Rightarrow> Ok (t\<lparr>Access := (Access t)\<lparr>Upstream := v\<rparr>\<rparr>) | _ \<Rightarrow> arg_err)
      else if name = ''stats_path'' then
        (case args of [v] \<Rightarrow> Ok (t\<lparr>StatsPath := v\<rparr>) | _ \<Rightarrow> arg_err)
      else Fail (''unknown naivefox_transport option '' @ name))"

definition repeatable :: "string \<Rightarrow> bool" where
  "repeatable name \<longleftrightarrow> name = ''basic_auth'' \<or> name = ''allow'' \<or> name = ''deny''"

fun block_lines ::
  "(string \<Rightarrow> int option) \<Rightarrow> caddy_line list \<Rightarrow> string list \<times> transport \<Rightarrow> (string, string list \<times> transport) outcome" where
  "block_lines parse_duration [] x = Ok x"
| "block_lines parse_duration ((name, args) # rest) (used, t) =
     (if name \<in> set used \<and> \<not> repeatable name then Fail (''duplicate naivefox_transport option '' @ name)
      else and_then (option_line parse_duration name args t) (\<lambda>t. block_lines parse_duration rest (name # used, t)))"

fun unmarshal_segments ::
  "(string \<Rightarrow> int option) \<Rightarrow> segment list \<Rightarrow> string list \<times> transport \<Rightarrow> (string, string list \<times> transport) outcome" where
  "unmarshal_segments parse_duration [] x = Ok x"
| "unmarshal_segments parse_duration (s # rest) x =
     (if seg_args s \<noteq> [] then arg_err
      else and_then (block_lines parse_duration (seg_block s) x) (unmarshal_segments parse_duration rest))"

definition UnmarshalCaddyfile :: "(string \<Rightarrow> int option) \<Rightarrow> segment list \<Rightarrow> transport \<Rightarrow> (string, transport) outcome" where
  "UnmarshalCaddyfile parse_duration segs t =
     and_then (unmarshal_segments parse_duration segs ([], t)) (\<lambda>(_, t). Ok t)"

section \<open>What is accepted\<close>

text \<open>A line that is valid on its own, and its effect, as a reference for the parser.\<close>

definition port_ok :: "string \<Rightarrow> bool" where
  "port_ok v \<longleftrightarrow> (\<exists>n. Atoi v = Ok n \<and> 1 \<le> n \<and> n \<le> 65535)"

definition port_of :: "string \<Rightarrow> int" where
  "port_of v = (case Atoi v of Ok n \<Rightarrow> n | _ \<Rightarrow> 0)"

definition line_ok :: "(string \<Rightarrow> int option) \<Rightarrow> caddy_line \<Rightarrow> bool" where
  "line_ok parse_duration l \<longleftrightarrow> (case l of (name, args) \<Rightarrow>
     (name \<in> {''packet_tls'', ''basic_auth''} \<and> length args = 2)
     \<or> (name \<in> {''application_root'', ''upstream'', ''stats_path''} \<and> length args = 1)
     \<or> (name = ''diagnostics'' \<and> args = [])
     \<or> (name \<in> {''allow'', ''deny''} \<and> args \<noteq> [])
     \<or> (name = ''ports'' \<and> args \<noteq> [] \<and> list_all port_ok args)
     \<or> (name = ''max_sessions'' \<and> (\<exists>v n. args = [v] \<and> Atoi v = Ok n \<and> n > 0))
     \<or> (name = ''dial_timeout'' \<and> (\<exists>v d. args = [v] \<and> parse_duration v = Some d \<and> d > 0)))"

lemma parse_ports_eq:
  "parse_ports vs acc = (if list_all port_ok vs then Ok (acc @ map port_of vs) else Fail ''invalid port'')"
  by (induction vs acc rule: parse_ports.induct) (auto simp: port_ok_def port_of_def split: outcome.split)

lemma length_1_2: "length xs = Suc 0 \<longleftrightarrow> (\<exists>a. xs = [a])" "length xs = 2 \<longleftrightarrow> (\<exists>a b. xs = [a, b])"
  by (auto simp: length_Suc_conv numeral_2_eq_2)

lemma option_line_ok: "(\<exists>t'. option_line parse_duration name args t = Ok t') \<longleftrightarrow> line_ok parse_duration (name, args)"
  unfolding option_line_def line_ok_def arg_err_def
  by (auto simp: parse_ports_eq length_1_2 split: list.split outcome.split option.split)

text \<open>Names that must not be repeated occur at most once, and not among those used before.\<close>

definition at_most_once :: "string list \<Rightarrow> caddy_line list \<Rightarrow> bool" where
  "at_most_once used ls \<longleftrightarrow>
     (let ns = filter (\<lambda>n. \<not> repeatable n) (map fst ls) in distinct ns \<and> set ns \<inter> set used = {})"

lemma at_most_once_Cons:
  "at_most_once used (l # ls) \<longleftrightarrow> (repeatable (fst l) \<or> fst l \<notin> set used) \<and> at_most_once (fst l # used) ls"
  by (auto simp: at_most_once_def Let_def)

lemma block_lines_ok:
  "(\<exists>x. block_lines parse_duration ls (used, t) = Ok x) \<longleftrightarrow> list_all (line_ok parse_duration) ls \<and> at_most_once used ls"
proof (induction ls arbitrary: used t)
  case (Cons l ls)
  obtain name args where l: "l = (name, args)" by force
  show ?case
  proof (cases "option_line parse_duration name args t")
    case (Ok t')
    then have "line_ok parse_duration l" using option_line_ok l by blast
    then show ?thesis using Cons.IH [of "name # used" t'] Ok l by (auto simp: at_most_once_Cons)
  qed (use option_line_ok [of parse_duration name args t] l in \<open>auto simp: at_most_once_Cons\<close>)
qed (simp add: at_most_once_def)

lemma block_lines_used:
  "block_lines parse_duration ls (used, t) = Ok (used', t') \<Longrightarrow> set used' = set used \<union> set (map fst ls)"
proof (induction ls arbitrary: used t)
  case (Cons l ls)
  obtain name args where l: "l = (name, args)" by force
  then obtain u where "block_lines parse_duration ls (name # used, u) = Ok (used', t')"
    using Cons.prems by (auto simp: and_then_Ok_iff split: if_splits)
  from Cons.IH [OF this] show ?case by (simp add: l)
qed simp

lemma at_most_once_append:
  "set used' = set used \<union> set (map fst ls) \<Longrightarrow> at_most_once used (ls @ ks) \<longleftrightarrow> at_most_once used ls \<and> at_most_once used' ks"
  by (auto simp: at_most_once_def Let_def)

lemma unmarshal_segments_ok:
  "(\<exists>x. unmarshal_segments parse_duration segs (used, t) = Ok x) \<longleftrightarrow>
     list_all (\<lambda>s. seg_args s = []) segs \<and> list_all (line_ok parse_duration) (concat (map seg_block segs))
     \<and> at_most_once used (concat (map seg_block segs))"
proof (induction segs arbitrary: used t)
  case (Cons s segs)
  show ?case
  proof (cases "block_lines parse_duration (seg_block s) (used, t)")
    case (Ok x)
    obtain used' t' where x: "x = (used', t')" by force
    have "set used' = set used \<union> set (map fst (seg_block s))" using block_lines_used Ok x by blast
    from at_most_once_append [OF this] show ?thesis
      using Cons.IH [of used' t'] Ok x block_lines_ok [of parse_duration "seg_block s" used t] by (auto simp: arg_err_def)
  next
    case (Fail e)
    then have "\<not> (list_all (line_ok parse_duration) (seg_block s) \<and> at_most_once used (seg_block s))"
      using block_lines_ok [of parse_duration "seg_block s" used t] by auto
    then show ?thesis using Fail by (auto simp: arg_err_def at_most_once_def Let_def)
  next
    case Panic
    then have "\<not> (list_all (line_ok parse_duration) (seg_block s) \<and> at_most_once used (seg_block s))"
      using block_lines_ok [of parse_duration "seg_block s" used t] by auto
    then show ?thesis using Panic by (auto simp: arg_err_def at_most_once_def Let_def)
  qed
qed (simp add: at_most_once_def)

section \<open>Writing a configuration\<close>

definition opt :: "bool \<Rightarrow> caddy_line \<Rightarrow> caddy_line list" where
  "opt c l = (if c then [l] else [])"

definition caddy_lines :: "(int \<Rightarrow> string) \<Rightarrow> transport \<Rightarrow> caddy_line list" where
  "caddy_lines fmt c =
     opt (PacketCertificate c \<noteq> [] \<or> PacketKey c \<noteq> []) (''packet_tls'', [PacketCertificate c, PacketKey c])
     @ opt (ApplicationRoot c \<noteq> []) (''application_root'', [ApplicationRoot c])
     @ opt (Diagnostics c) (''diagnostics'', [])
     @ opt (MaxSessions c > 0) (''max_sessions'', [itoa (nat (MaxSessions c))])
     @ opt (AllowedPorts (Access c) \<noteq> []) (''ports'', map (\<lambda>n. itoa (nat n)) (AllowedPorts (Access c)))
     @ opt (DialTimeout (Access c) > 0) (''dial_timeout'', [fmt (DialTimeout (Access c))])
     @ opt (Upstream (Access c) \<noteq> []) (''upstream'', [Upstream (Access c)])
     @ opt (StatsPath c \<noteq> []) (''stats_path'', [StatsPath c])
     @ map (\<lambda>cr. (''basic_auth'', [Username cr, Password cr])) (Credentials (Access c))
     @ map (\<lambda>rule. (if Allow rule then ''allow'' else ''deny'', Subjects rule)) (ACL (Access c))"

definition config_ok :: "transport \<Rightarrow> bool" where
  "config_ok c \<longleftrightarrow> 0 \<le> MaxSessions c \<and> MaxSessions c < 2 ^ 63 \<and> 0 \<le> DialTimeout (Access c)
     \<and> list_all (\<lambda>n. 1 \<le> n \<and> n \<le> 65535) (AllowedPorts (Access c)) \<and> list_all (\<lambda>rule. Subjects rule \<noteq> []) (ACL (Access c))"

text \<open>A new handler, and the handler with the configuration of another one.\<close>

definition unconfigured :: "transport \<Rightarrow> bool" where
  "unconfigured t \<longleftrightarrow> PacketCertificate t = [] \<and> PacketKey t = [] \<and> ApplicationRoot t = [] \<and> \<not> Diagnostics t
     \<and> MaxSessions t = 0 \<and> StatsPath t = []
     \<and> Access t = \<lparr>Credentials = [], ACL = [], AllowedPorts = [], DialTimeout = 0, Upstream = []\<rparr>"

definition configured :: "transport \<Rightarrow> transport \<Rightarrow> transport" where
  "configured t c = t\<lparr>PacketCertificate := PacketCertificate c, PacketKey := PacketKey c, ApplicationRoot := ApplicationRoot c,
     StatsPath := StatsPath c, Access := Access c, MaxSessions := MaxSessions c, Diagnostics := Diagnostics c\<rparr>"

text \<open>The effect of lines, without the check for duplicates.\<close>

fun apply_lines :: "(string \<Rightarrow> int option) \<Rightarrow> caddy_line list \<Rightarrow> transport \<Rightarrow> (string, transport) outcome" where
  "apply_lines parse_duration [] t = Ok t"
| "apply_lines parse_duration ((name, args) # rest) t = and_then (option_line parse_duration name args t) (apply_lines parse_duration rest)"

lemma block_lines_apply: "block_lines parse_duration ls (used, t) = Ok (used', t') \<Longrightarrow> apply_lines parse_duration ls t = Ok t'"
proof (induction ls arbitrary: used t)
  case (Cons l ls)
  obtain name args where l: "l = (name, args)" by force
  then obtain u where "option_line parse_duration name args t = Ok u" "block_lines parse_duration ls (name # used, u) = Ok (used', t')"
    using Cons.prems by (auto simp: and_then_Ok_iff split: if_splits)
  with Cons.IH show ?case by (simp add: l)
qed simp

lemma apply_lines_append:
  "apply_lines parse_duration xs t = Ok u \<Longrightarrow> apply_lines parse_duration (xs @ ys) t = apply_lines parse_duration ys u"
proof (induction xs arbitrary: t)
  case (Cons l xs)
  then show ?case by (cases l) (auto simp: and_then_Ok_iff)
qed simp

lemma apply_opt:
  "(c \<Longrightarrow> option_line parse_duration name args t = Ok u) \<Longrightarrow> (\<not> c \<Longrightarrow> t = u) \<Longrightarrow>
     apply_lines parse_duration (opt c (name, args) @ ys) t = apply_lines parse_duration ys u"
  by (auto simp: opt_def)

lemma apply_credentials:
  "apply_lines parse_duration (map (\<lambda>cr. (''basic_auth'', [Username cr, Password cr])) crs) t
     = Ok (t\<lparr>Access := (Access t)\<lparr>Credentials := Credentials (Access t) @ crs\<rparr>\<rparr>)"
  by (induction crs arbitrary: t) (simp_all add: option_line_def)

lemma apply_acl:
  "list_all (\<lambda>rule. Subjects rule \<noteq> []) rs \<Longrightarrow>
   apply_lines parse_duration (map (\<lambda>rule. (if Allow rule then ''allow'' else ''deny'', Subjects rule)) rs) t
     = Ok (t\<lparr>Access := (Access t)\<lparr>ACL := ACL (Access t) @ rs\<rparr>\<rparr>)"
  by (induction rs arbitrary: t) (simp_all add: option_line_def)

lemma ports_roundtrip:
  "list_all (\<lambda>n. 1 \<le> n \<and> n \<le> 65535) ns \<Longrightarrow> parse_ports (map (\<lambda>n. itoa (nat n)) ns) acc = Ok (acc @ ns)"
proof (induction ns arbitrary: acc)
  case (Cons n ns)
  have "nat n < 2 ^ 63" using Cons.prems by auto
  then have "Atoi (itoa (nat n)) = Ok n" using Atoi_itoa [of "nat n"] Cons.prems by simp
  then show ?case using Cons by simp
qed simp

text \<open>One optional line after another, on a handler whose field still has its zero value.\<close>

lemma apply_options:
  "PacketCertificate v = [] \<Longrightarrow> PacketKey v = [] \<Longrightarrow>
     apply_lines parse_duration (opt (c = [] \<longrightarrow> k \<noteq> []) (''packet_tls'', [c, k]) @ ys) v
       = apply_lines parse_duration ys (v\<lparr>PacketCertificate := c, PacketKey := k\<rparr>)"
  "ApplicationRoot v = [] \<Longrightarrow> apply_lines parse_duration (opt (x \<noteq> []) (''application_root'', [x]) @ ys) v
     = apply_lines parse_duration ys (v\<lparr>ApplicationRoot := x\<rparr>)"
  "\<not> Diagnostics v \<Longrightarrow> apply_lines parse_duration (opt d (''diagnostics'', []) @ ys) v
     = apply_lines parse_duration ys (v\<lparr>Diagnostics := d\<rparr>)"
  "MaxSessions v = 0 \<Longrightarrow> 0 \<le> n \<Longrightarrow> n < 2 ^ 63 \<Longrightarrow> apply_lines parse_duration (opt (n > 0) (''max_sessions'', [itoa (nat n)]) @ ys) v
     = apply_lines parse_duration ys (v\<lparr>MaxSessions := n\<rparr>)"
  "StatsPath v = [] \<Longrightarrow> apply_lines parse_duration (opt (x \<noteq> []) (''stats_path'', [x]) @ ys) v
     = apply_lines parse_duration ys (v\<lparr>StatsPath := x\<rparr>)"
  by (cases v; (intro apply_opt; auto simp: option_line_def Atoi_itoa nat_less_iff))+

lemma apply_access_options:
  "AllowedPorts (Access v) = [] \<Longrightarrow> list_all (\<lambda>n. 1 \<le> n \<and> n \<le> 65535) ns \<Longrightarrow>
     apply_lines parse_duration (opt (ns \<noteq> []) (''ports'', map (\<lambda>n. itoa (nat n)) ns) @ ys) v
       = apply_lines parse_duration ys (v\<lparr>Access := (Access v)\<lparr>AllowedPorts := ns\<rparr>\<rparr>)"
  "DialTimeout (Access v) = 0 \<Longrightarrow> 0 \<le> d \<Longrightarrow> (d > 0 \<Longrightarrow> parse_duration (fmt d) = Some d) \<Longrightarrow>
     apply_lines parse_duration (opt (d > 0) (''dial_timeout'', [fmt d]) @ ys) v
       = apply_lines parse_duration ys (v\<lparr>Access := (Access v)\<lparr>DialTimeout := d\<rparr>\<rparr>)"
  "Upstream (Access v) = [] \<Longrightarrow> apply_lines parse_duration (opt (x \<noteq> []) (''upstream'', [x]) @ ys) v
     = apply_lines parse_duration ys (v\<lparr>Access := (Access v)\<lparr>Upstream := x\<rparr>\<rparr>)"
  by (cases v; cases "Access v"; (intro apply_opt; auto simp: option_line_def ports_roundtrip))+

lemma caddy_lines_apply:
  assumes "config_ok c" and "unconfigured t"
    and "DialTimeout (Access c) > 0 \<Longrightarrow> parse_duration (fmt (DialTimeout (Access c))) = Some (DialTimeout (Access c))"
  shows "apply_lines parse_duration (caddy_lines fmt c) t = Ok (configured t c)"
proof -
  have c: "0 \<le> MaxSessions c" "MaxSessions c < 2 ^ 63" "0 \<le> DialTimeout (Access c)"
    "list_all (\<lambda>n. 1 \<le> n \<and> n \<le> 65535) (AllowedPorts (Access c))" "list_all (\<lambda>rule. Subjects rule \<noteq> []) (ACL (Access c))"
    using assms(1) by (auto simp: config_ok_def)
  show ?thesis
    using assms(2) c assms(3)
    by (simp add: caddy_lines_def unconfigured_def apply_options apply_access_options apply_lines_append [OF apply_credentials]
        apply_acl configured_def)
qed

lemma once_opt:
  "distinct xs \<Longrightarrow> fst l \<notin> set xs \<Longrightarrow> distinct (filter P (map fst (opt c l)) @ xs)"
  "x \<noteq> fst l \<Longrightarrow> x \<notin> set xs \<Longrightarrow> x \<notin> set (filter P (map fst (opt c l)) @ xs)"
  by (auto simp: opt_def)

lemma caddy_lines_once: "at_most_once [] (caddy_lines fmt c)"
proof -
  have r: "filter (\<lambda>n. \<not> repeatable n) (map fst (map (\<lambda>cr. (''basic_auth'', [Username cr, Password cr])) crs)) = []"
    "filter (\<lambda>n. \<not> repeatable n) (map fst (map (\<lambda>rule. (if Allow rule then ''allow'' else ''deny'', Subjects rule)) rs)) = []" for crs rs
    by (auto simp: filter_empty_conv repeatable_def)
  have "distinct (filter (\<lambda>n. \<not> repeatable n) (map fst (caddy_lines fmt c)))"
    unfolding caddy_lines_def map_append filter_append r append_Nil
    by (intro once_opt) simp_all
  then show ?thesis by (simp add: at_most_once_def Let_def)
qed

lemma apply_lines_ok: "apply_lines parse_duration ls t = Ok u \<Longrightarrow> list_all (line_ok parse_duration) ls"
proof (induction ls arbitrary: t)
  case (Cons l ls)
  then show ?case using option_line_ok by (cases l) (fastforce simp: and_then_Ok_iff)
qed simp

lemma caddy_roundtrip:
  assumes "config_ok c" and "unconfigured t"
    and "DialTimeout (Access c) > 0 \<Longrightarrow> parse_duration (fmt (DialTimeout (Access c))) = Some (DialTimeout (Access c))"
  shows "UnmarshalCaddyfile parse_duration [\<lparr>seg_args = [], seg_block = caddy_lines fmt c\<rparr>] t = Ok (configured t c)"
proof -
  note ap = caddy_lines_apply [where fmt = fmt and parse_duration = parse_duration, OF assms]
  obtain used u where b: "block_lines parse_duration (caddy_lines fmt c) ([], t) = Ok (used, u)"
    using block_lines_ok [of parse_duration "caddy_lines fmt c" "[]" t] apply_lines_ok [OF ap] caddy_lines_once by auto
  then have "u = configured t c" using block_lines_apply [OF b] ap by simp
  then show ?thesis using b by (simp add: UnmarshalCaddyfile_def)
qed

lemma unmarshal_ok:
  "(\<exists>u. UnmarshalCaddyfile parse_duration segs t = Ok u) \<longleftrightarrow>
     list_all (\<lambda>s. seg_args s = []) segs \<and> list_all (line_ok parse_duration) (concat (map seg_block segs))
     \<and> distinct (filter (\<lambda>n. \<not> repeatable n) (map fst (concat (map seg_block segs))))"
  using unmarshal_segments_ok [of parse_duration segs "[]" t]
  by (auto simp: UnmarshalCaddyfile_def and_then_Ok_iff at_most_once_def Let_def)

section \<open>Properties\<close>

text \<open>
  C25. Reading a configuration. A configuration is accepted exactly if no use of the directive has arguments, every
  line is valid on its own, and no option but \<^verbatim>\<open>basic_auth\<close>, \<^verbatim>\<open>allow\<close> and \<^verbatim>\<open>deny\<close> occurs twice, over all uses
  together. And reading is inverse to writing: the lines of a valid configuration, read into a new
  handler, give that configuration back, the order of credentials and rules included.
\<close>

theorem UnmarshalCaddyfile_exact:
  "((\<exists>u. UnmarshalCaddyfile parse_duration segs t = Ok u) \<longleftrightarrow>
      list_all (\<lambda>s. seg_args s = []) segs \<and> list_all (line_ok parse_duration) (concat (map seg_block segs))
      \<and> distinct (filter (\<lambda>n. \<not> repeatable n) (map fst (concat (map seg_block segs)))))
   \<and> (config_ok c \<and> unconfigured t
        \<and> (DialTimeout (Access c) > 0 \<longrightarrow> parse_duration (fmt (DialTimeout (Access c))) = Some (DialTimeout (Access c)))
      \<longrightarrow> UnmarshalCaddyfile parse_duration [\<lparr>seg_args = [], seg_block = caddy_lines fmt c\<rparr>] t = Ok (configured t c))"
  using unmarshal_ok caddy_roundtrip by blast

definition caddy_demo :: transport where
  "caddy_demo = registry_demo\<lparr>Diagnostics := True, ApplicationRoot := ''/srv'', Access := \<lparr>Credentials = [\<lparr>Username = ''u'', Password = ''p''\<rparr>],
     ACL = [\<lparr>Subjects = [''all''], Allow = False\<rparr>], AllowedPorts = [443], DialTimeout = 5, Upstream = []\<rparr>\<rparr>"

theorem UnmarshalCaddyfile_exact_witness:
  "UnmarshalCaddyfile (\<lambda>v. if v = ''5ns'' then Some 5 else None)
     [\<lparr>seg_args = [], seg_block = caddy_lines (\<lambda>_. ''5ns'') caddy_demo\<rparr>] (registry_demo\<lparr>MaxSessions := 0\<rparr>)
     = Ok (configured (registry_demo\<lparr>MaxSessions := 0\<rparr>) caddy_demo)
   \<and> \<not> (\<exists>u. UnmarshalCaddyfile (\<lambda>_. None)
     [\<lparr>seg_args = [], seg_block = [(''diagnostics'', []), (''diagnostics'', [])]\<rparr>] registry_demo = Ok u)"
proof -
  have "config_ok caddy_demo" "unconfigured (registry_demo\<lparr>MaxSessions := 0\<rparr>)" "DialTimeout (Access caddy_demo) = 5"
    by (simp_all add: config_ok_def unconfigured_def caddy_demo_def registry_demo_def no_access_def)
  then show ?thesis
    using UnmarshalCaddyfile_exact [of "\<lambda>v. if v = ''5ns'' then Some 5 else None" "[]" "registry_demo\<lparr>MaxSessions := 0\<rparr>" caddy_demo "\<lambda>_. ''5ns''"]
      UnmarshalCaddyfile_exact [of "\<lambda>_. None" "[\<lparr>seg_args = [], seg_block = [(''diagnostics'', []), (''diagnostics'', [])]\<rparr>]" registry_demo]
    by (simp add: repeatable_def)
qed

end
