(* ===== verification/Upstream.thy ===== *)
theory Upstream
  imports Auth
begin

text \<open>
  Connections through an upstream proxy: \<^verbatim>\<open>upstream.go\<close>. The sockets, TLS, the SOCKS5 and HTTP/2 libraries and
  the reader of HTTP responses are parameters: the record \<open>upstream_io\<close> holds what each call returns. The
  model keeps the order of the calls, every early return, the deferred clean-up, the limit on
  response headers, and the deadlines of an HTTP/2 tunnel with their timers.
\<close>

definition maxUpstreamResponseHeaders :: int where "maxUpstreamResponseHeaders = 65536"

section \<open>The request\<close>

text \<open>The URL of the proxy: its port, if it has one, and its user with an optional password.\<close>

record proxy_url = upstream_url +
  proxy_port :: string
  proxy_user :: "(string \<times> string option) option"

record connect_request =
  req_method :: string
  req_host :: string
  proxy_authorization :: "string option"

definition upstreamRequest :: "string \<Rightarrow> proxy_url \<Rightarrow> connect_request" where
  "upstreamRequest target u =
     \<lparr>req_method = ''CONNECT'', req_host = target,
      proxy_authorization =
        (case proxy_user u of
           None \<Rightarrow> None
         | Some (user, password) \<Rightarrow>
             Some (''Basic '' @ base64_encode (to_bytes (user @ '':'' @ (case password of None \<Rightarrow> [] | Some p \<Rightarrow> p)))))\<rparr>"

text \<open>\<^verbatim>\<open>net.JoinHostPort\<close> puts brackets around a host with a colon.\<close>

definition JoinHostPort :: "string \<Rightarrow> string \<Rightarrow> string" where
  "JoinHostPort host port = (if CHR '':'' \<in> set host then ''['' @ host @ '']:'' @ port else host @ '':'' @ port)"

section \<open>Setting up\<close>

text \<open>
  What the calls of one setup return, an error or the value that matters: the dial, setting and clearing the
  deadline, the two SOCKS5 calls, the TLS handshake with the negotiated protocol, the HTTP/2 client and its round
  trip with the status, writing the request and reading the response with its status. \<open>io_ctx\<close> is, for every
  phase, the error of the setup context and whether its deadline has passed when an error of that phase
  is reported; \<open>io_fired\<close> says that the context ended before the setup did, which closes the socket, and
  \<open>io_end\<close> is the error of the context at the end.
\<close>

record upstream_io =
  io_dial :: "string option"
  io_has_deadline :: bool
  io_set_deadline :: "string option"
  io_socks_new :: "string option"
  io_socks_dial :: "string option"
  io_tls :: "string + string"
  io_h2_client :: "string option"
  io_h2_round :: "string + nat"
  io_write :: "string option"
  io_response :: "string + nat"
  io_clear :: "string option"
  io_ctx :: "string \<Rightarrow> string option \<times> bool"
  io_fired :: bool
  io_end :: "string option"

definition Canceled :: string where "Canceled = ''context canceled''"
definition DeadlineExceeded :: string where "DeadlineExceeded = ''context deadline exceeded''"

definition upstreamSetupError :: "upstream_io \<Rightarrow> string \<Rightarrow> string \<Rightarrow> string" where
  "upstreamSetupError io phase err =
     (case io_ctx io phase of
        (Some e, _) \<Rightarrow> e
      | (None, True) \<Rightarrow> DeadlineExceeded
      | (None, False) \<Rightarrow>
          if err = Canceled \<or> err = DeadlineExceeded then err else ''upstream '' @ phase @ '' failed'')"

text \<open>A connection that is handed out: the socket, an HTTP/2 tunnel on it, or a reader in front of it.\<close>

datatype upstream_conn = U_raw | U_h2 | U_buffered

datatype h2_resource = H2_context | H2_output | H2_input | H2_body | H2_client | H2_conn

definition rejected_status :: "nat \<Rightarrow> string" where
  "rejected_status n = ''upstream CONNECT rejected with status '' @ itoa n"

text \<open>The HTTP/2 tunnel, and what a failure closes.\<close>

definition dialUpstreamH2 :: "upstream_io \<Rightarrow> (string + upstream_conn) \<times> h2_resource list" where
  "dialUpstreamH2 io =
     (case io_h2_client io of
        Some e \<Rightarrow> (Inl e, [])
      | None \<Rightarrow>
          (case io_h2_round io of
             Inl e \<Rightarrow> (Inl e, [H2_context, H2_output, H2_input, H2_client])
           | Inr st \<Rightarrow>
               if st \<noteq> 200 then (Inl (rejected_status st), [H2_context, H2_output, H2_body, H2_client])
               else (Inr U_h2, [])))"

text \<open>
  The setup on an open socket. The first component is the result of the call before the deferred clean-up, with
  both a connection and an error on the one path where the code returns both; the second says whether the
  deadline of the socket was cleared.
\<close>

definition plain_connect :: "upstream_io \<Rightarrow> (upstream_conn option \<times> string option) \<times> bool" where
  "plain_connect io =
     (case io_write io of
        Some e \<Rightarrow> ((None, Some (upstreamSetupError io ''CONNECT write'' e)), False)
      | None \<Rightarrow>
          (case io_response io of
             Inl e \<Rightarrow> ((None, Some (upstreamSetupError io ''CONNECT response'' e)), False)
           | Inr st \<Rightarrow>
               if st \<noteq> 200 then ((None, Some (rejected_status st)), False)
               else (case io_clear io of
                   Some e \<Rightarrow> ((None, Some e), False)
                 | None \<Rightarrow> ((Some U_buffered, None), True))))"

definition socks_connect :: "upstream_io \<Rightarrow> (upstream_conn option \<times> string option) \<times> bool" where
  "socks_connect io =
     (case io_socks_new io of
        Some e \<Rightarrow> ((None, Some (upstreamSetupError io ''SOCKS5'' e)), False)
      | None \<Rightarrow>
          (case io_socks_dial io of
             Some e \<Rightarrow> ((None, Some (upstreamSetupError io ''SOCKS5'' e)), False)
           | None \<Rightarrow>
               (case io_clear io of
                  Some e \<Rightarrow> ((None, Some e), False)
                | None \<Rightarrow> ((Some U_raw, None), True))))"

definition tls_connect :: "upstream_io \<Rightarrow> (upstream_conn option \<times> string option) \<times> bool" where
  "tls_connect io =
     (case io_tls io of
        Inl e \<Rightarrow> ((None, Some (upstreamSetupError io ''TLS'' e)), False)
      | Inr protocol \<Rightarrow>
          if protocol = ''h2'' then
            (case fst (dialUpstreamH2 io) of
               Inl e \<Rightarrow> ((None, Some (upstreamSetupError io ''HTTP/2 CONNECT'' e)), False)
             | Inr c \<Rightarrow>
                 (case io_clear io of
                    Some e \<Rightarrow> ((Some c, Some e), False)
                  | None \<Rightarrow> ((Some c, None), True)))
          else plain_connect io)"

definition setup_upstream :: "upstream_io \<Rightarrow> string \<Rightarrow> (upstream_conn option \<times> string option) \<times> bool" where
  "setup_upstream io scheme =
     (case (if io_has_deadline io then io_set_deadline io else None) of
        Some e \<Rightarrow> ((None, Some e), False)
      | None \<Rightarrow>
          if scheme = ''socks5'' \<or> scheme = ''socks5h'' then socks_connect io
          else if scheme = ''https'' then tls_connect io
          else plain_connect io)"

text \<open>What the call returns and leaves behind: whether the socket and a connection on it were closed.\<close>

record dialed =
  d_result :: "upstream_conn option"
  d_err :: "string option"
  raw_closed :: bool
  result_closed :: bool
  deadline_cleared :: bool

definition dial_deferred :: "upstream_io \<Rightarrow> (upstream_conn option \<times> string option) \<times> bool \<Rightarrow> dialed" where
  "dial_deferred io x =
     (case x of ((result, err), cleared) \<Rightarrow>
      let err = (if io_fired io \<and> err = None then io_end io else err);
          err = (if err = None \<and> io_end io \<noteq> None then io_end io else err)
      in if err \<noteq> None
         then \<lparr>d_result = None, d_err = err, raw_closed = True, result_closed = (result \<noteq> None), deadline_cleared = cleared\<rparr>
         else \<lparr>d_result = result, d_err = None, raw_closed = io_fired io, result_closed = False, deadline_cleared = cleared\<rparr>)"

definition default_port :: "string \<Rightarrow> string option" where
  "default_port scheme =
     (if scheme = ''http'' then Some ''80''
      else if scheme = ''https'' then Some ''443''
      else if scheme = ''socks5'' \<or> scheme = ''socks5h'' then Some ''1080''
      else None)"

definition target_ok :: "string \<Rightarrow> bool" where
  "target_ok target \<longleftrightarrow>
     (case SplitHostPort target of
        Ok (host, port) \<Rightarrow>
          host \<noteq> [] \<and> (case ParseUint port 16 of Ok n \<Rightarrow> n \<noteq> 0 | _ \<Rightarrow> False)
          \<and> \<not> contains_any target [CHR 0x0D, CHR 0x0A, CHR 0x09, CHR '' '']
      | _ \<Rightarrow> False)"

text \<open>
  \<open>dialUpstreamTLS\<close>: an error before anything was opened, or the address that was dialled with what became of it.
\<close>

definition dialUpstreamTLS ::
  "upstream_io \<Rightarrow> string \<Rightarrow> proxy_url option \<Rightarrow> string + string \<times> (string + dialed)" where
  "dialUpstreamTLS io target u =
     (if \<not> target_ok target then Inl ''invalid upstream target authority''
      else case u of
        None \<Rightarrow> Inl ''invalid upstream URL''
      | Some u \<Rightarrow>
          if Hostname u = [] then Inl ''invalid upstream URL''
          else case default_port (to_lower (Scheme u)) of
            None \<Rightarrow> Inl ''unsupported upstream scheme''
          | Some port \<Rightarrow>
              let address = JoinHostPort (Hostname u) (if proxy_port u = [] then port else proxy_port u) in
              Inr (address,
                case io_dial io of
                  Some e \<Rightarrow> Inl (upstreamSetupError io ''dial'' e)
                | None \<Rightarrow> Inr (dial_deferred io (setup_upstream io (to_lower (Scheme u))))))"

section \<open>Response headers\<close>

text \<open>
  \<open>upstreamHeaderReader.Read\<close> with a buffer of \<open>n\<close> bytes; a negative \<open>remaining\<close> means no limit. \<open>reader\<close> is the
  connection: it gets the room and returns at most that many bytes.
\<close>

definition header_read :: "(nat \<Rightarrow> bytes \<times> string option) \<Rightarrow> int \<Rightarrow> nat \<Rightarrow> int \<times> bytes \<times> string option" where
  "header_read reader remaining n =
     (if remaining = 0 then (0, [], Some ''upstream response headers too large'')
      else
        let room = (if remaining > 0 \<and> int n > remaining then nat remaining else n)
        in case reader room of
             (got, err) \<Rightarrow> ((if remaining > 0 then remaining - int (length got) else remaining), got, err))"

text \<open>The bytes of a sequence of reads.\<close>

fun header_reads :: "(nat \<Rightarrow> bytes \<times> string option) list \<Rightarrow> nat list \<Rightarrow> int \<Rightarrow> int \<times> bytes" where
  "header_reads (reader # readers) (n # ns) remaining =
     (case header_read reader remaining n of
        (remaining, got, _) \<Rightarrow> (case header_reads readers ns remaining of (final, bs) \<Rightarrow> (final, got @ bs)))"
| "header_reads _ _ remaining = (remaining, [])"

section \<open>The HTTP/2 tunnel\<close>

text \<open>
  \<open>upstreamH2Conn\<close>: the deadlines of the two directions and, in \<open>h2_released\<close>, what was closed, in order. A timer is
  named by the generation it was made for. Stopping a timer does not recall a callback that already waits for the
  lock, so a callback may run at any later time.
\<close>

record upstreamH2Conn =
  h2_closed :: bool
  readTimer :: "u64 option"
  writeTimer :: "u64 option"
  readExpired :: bool
  writeExpired :: bool
  readGeneration :: u64
  writeGeneration :: u64
  h2_released :: "h2_resource list"

text \<open>\<^verbatim>\<open>Close\<close> runs once.\<close>

definition h2_close :: "upstreamH2Conn \<Rightarrow> upstreamH2Conn" where
  "h2_close c =
     (if h2_closed c then c
      else c\<lparr>h2_closed := True, h2_released := h2_released c @ [H2_context, H2_output, H2_body, H2_client, H2_conn]\<rparr>)"

definition timer_generation :: "bool \<Rightarrow> upstreamH2Conn \<Rightarrow> u64" where
  "timer_generation read c = (if read then readGeneration c else writeGeneration c)"

definition setDeadline :: "upstreamH2Conn \<Rightarrow> bool \<Rightarrow> bool \<Rightarrow> upstreamH2Conn \<times> string option" where
  "setDeadline c deadline read =
     (if h2_closed c then (c, Some ''use of closed network connection'')
      else
        let current = timer_generation read c + 1; timer = (if deadline then Some current else None)
        in (if read then c\<lparr>readGeneration := current, readTimer := timer\<rparr>
            else c\<lparr>writeGeneration := current, writeTimer := timer\<rparr>, None))"

text \<open>
  The callback of the timer that was made for generation \<open>current\<close>: its locked section, and whether it then calls
  \<open>h2_close\<close>. It releases the lock in between, so that other calls may run before the tunnel is closed.
\<close>

definition timer_fired :: "upstreamH2Conn \<Rightarrow> bool \<Rightarrow> u64 \<Rightarrow> upstreamH2Conn \<times> bool" where
  "timer_fired c read current =
     (if h2_closed c \<or> timer_generation read c \<noteq> current then (c, False)
      else (if read then c\<lparr>readExpired := True\<rparr> else c\<lparr>writeExpired := True\<rparr>, True))"

definition SetDeadline_h2 :: "upstreamH2Conn \<Rightarrow> bool \<Rightarrow> upstreamH2Conn \<times> string option" where
  "SetDeadline_h2 c deadline =
     (case setDeadline c deadline True of
        (c, Some e) \<Rightarrow> (c, Some e)
      | (c, None) \<Rightarrow> setDeadline c deadline False)"

text \<open>The error of a read or a write, after an expired deadline closed the connection.\<close>

definition h2_error :: "bool \<Rightarrow> upstreamH2Conn \<Rightarrow> string option \<Rightarrow> string option" where
  "h2_error read c err =
     (if err \<noteq> None \<and> (if read then readExpired c else writeExpired c) then Some ''i/o timeout'' else err)"

section \<open>Lemmas\<close>

lemma header_read_room:
  assumes "header_read reader remaining n = (rem', got, err)" and "\<And>m. length (fst (reader m)) \<le> m" and "0 \<le> remaining"
  shows "0 \<le> rem' \<and> int (length got) = remaining - rem'"
proof (cases "remaining = 0")
  case False
  let ?room = "if int n > remaining then nat remaining else n"
  obtain g e where r: "reader ?room = (g, e)" by force
  have "int (length g) \<le> remaining" using assms(2) [of ?room] assms(3) r by (auto split: if_splits)
  then show ?thesis using assms(1,3) False r by (auto simp: header_read_def Let_def)
qed (use assms in \<open>simp add: header_read_def\<close>)

lemma header_reads_limit:
  assumes "list_all (\<lambda>reader. \<forall>m. length (fst (reader m)) \<le> m) readers" and "0 \<le> remaining"
  shows "int (length (snd (header_reads readers ns remaining))) \<le> remaining"
  using assms
proof (induction readers ns remaining rule: header_reads.induct)
  case (1 reader readers n ns remaining)
  obtain rem' got err where h: "header_read reader remaining n = (rem', got, err)" by (metis prod_cases3)
  have "0 \<le> rem' \<and> int (length got) = remaining - rem'" using header_read_room [OF h] 1(2,3) by simp
  then show ?case using 1(1) [OF h [symmetric]] 1(2) h by (auto split: prod.split)
qed auto

text \<open>The callback of an earlier deadline does nothing, as long as the generations have not come around.\<close>

fun set_deadlines :: "upstreamH2Conn \<Rightarrow> bool list \<Rightarrow> bool \<Rightarrow> upstreamH2Conn" where
  "set_deadlines c [] read = c"
| "set_deadlines c (d # ds) read = set_deadlines (fst (setDeadline c d read)) ds read"

lemma set_deadlines_generation:
  "\<not> h2_closed c \<Longrightarrow> \<not> h2_closed (set_deadlines c ds read)
     \<and> timer_generation read (set_deadlines c ds read) = timer_generation read c + of_nat (length ds)"
proof (induction ds arbitrary: c)
  case (Cons d ds)
  let ?c = "fst (setDeadline c d read)"
  have "\<not> h2_closed ?c" "timer_generation read ?c = timer_generation read c + 1"
    using Cons.prems by (auto simp: setDeadline_def timer_generation_def Let_def)
  then show ?case using Cons.IH [of ?c] by simp
qed simp

lemma stale_timer:
  assumes "0 < length ds" and "length ds < 2 ^ 64"
  shows "timer_fired (set_deadlines c ds read) read (timer_generation read c) = (set_deadlines c ds read, False)"
proof (cases "h2_closed c")
  case True
  have "set_deadlines c ds read = c" using True by (induction ds) (simp_all add: setDeadline_def)
  then show ?thesis using True by (simp add: timer_fired_def)
next
  case False
  have "unat (of_nat (length ds) :: u64) = length ds" using assms(2) by (simp add: unat_of_nat_small)
  then have "(of_nat (length ds) :: u64) \<noteq> 0" using assms(1) by auto
  then show ?thesis using set_deadlines_generation [OF False, of ds read] by (simp add: timer_fired_def)
qed

text \<open>A callback that found its deadline in force closes the tunnel, whatever deadlines are set before it does.\<close>

lemma set_deadlines_keep:
  "readExpired (set_deadlines c ds read) = readExpired c" "writeExpired (set_deadlines c ds read) = writeExpired c"
  "h2_released (set_deadlines c ds read) = h2_released c" "h2_closed (set_deadlines c ds read) = h2_closed c"
  by (induction ds arbitrary: c) (simp_all add: setDeadline_def Let_def)

lemma current_timer:
  assumes "timer_fired c read current = (c', True)"
  shows "\<not> h2_closed c \<and> timer_generation read c = current
    \<and> h2_closed (h2_close (set_deadlines c' ds other))
    \<and> h2_released (h2_close (set_deadlines c' ds other)) = h2_released c @ [H2_context, H2_output, H2_body, H2_client, H2_conn]
    \<and> h2_error read (h2_close (set_deadlines c' ds other)) (Some e) = Some ''i/o timeout''"
  using assms by (auto simp: timer_fired_def h2_close_def h2_error_def set_deadlines_keep split: if_splits)

text \<open>Before the clean-up a connection is there exactly if there is no error, one path apart, and then no deadline is left.\<close>

definition setup_ok :: "(upstream_conn option \<times> string option) \<times> bool \<Rightarrow> bool" where
  "setup_ok x \<longleftrightarrow> snd (fst x) = None \<longrightarrow> fst (fst x) \<noteq> None \<and> snd x"

lemma setup_upstream_ok: "setup_ok (setup_upstream io scheme)"
proof -
  have "setup_ok (socks_connect io)" "setup_ok (plain_connect io)"
    by (simp_all add: setup_ok_def socks_connect_def plain_connect_def split: option.split sum.split)
  moreover from this have "setup_ok (tls_connect io)"
    by (simp add: tls_connect_def split: option.split sum.split) (simp add: setup_ok_def)
  ultimately show ?thesis by (simp add: setup_upstream_def split: option.split) (simp add: setup_ok_def)
qed

definition dialed_ok :: "upstream_io \<Rightarrow> dialed \<Rightarrow> bool" where
  "dialed_ok io d \<longleftrightarrow>
     (if d_err d = None
      then d_result d \<noteq> None \<and> \<not> raw_closed d \<and> \<not> result_closed d \<and> deadline_cleared d \<and> io_end io = None
      else d_result d = None \<and> raw_closed d)"

lemma dial_deferred_ok:
  assumes "io_fired io \<longrightarrow> io_end io \<noteq> None"
  shows "dialed_ok io (dial_deferred io (setup_upstream io scheme))"
proof -
  obtain result err cleared where s: "setup_upstream io scheme = ((result, err), cleared)" by (metis prod.collapse)
  have "err = None \<longrightarrow> result \<noteq> None \<and> cleared" using setup_upstream_ok [of io scheme] by (simp add: s setup_ok_def)
  then show ?thesis using assms by (auto simp: s dial_deferred_def dialed_ok_def Let_def)
qed

section \<open>Properties\<close>


text \<open>A proxy that accepts a tunnel over HTTP/2, after which a read deadline is set and cleared.\<close>

definition io_demo :: upstream_io where
  "io_demo = \<lparr>io_dial = None, io_has_deadline = True, io_set_deadline = None, io_socks_new = None, io_socks_dial = None,
     io_tls = Inr ''h2'', io_h2_client = None, io_h2_round = Inr 200, io_write = None, io_response = Inr 200, io_clear = None,
     io_ctx = (\<lambda>_. (None, False)), io_fired = False, io_end = None\<rparr>"

definition proxy_demo :: proxy_url where
  "proxy_demo = \<lparr>Scheme = ''HTTPS'', Hostname = ''proxy.example'', proxy_port = [], proxy_user = None\<rparr>"

definition tunnel_demo :: upstreamH2Conn where
  "tunnel_demo = \<lparr>h2_closed = False, readTimer = Some 1, writeTimer = None, readExpired = False, writeExpired = False,
     readGeneration = 1, writeGeneration = 0, h2_released = []\<rparr>"

lemma upstream_demo:
  "dialUpstreamTLS io_demo ''host:443'' (Some proxy_demo) = Inr (''proxy.example:443'', Inr
     \<lparr>d_result = Some U_h2, d_err = None, raw_closed = False, result_closed = False, deadline_cleared = True\<rparr>)"
proof -
  have "SplitHostPort ''host:443'' = Ok (''host'', ''443'')" by code_simp
  moreover have "ParseUint ''443'' 16 = Ok 443" by (simp add: ParseUint_def digits_value_def is_digit_def)
  ultimately have "target_ok ''host:443''" by (simp add: target_ok_def contains_any_def)
  moreover have "to_lower ''HTTPS'' = ''https''" by code_simp
  ultimately show ?thesis
    by (simp add: dialUpstreamTLS_def proxy_demo_def default_port_def JoinHostPort_def setup_upstream_def tls_connect_def
        dialUpstreamH2_def dial_deferred_def io_demo_def Let_def)
qed


end
