(* ===== verification/Site_Graph.thy ===== *)
theory Site_Graph
  imports Static_Files
begin

text \<open>
  The resources that the initial document declares: \<^verbatim>\<open>application_graph.go\<close>. The HTML parser and the parser and
  resolver of \<^verbatim>\<open>net/url\<close> are parameters; the tree of the document is a datatype, and every rule on declarations and
  references is the code's.
\<close>

section \<open>Text\<close>

text \<open>
  Comparison with ASCII text under simple Unicode case folding: besides the ASCII letters only U+017F (bytes C5 BF)
  and U+212A (bytes E2 84 AA) fold to an ASCII letter.
\<close>

fun fold_case :: "string \<Rightarrow> string" where
  "fold_case (a # b # c # s) =
     (if a = char_of (0xE2 :: nat) \<and> b = char_of (0x84 :: nat) \<and> c = char_of (0xAA :: nat) then CHR ''k'' # fold_case s
      else if a = char_of (0xC5 :: nat) \<and> b = char_of (0xBF :: nat) then CHR ''s'' # fold_case (c # s)
      else lower_byte a # fold_case (b # c # s))"
| "fold_case [a, b] = (if a = char_of (0xC5 :: nat) \<and> b = char_of (0xBF :: nat) then ''s'' else [lower_byte a, lower_byte b])"
| "fold_case [a] = [lower_byte a]"
| "fold_case [] = []"

definition EqualFold :: "string \<Rightarrow> string \<Rightarrow> bool" where
  "EqualFold s t \<longleftrightarrow> fold_case s = fold_case t"

text \<open>Unicode white space, written as UTF-8: every rune of it becomes one blank.\<close>

definition space1 :: "char \<Rightarrow> bool" where
  "space1 c \<longleftrightarrow> (let n = of_char c :: nat in (9 \<le> n \<and> n \<le> 13) \<or> n = 32)"

definition space2 :: "char \<Rightarrow> char \<Rightarrow> bool" where
  "space2 a b \<longleftrightarrow> of_char a = (0xC2 :: nat) \<and> (of_char b = (0x85 :: nat) \<or> of_char b = (0xA0 :: nat))"

definition space3 :: "char \<Rightarrow> char \<Rightarrow> char \<Rightarrow> bool" where
  "space3 a b c \<longleftrightarrow> (let x = of_char a :: nat; y = of_char b :: nat; z = of_char c :: nat in
     (x = 0xE1 \<and> y = 0x9A \<and> z = 0x80)
     \<or> (x = 0xE2 \<and> y = 0x80 \<and> (0x80 \<le> z \<and> z \<le> 0x8A \<or> z = 0xA8 \<or> z = 0xA9 \<or> z = 0xAF))
     \<or> (x = 0xE2 \<and> y = 0x81 \<and> z = 0x9F) \<or> (x = 0xE3 \<and> y = 0x80 \<and> z = 0x80))"

fun blanks :: "string \<Rightarrow> string" where
  "blanks (a # b # c # s) =
     (if space1 a then CHR '' '' # blanks (b # c # s)
      else if space2 a b then CHR '' '' # blanks (c # s)
      else if space3 a b c then CHR '' '' # blanks s
      else a # blanks (b # c # s))"
| "blanks [a, b] =
     (if space1 a then CHR '' '' # blanks [b] else if space2 a b then '' '' else a # blanks [b])"
| "blanks [a] = (if space1 a then '' '' else [a])"
| "blanks [] = []"

definition Fields :: "string \<Rightarrow> string list" where
  "Fields s = filter (\<lambda>f. f \<noteq> []) (split_on CHR '' '' (blanks s))"

definition blank :: "string \<Rightarrow> bool" where
  "blank s \<longleftrightarrow> list_all (\<lambda>c. c = CHR '' '') (blanks s)"

fun join_with :: "string \<Rightarrow> string list \<Rightarrow> string" where
  "join_with sep [] = []"
| "join_with sep [s] = s"
| "join_with sep (s # t # ss) = s @ sep @ join_with sep (t # ss)"

text \<open>\<^verbatim>\<open>strings.Trim\<close> with a set of ASCII characters.\<close>

definition trim_chars :: "string \<Rightarrow> string \<Rightarrow> string" where
  "trim_chars s cs = rev (dropWhile (\<lambda>c. c \<in> set cs) (rev (dropWhile (\<lambda>c. c \<in> set cs) s)))"

section \<open>Declarations\<close>

text \<open>An element of the document with its tag, namespace, attributes and children, or another node.\<close>

datatype html_node = Element string string "(string \<times> string) list" "html_node list" | OtherNode "html_node list"

definition has_attr :: "(string \<times> string) list \<Rightarrow> string \<Rightarrow> bool" where
  "has_attr a key \<longleftrightarrow> map_of a key \<noteq> None"

definition attr :: "(string \<times> string) list \<Rightarrow> string \<Rightarrow> string" where
  "attr a key = (case map_of a key of None \<Rightarrow> [] | Some v \<Rightarrow> v)"

definition unsupported :: "(string \<times> string) list \<Rightarrow> string list \<Rightarrow> bool" where
  "unsupported a keys \<longleftrightarrow> list_ex (has_attr a) keys"

text \<open>The reference and the kind of an element, both empty if it declares none, or an error.\<close>

type_synonym site_decl = "(string, string \<times> string) outcome"

definition decl_fail :: "string \<Rightarrow> site_decl" where
  "decl_fail tag = Fail (''unsupported automatic resource declaration: <'' @ tag @ ''>'')"

definition link_declaration :: "string \<Rightarrow> (string \<times> string) list \<Rightarrow> site_decl" where
  "link_declaration tag a =
     (let rel = to_lower (join_with '' '' (Fields (attr a ''rel''))) in
      if rel = ''stylesheet'' then
        (if unsupported a [''disabled'', ''media'', ''title''] then decl_fail tag else Ok (attr a ''href'', ''style''))
      else if rel = ''preload'' then
        (if \<not> EqualFold (attr a ''as'') ''image'' \<or> unsupported a [''imagesrcset'', ''imagesizes'', ''media'']
         then decl_fail tag else Ok (attr a ''href'', ''image''))
      else if rel = ''icon'' \<or> rel = ''shortcut icon'' then
        (if unsupported a [''media'', ''sizes''] then decl_fail tag else Ok (attr a ''href'', ''image''))
      else if rel \<in> {[], ''canonical'', ''alternate'', ''author'', ''help'', ''license'', ''next'', ''prev'', ''search''}
      then Ok ([], [])
      else decl_fail tag)"

definition script_declaration :: "string \<Rightarrow> (string \<times> string) list \<Rightarrow> site_decl" where
  "script_declaration tag a =
     (if \<not> has_attr a ''src'' then
        (if EqualFold (attr a ''type'') ''module'' \<or> EqualFold (attr a ''type'') ''importmap''
            \<or> EqualFold (attr a ''type'') ''speculationrules'' then decl_fail tag else Ok ([], []))
      else if \<not> has_attr a ''defer'' \<or> unsupported a [''async'', ''nomodule'']
              \<or> (attr a ''type'' \<noteq> [] \<and> \<not> EqualFold (attr a ''type'') ''text/javascript''
                 \<and> \<not> EqualFold (attr a ''type'') ''application/javascript'')
      then decl_fail tag
      else Ok (attr a ''src'', ''script''))"

definition applicationDeclaration :: "string \<Rightarrow> string \<Rightarrow> (string \<times> string) list \<Rightarrow> site_decl" where
  "applicationDeclaration tag namespace a =
     (if namespace \<noteq> [] then (if unsupported a [''href'', ''src''] then decl_fail tag else Ok ([], []))
      else if tag = ''base'' then decl_fail tag
      else if tag = ''meta'' \<and> (EqualFold (attr a ''http-equiv'') ''refresh''
          \<or> EqualFold (attr a ''http-equiv'') ''content-security-policy'' \<or> EqualFold (attr a ''name'') ''referrer'')
      then decl_fail tag
      else if tag \<in> {''iframe'', ''frame'', ''object'', ''embed'', ''audio'', ''video'', ''source'', ''picture''} then decl_fail tag
      else
        let found =
          (if tag = ''link'' then link_declaration tag a
           else if tag = ''script'' then script_declaration tag a
           else if tag = ''img'' then
             (if unsupported a [''srcset'', ''sizes''] \<or> (has_attr a ''loading'' \<and> \<not> EqualFold (attr a ''loading'') ''eager'')
              then decl_fail tag else Ok (attr a ''src'', ''image''))
           else if tag = ''input'' then
             (if EqualFold (attr a ''type'') ''image'' then decl_fail tag else Ok ([], []))
           else Ok ([], []))
        in case found of
          Ok (ref, kind) \<Rightarrow>
            if kind = [] then Ok ([], [])
            else if unsupported a [''crossorigin'', ''integrity'', ''nonce'', ''referrerpolicy'', ''fetchpriority'', ''charset'']
                    \<or> blank ref
            then decl_fail tag
            else Ok (ref, kind)
        | other \<Rightarrow> other)"

section \<open>References\<close>

text \<open>
  The URL of \<^verbatim>\<open>net/url\<close> as far as the code looks at it. \<open>parse_url\<close> is \<^verbatim>\<open>url.Parse\<close>, \<open>resolve\<close> resolves against the
  root, and \<open>request_uri\<close> is \<^verbatim>\<open>RequestURI\<close> without the fragment.
\<close>

record site_url =
  u_abs :: bool
  u_host :: string
  u_user :: bool
  u_opaque :: string
  u_path :: string

definition reserved_route :: "string \<Rightarrow> bool" where
  "reserved_route path \<longleftrightarrow> path = ''/'' \<or> path = ''/index.html'' \<or> isCarrierPath path \<or> path = ''/api/realtime''
     \<or> has_prefix path ''/__lab/''"

definition applicationReference ::
  "(string \<Rightarrow> site_url option) \<Rightarrow> (site_url \<Rightarrow> site_url) \<Rightarrow> (site_url \<Rightarrow> string) \<Rightarrow> string \<Rightarrow> string \<Rightarrow> (string, siteResource option) outcome" where
  "applicationReference parse_url resolve request_uri raw kind =
     (let raw = trim_chars raw [CHR '' '', CHR 0x09, CHR 0x0D, CHR 0x0A, CHR 0x0C] in
      if has_prefix (to_lower raw) ''data:'' then Ok None
      else if contains_any raw [CHR 0x5C, CHR 0x00, CHR 0x0D, CHR 0x0A, CHR 0x09] \<or> has_prefix raw ''//''
      then Fail ''resource URL must be a local relative or root-relative URL''
      else case parse_url raw of
        None \<Rightarrow> Fail ''invalid local resource URL''
      | Some u \<Rightarrow>
          if u_abs u \<or> u_host u \<noteq> [] \<or> u_user u \<or> u_opaque u \<noteq> [] then Fail ''invalid local resource URL''
          else if list_ex (\<lambda>component. component = ''..'') (split_on CHR ''/'' (u_path u)) then Fail ''resource path traversal''
          else
            let u = resolve u in
            if reserved_route (u_path u) then Fail (''resource collides with reserved route '' @ u_path u)
            else if contains_any (u_path u) [CHR 0x5C, CHR 0x00] \<or> Clean (u_path u) \<noteq> u_path u \<or> has_suffix (u_path u) ''/''
            then Fail ''resource must name a canonical regular file''
            else Ok (Some \<lparr>URI = request_uri u, res_path = u_path u, res_kind = kind\<rparr>))"

section \<open>Discovery\<close>

text \<open>The resources found so far, in order, and the kind of every URI; a missing resource has the empty URI.\<close>

type_synonym site_graph = "siteResource list \<times> (string \<times> string) list"

definition add_resource :: "siteResource option \<Rightarrow> site_graph \<Rightarrow> (string, site_graph) outcome" where
  "add_resource found g =
     (case found of
        None \<Rightarrow> Ok g
      | Some res \<Rightarrow>
          if URI res = [] then Ok g
          else (case g of (found, known) \<Rightarrow>
            (case map_of known (URI res) of
               Some previous \<Rightarrow>
                 if previous \<noteq> res_kind res then Fail (''conflicting resource kinds for '' @ URI res) else Ok g
             | None \<Rightarrow> Ok (found @ [res], (URI res, res_kind res) # known))))"

text \<open>Of two attributes with one name the first counts, which is what the lookup in a list does.\<close>

fun visit :: "(string \<Rightarrow> string \<Rightarrow> (string, siteResource option) outcome) \<Rightarrow> html_node \<Rightarrow> site_graph \<Rightarrow> (string, site_graph) outcome"
  and visit_all :: "(string \<Rightarrow> string \<Rightarrow> (string, siteResource option) outcome) \<Rightarrow> html_node list \<Rightarrow> site_graph \<Rightarrow> (string, site_graph) outcome" where
  "visit reference (OtherNode children) g = visit_all reference children g"
| "visit reference (Element tag namespace attrs children) g =
     (if tag = ''template'' \<or> tag = ''noscript'' then Ok g
      else and_then (applicationDeclaration tag namespace attrs) (\<lambda>(ref, kind).
        and_then (if ref \<noteq> [] then and_then (reference ref kind) (\<lambda>res. add_resource res g) else Ok g)
          (visit_all reference children)))"
| "visit_all reference [] g = Ok g"
| "visit_all reference (n # ns) g = and_then (visit reference n g) (visit_all reference ns)"

definition discoverApplication ::
  "(bytes \<Rightarrow> bool) \<Rightarrow> (bytes \<Rightarrow> (string, html_node) outcome) \<Rightarrow> (string \<Rightarrow> string \<Rightarrow> (string, siteResource option) outcome) \<Rightarrow> bytes
     \<Rightarrow> (string, siteResource list) outcome" where
  "discoverApplication utf8_valid html_parse reference body =
     (if length body = 0 \<or> \<not> utf8_valid body \<or> 0 \<in> set body then Fail ''index.html must be nonempty NUL-free UTF-8''
      else and_then (html_parse body) (\<lambda>doc. and_then (visit reference doc ([], [])) (\<lambda>(found, _). Ok found)))"

end
