(* ===== verification/Application.thy ===== *)
theory Application
  imports Site_Graph
begin

text \<open>
  Loading the site: \<^verbatim>\<open>application.go\<close>. What the file system returns for one access is a parameter of each step, so that a
  file may change between two steps; the media types of the standard library, UTF-8 validation and SHA-256 are
  parameters too.
\<close>

section \<open>Reading and verifying a file\<close>

record file_stat =
  st_symlink :: bool
  st_regular :: bool
  st_file :: nat
  st_size :: int
  st_mtime :: int

text \<open>The results of one reading: the file before it is opened, opening it, the open file, its content, and the file after.\<close>

record file_read =
  f_lstat :: "string + file_stat"
  f_open :: "string option"
  f_after :: "string + file_stat"
  f_body :: "string + bytes"
  f_final :: "string + file_stat"

definition changed :: "string \<Rightarrow> string" where
  "changed name = name @ '': file changed during application load''"

definition readApplicationFile :: "(string \<Rightarrow> file_read) \<Rightarrow> string \<Rightarrow> (string, bytes) outcome" where
  "readApplicationFile files name =
     (let f = files name in
      case f_lstat f of
        Inl e \<Rightarrow> Fail (name @ '': '' @ e)
      | Inr before \<Rightarrow>
          if st_symlink before \<or> \<not> st_regular before then Fail (name @ '': not a regular file or is a symlink'')
          else case f_open f of
            Some e \<Rightarrow> Fail (name @ '': '' @ e)
          | None \<Rightarrow>
              (case f_after f of
                 Inl e \<Rightarrow> Fail e
               | Inr after \<Rightarrow>
                   if \<not> st_regular after \<or> st_file before \<noteq> st_file after then Fail (changed name)
                   else (case f_body f of
                       Inl e \<Rightarrow> Fail e
                     | Inr body \<Rightarrow>
                         (case f_final f of
                            Inl _ \<Rightarrow> Fail (changed name)
                          | Inr final \<Rightarrow>
                              if int (length body) \<noteq> st_size after \<or> st_size final \<noteq> st_size after
                                 \<or> st_mtime final \<noteq> st_mtime after
                              then Fail (changed name) else Ok body))))"

text \<open>
  The results of one verification: opening, the open file, and what the reads return, full reads first and the one that
  reports the end of the file or another error last.
\<close>

record file_verify =
  v_open :: "string option"
  v_info :: "string + file_stat"
  v_reads :: "bytes list"
  v_last :: bytes
  v_err :: "string option"

definition chunk_ok :: "bytes \<Rightarrow> nat \<Rightarrow> bytes \<Rightarrow> bool" where
  "chunk_ok expected offset got \<longleftrightarrow>
     \<not> (int (length got) > int (length expected) - int offset \<or> got \<noteq> take (length got) (drop offset expected))"

fun verify_loop :: "string \<Rightarrow> bytes \<Rightarrow> nat \<Rightarrow> bytes list \<Rightarrow> bytes \<Rightarrow> string option \<Rightarrow> string option" where
  "verify_loop name expected offset (got # reads) final err =
     (if \<not> chunk_ok expected offset got then Some (changed name)
      else verify_loop name expected (offset + length got) reads final err)"
| "verify_loop name expected offset [] final err =
     (if \<not> chunk_ok expected offset final then Some (changed name)
      else if err \<noteq> None then err
      else if offset + length final \<noteq> length expected then Some (changed name) else None)"

definition verifyApplicationFile :: "(string \<Rightarrow> file_verify) \<Rightarrow> string \<Rightarrow> bytes \<Rightarrow> string option" where
  "verifyApplicationFile files name expected =
     (let f = files name in
      case v_open f of
        Some e \<Rightarrow> Some e
      | None \<Rightarrow>
          (case v_info f of
             Inl _ \<Rightarrow> Some (changed name)
           | Inr info \<Rightarrow>
               if \<not> st_regular info \<or> st_size info \<noteq> int (length expected) then Some (changed name)
               else verify_loop name expected 0 (v_reads f) (v_last f) (v_err f)))"

section \<open>Media types\<close>

text \<open>\<^verbatim>\<open>filepath.Ext\<close>: the suffix of the last path element from its last dot.\<close>

definition Ext :: "string \<Rightarrow> string" where
  "Ext name =
     (let base = rev (takeWhile (\<lambda>c. c \<noteq> CHR ''/'') (rev name)) in
      if CHR ''.'' \<in> set base then CHR ''.'' # rev (takeWhile (\<lambda>c. c \<noteq> CHR ''.'') (rev base)) else [])"

definition contains_text :: "string \<Rightarrow> string \<Rightarrow> bool" where
  "contains_text s p \<longleftrightarrow> list_ex (\<lambda>i. has_prefix (drop i s) p) [0..<Suc (length s)]"

record media_lib =
  type_by_extension :: "string \<Rightarrow> string"
  detect_content_type :: "bytes \<Rightarrow> string"
  parse_media_type :: "string \<Rightarrow> string + string"
  utf8_valid :: "bytes \<Rightarrow> bool"

definition body_text :: "bytes \<Rightarrow> string" where
  "body_text body = map (\<lambda>b. char_of (unat b)) body"

definition applicationMIME :: "media_lib \<Rightarrow> string \<Rightarrow> string \<Rightarrow> bytes \<Rightarrow> (string, string) outcome" where
  "applicationMIME lib name kind body =
     (let found =
        (if kind = ''style'' then Ok ''text/css''
         else if kind = ''script'' then Ok ''text/javascript''
         else if kind = ''image'' then
           (let typ = type_by_extension lib (to_lower (Ext name));
                typ = (if typ = [] then detect_content_type lib body else typ)
            in if \<not> has_prefix typ ''image/'' then Fail (name @ '': expected an image Content-Type'')
               else if has_prefix typ ''image/svg+xml''
                  \<and> (\<not> contains_text (to_lower (body_text body)) ''<svg'' \<or> \<not> contains_text (to_lower (body_text body)) ''</svg>'')
               then Fail (name @ '': expected complete SVG markup'')
               else Ok typ)
         else Ok [])
      in and_then found (\<lambda>typ.
        if (kind = ''style'' \<or> kind = ''script'') \<and> (\<not> utf8_valid lib body \<or> 0 \<in> set body)
        then Fail (name @ '': expected NUL-free UTF-8'') else Ok typ))"

section \<open>The snapshot\<close>

text \<open>The identity is a digest of length-prefixed fields.\<close>

definition snapshotField :: "bytes \<Rightarrow> bytes \<Rightarrow> bytes" where
  "snapshotField h body = h @ put_u64 (of_nat (length body)) @ body"

text \<open>One resource: its asset is read, or compared with the one of the same path, and its fields go into the digest.\<close>

definition resource_asset ::
  "media_lib \<Rightarrow> (string \<Rightarrow> file_read) \<Rightarrow> applicationFiles \<Rightarrow> siteResource \<Rightarrow> (string, applicationFiles \<times> applicationAsset) outcome" where
  "resource_asset lib files app res =
     (case asset app (res_path res) of
        None \<Rightarrow>
          let name = trim_prefix (res_path res) ''/'' in
          and_then (readApplicationFile files name) (\<lambda>data.
          and_then (applicationMIME lib name (res_kind res) data) (\<lambda>typ.
            let found = \<lparr>asset_body = data, mime = typ\<rparr>
            in Ok (app\<lparr>assets := AList.update (res_path res) found (assets app)\<rparr>, found)))
      | Some found \<Rightarrow>
          (case applicationMIME lib (res_path res) (res_kind res) (asset_body found) of
             Ok typ \<Rightarrow> if typ \<noteq> mime found then Fail (''conflicting resource types for '' @ res_path res) else Ok (app, found)
           | _ \<Rightarrow> Fail (''conflicting resource types for '' @ res_path res)))"

definition add_asset ::
  "(bytes \<Rightarrow> bytes) \<Rightarrow> media_lib \<Rightarrow> (string \<Rightarrow> file_read) \<Rightarrow> siteResource \<Rightarrow> applicationFiles \<times> bytes \<Rightarrow> (string, applicationFiles \<times> bytes) outcome" where
  "add_asset sha lib files res x =
     (case x of (app, h) \<Rightarrow>
      and_then (resource_asset lib files app res) (\<lambda>(app, found).
        if - 1 - bodyBytes app < of_nat (length (asset_body found)) then Fail ''site byte count overflow''
        else
          let app = app\<lparr>bodyBytes := bodyBytes app + of_nat (length (asset_body found))\<rparr>;
              h = snapshotField (snapshotField h (to_bytes (URI res))) (to_bytes (res_kind res))
          in case parse_media_type lib (mime found) of
               Inl e \<Rightarrow> Fail e
             | Inr typ \<Rightarrow> Ok (app, snapshotField (snapshotField h (to_bytes typ)) (sha (asset_body found)))))"

fun add_assets ::
  "(bytes \<Rightarrow> bytes) \<Rightarrow> media_lib \<Rightarrow> (string \<Rightarrow> file_read) \<Rightarrow> siteResource list \<Rightarrow> applicationFiles \<times> bytes \<Rightarrow> (string, applicationFiles \<times> bytes) outcome" where
  "add_assets sha lib files [] x = Ok x"
| "add_assets sha lib files (res # rest) x = and_then (add_asset sha lib files res x) (add_assets sha lib files rest)"

fun verify_assets :: "(string \<Rightarrow> file_verify) \<Rightarrow> (string \<times> applicationAsset) list \<Rightarrow> string option" where
  "verify_assets files [] = None"
| "verify_assets files ((path, found) # rest) =
     (case verifyApplicationFile files (if path = ''/'' then ''index.html'' else trim_prefix path ''/'') (asset_body found) of
        Some e \<Rightarrow> Some e
      | None \<Rightarrow> verify_assets files rest)"

text \<open>\<open>open_root\<close> is an error of opening the directory, \<open>discover\<close> the discovery of resources.\<close>

definition loadApplication ::
  "(bytes \<Rightarrow> bytes) \<Rightarrow> media_lib \<Rightarrow> string option \<Rightarrow> (string \<Rightarrow> file_read) \<Rightarrow> (string \<Rightarrow> file_verify)
     \<Rightarrow> (bytes \<Rightarrow> (string, siteResource list) outcome) \<Rightarrow> string \<Rightarrow> (string, applicationFiles) outcome" where
  "loadApplication sha lib open_root files again discover root =
     (if root = [] then Fail ''application_root is required''
      else if \<not> has_prefix root ''/'' then Fail ''application_root must be an absolute path''
      else case open_root of
        Some e \<Rightarrow> Fail (''application_root: '' @ e)
      | None \<Rightarrow>
          and_then (readApplicationFile files ''index.html'') (\<lambda>body.
          and_then (discover body) (\<lambda>found.
            let app = \<lparr>assets = [(''/'', \<lparr>asset_body = body, mime = ''text/html; charset=utf-8''\<rparr>)], resources = found,
                       app_identity = [], bodyBytes = of_nat (length body), directory = True\<rparr>;
                h = snapshotField (snapshotField [] (to_bytes ''naivefox-site'')) (sha body)
            in and_then (add_assets sha lib files found (app, h)) (\<lambda>(app, h).
                 case verify_assets again (assets app) of
                   Some e \<Rightarrow> Fail e
                 | None \<Rightarrow> Ok (app\<lparr>app_identity := hex_encode (sha h)\<rparr>)))))"

end
