(* ===== verification/Provision.thy ===== *)
theory Provision
  imports Application Registry Auth
begin

text \<open>
  Starting a handler: \<^verbatim>\<open>Provision\<close> of \<^verbatim>\<open>transport.go\<close> and \<^verbatim>\<open>provisionPacket\<close> of \<^verbatim>\<open>packet.go\<close>. The site, the key
  pair and SHA-256 are parameters. The ticker that calls \<open>expire\<close> until the handler stops is a step
  of the registry; log lines are left out.
\<close>

text \<open>\<open>load_pair\<close> says whether \<^verbatim>\<open>tls.LoadX509KeyPair\<close> succeeds.\<close>

definition provisionPacket :: "(string \<Rightarrow> string \<Rightarrow> bool) \<Rightarrow> transport \<Rightarrow> (string, transport) outcome" where
  "provisionPacket load_pair t =
     (if PacketCertificate t = [] \<and> PacketKey t = [] then Ok t
      else if PacketCertificate t = [] \<or> PacketKey t = [] then Fail ''packet_tls requires certificate and private key''
      else if \<not> load_pair (PacketCertificate t) (PacketKey t) then Fail ''load packet TLS certificate/key''
      else Ok (t\<lparr>packetTLS := True, packetAdmission := 0, packets := [], packetNonces := []\<rparr>))"

definition zero_counters :: counters where
  "zero_counters =
     \<lparr>PacketPeaks = replicate 33 0, PacketOpened = 0, PacketUploads = 0, PacketDownloads = 0, StartupReplays = 0, H3Opened = 0,
      H3Closed = 0, H3Uploads = 0, H3Downloads = 0, WSOpened = 0, WSClosed = 0, WSMessagesIn = 0, WSMessagesOut = 0,
      WSCellCapacities = None, WSSubprotocols = None, WSUploadBytes = 0, WSDownloadBytes = 0, WSUploadFiller = 0,
      WSDownloadFiller = 0, WSUploadUseful = 0, WSDownloadUseful = 0, WSStartupMinUp = 0, WSStartupMinDown = 0,
      StartupCompleted = 0, IdleHeartbeats = 0, CellCapacities = (\<lambda>_. 0), WriteErrors = 0, Peers = [], Requests = (\<lambda>_. 0),
      Protocols = (\<lambda>_. 0), UploadBytes = 0, DownloadBytes = 0, UploadFiller = 0, DownloadFiller = 0, UploadUseful = 0,
      DownloadUseful = 0, Opens = 0, Rejected = 0\<rparr>"

text \<open>
  The result, and whether the directory of a loaded site was closed again. A handler that fails is discarded.
  \<open>load\<close> loads a site, \<open>parse_url\<close> is the parser of the upstream's URL.
\<close>

definition Provision ::
  "(bytes \<Rightarrow> bytes) \<Rightarrow> (string \<Rightarrow> upstream_url option) \<Rightarrow> (string \<Rightarrow> string \<Rightarrow> bool) \<Rightarrow> (string \<Rightarrow> (string, applicationFiles) outcome)
     \<Rightarrow> transport \<Rightarrow> (string, transport) outcome \<times> bool" where
  "Provision sha parse_url load_pair load t =
     (if MaxSessions t < 0 then (Fail ''max_sessions must be positive'', False)
      else
        let t = (if MaxSessions t = 0 then t\<lparr>MaxSessions := 128\<rparr> else t) in
        case load (ApplicationRoot t) of
          Fail e \<Rightarrow> (Fail (''load application: '' @ e), False)
        | Panic \<Rightarrow> (Panic, False)
        | Ok site \<Rightarrow>
            (case provisionAccess sha parse_url (Access t) of
               Fail e \<Rightarrow> (Fail e, True)
             | Panic \<Rightarrow> (Panic, False)
             | Ok (hashes, tcp) \<Rightarrow>
                 (case provisionPacket load_pair (t\<lparr>authHashes := hashes, policy := Some tcp\<rparr>) of
                    Fail e \<Rightarrow> (Fail e, True)
                  | Panic \<Rightarrow> (Panic, False)
                  | Ok t \<Rightarrow>
                      (Ok (t\<lparr>application := site, sessions := [], t_stats := zero_counters, stopped := False\<rparr>), False))))"

lemma Provision_Ok:
  assumes "fst (Provision sha parse_url load_pair load t) = Ok u"
  obtains tcp where "load (ApplicationRoot t) = Ok (application u)"
    and "provisionAccess sha parse_url (Access t) = Ok (authHashes u, tcp)" and "policy u = Some tcp"
    and "MaxSessions u > 0" and "sessions u = []" and "packetTLS u \<or> packets u = packets t \<and> packetNonces u = packetNonces t"
proof -
  have "\<exists>tcp. load (ApplicationRoot t) = Ok (application u) \<and> provisionAccess sha parse_url (Access t) = Ok (authHashes u, tcp)
    \<and> policy u = Some tcp \<and> MaxSessions u > 0 \<and> sessions u = []
    \<and> (packetTLS u \<or> packets u = packets t \<and> packetNonces u = packetNonces t)"
    using assms by (auto simp: Provision_def provisionPacket_def Let_def split: if_splits outcome.splits)
  then show ?thesis using that by blast
qed

text \<open>A site that was loaded is either used or closed.\<close>

lemma Provision_closes:
  "load (ApplicationRoot t) = Ok site \<Longrightarrow> Provision sha parse_url load_pair load t = (Fail e, closed) \<Longrightarrow> MaxSessions t \<ge> 0 \<Longrightarrow> closed"
  by (auto simp: Provision_def provisionPacket_def Let_def split: if_splits outcome.splits)

end
