(* ===== verification/Site_Properties.thy ===== *)
theory Site_Properties
  imports Provision Router_Properties
begin

text \<open>
  Properties of the site: what discovery accepts, what loading keeps of it, and how the entry point then serves it.
  Verifying a file through a small buffer compares the whole file.
\<close>

section \<open>Verification\<close>

lemma chunk_ok_prefix:
  "offset \<le> length expected \<Longrightarrow> chunk_ok expected offset got \<longleftrightarrow> take (length got) (drop offset expected) = got \<and> offset + length got \<le> length expected"
  by (auto simp: chunk_ok_def)

lemma verify_loop_whole:
  "offset \<le> length expected \<Longrightarrow>
     verify_loop name expected offset reads final err = None \<longleftrightarrow> err = None \<and> concat reads @ final = drop offset expected"
proof (induction name expected offset reads final err rule: verify_loop.induct)
  case (1 name expected offset got reads final err)
  show ?case
  proof (cases "chunk_ok expected offset got")
    case True
    then have "take (length got) (drop offset expected) = got" "offset + length got \<le> length expected"
      using chunk_ok_prefix [OF 1(2)] by auto
    moreover from this have "drop offset expected = got @ drop (offset + length got) expected"
      by (metis append_take_drop_id drop_drop add.commute)
    ultimately show ?thesis using 1(1) True by simp
  next
    case False
    have "got @ xs \<noteq> drop offset expected" for xs
    proof
      assume a: "got @ xs = drop offset expected"
      then have "take (length got) (drop offset expected) = got" by (metis append_eq_conv_conj)
      moreover have "length got \<le> length (drop offset expected)" by (metis a length_append le_add1)
      ultimately show False using False chunk_ok_prefix [OF 1(2)] 1(2) by auto
    qed
    then show ?thesis using False by simp
  qed
next
  case (2 name expected offset final err)
  show ?case
  proof (cases "chunk_ok expected offset final")
    case True
    then show ?thesis using chunk_ok_prefix [OF 2] by auto
  next
    case False
    then show ?thesis using chunk_ok_prefix [OF 2] 2 by auto
  qed
qed

definition content :: "file_verify \<Rightarrow> bytes" where
  "content f = concat (v_reads f) @ v_last f"

lemma verifyApplicationFile_content: "verifyApplicationFile files name expected = None \<Longrightarrow> content (files name) = expected"
  using verify_loop_whole [of 0 expected name]
  by (auto simp: verifyApplicationFile_def content_def Let_def split: option.splits sum.splits if_splits)

definition file_name :: "string \<Rightarrow> string" where
  "file_name path = (if path = ''/'' then ''index.html'' else trim_prefix path ''/'')"

lemma verify_assets_content:
  "verify_assets again xs = None \<Longrightarrow> map_of xs path = Some found \<Longrightarrow> content (again (file_name path)) = asset_body found"
proof (induction again xs rule: verify_assets.induct)
  case (2 files p a rest)
  then show ?case
    using verifyApplicationFile_content [of files "file_name p" "asset_body a"]
    by (cases "p = path") (auto simp: file_name_def split: option.splits)
qed simp

section \<open>Discovery\<close>

definition resource_ok :: "siteResource \<Rightarrow> bool" where
  "resource_ok res \<longleftrightarrow> \<not> reserved_route (res_path res) \<and> Clean (res_path res) = res_path res \<and> \<not> has_suffix (res_path res) ''/''"

lemma applicationReference_ok:
  "applicationReference parse_url rebase request_uri ref kind = Ok (Some res) \<Longrightarrow> resource_ok res \<and> res_kind res = kind"
  by (auto simp: applicationReference_def resource_ok_def Let_def split: if_splits option.splits)

text \<open>The URIs found so far are distinct, and the kinds that are remembered are theirs.\<close>

definition graph_ok :: "(siteResource \<Rightarrow> bool) \<Rightarrow> site_graph \<Rightarrow> bool" where
  "graph_ok P g \<longleftrightarrow> list_all P (fst g) \<and> distinct (map URI (fst g)) \<and> dom (map_of (snd g)) = URI ` set (fst g)"

lemma add_resource_ok:
  assumes "graph_ok P g" and "add_resource found g = Ok g'" and "\<And>res. found = Some res \<Longrightarrow> P res"
  shows "graph_ok P g'"
proof (cases "g' = g")
  case False
  obtain a b where g: "g = (a, b)" by force
  obtain res where res: "found = Some res" "map_of b (URI res) = None" "g' = (a @ [res], (URI res, res_kind res) # b)"
    using assms(2) False g by (auto simp: add_resource_def split: option.splits if_splits)
  then have "URI res \<notin> URI ` set a" using assms(1) g by (auto simp: graph_ok_def)
  then show ?thesis using assms(1) assms(3) [OF res(1)] g res(3) by (simp add: graph_ok_def)
qed (use assms(1) in simp)

lemma visit_ok:
  "(\<forall>ref kind res. reference ref kind = Ok (Some res) \<longrightarrow> P res) \<Longrightarrow> graph_ok P g \<Longrightarrow> visit reference n g = Ok g' \<Longrightarrow> graph_ok P g'"
  "(\<forall>ref kind res. reference ref kind = Ok (Some res) \<longrightarrow> P res) \<Longrightarrow> graph_ok P g \<Longrightarrow> visit_all reference ns g = Ok g' \<Longrightarrow> graph_ok P g'"
proof (induction reference n g and reference ns g arbitrary: g' and g' rule: visit_visit_all.induct)
  case (2 reference tag namespace attrs children g)
  show ?case
  proof (cases "tag = ''template'' \<or> tag = ''noscript''")
    case True
    then show ?thesis using 2(3,4) by auto
  next
    case False
    then obtain ref kind h where d: "applicationDeclaration tag namespace attrs = Ok (ref, kind)"
      and h: "(if ref \<noteq> [] then and_then (reference ref kind) (\<lambda>res. add_resource res g) else Ok g) = Ok h"
      and v: "visit_all reference children h = Ok g'"
      using 2(4) by (auto simp: and_then_Ok_iff)
    have "graph_ok P h"
    proof (cases "ref = []")
      case False
      then obtain x where x: "reference ref kind = Ok x" "add_resource x g = Ok h" using h by (auto simp: and_then_Ok_iff)
      show ?thesis by (rule add_resource_ok [OF 2(3) x(2)]) (use 2(2) x(1) in blast)
    qed (use h 2(3) in simp)
    then show ?thesis using 2(1) [OF False d refl h 2(2) _ v] by simp
  qed
next
  case (4 reference n ns g)
  from 4(5) obtain h where h: "visit reference n g = Ok h" "visit_all reference ns h = Ok g'" by (auto simp: and_then_Ok_iff)
  have "graph_ok P h" by (rule 4(1) [OF 4(3,4) h(1)])
  then show ?case by (rule 4(2) [OF h(1) 4(3) _ h(2)])
next
  case (1 reference children g)
  from 1(4) have "visit_all reference children g = Ok g'" by simp
  then show ?case by (rule 1(1) [OF 1(2,3)])
next
  case (3 reference g)
  from 3(2,3) show ?case by simp
qed

lemma discover_ok:
  assumes "discoverApplication uv parse (applicationReference parse_url rebase request_uri) body = Ok found"
  shows "list_all resource_ok found" "distinct (map URI found)"
proof -
  let ?ref = "applicationReference parse_url rebase request_uri"
  obtain doc known where "visit ?ref doc ([], []) = Ok (found, known)"
    using assms by (auto simp: discoverApplication_def and_then_Ok_iff split: if_splits)
  moreover have "\<forall>ref kind res. ?ref ref kind = Ok (Some res) \<longrightarrow> resource_ok res" using applicationReference_ok by blast
  moreover have "graph_ok resource_ok ([], [])" by (simp add: graph_ok_def)
  ultimately have "graph_ok resource_ok (found, known)" using visit_ok(1) by blast
  then show "list_all resource_ok found" "distinct (map URI found)" by (auto simp: graph_ok_def)
qed

section \<open>Loading\<close>

text \<open>Assets that were loaded stay, and a resource that was added has one.\<close>

definition extends_assets :: "applicationFiles \<Rightarrow> applicationFiles \<Rightarrow> bool" where
  "extends_assets app app' \<longleftrightarrow> (\<forall>path found. asset app path = Some found \<longrightarrow> asset app' path = Some found)
     \<and> resources app' = resources app \<and> directory app' = directory app"

lemma add_asset_extends:
  assumes "add_asset sha lib files res (app, h) = Ok (app', h')"
  shows "extends_assets app app' \<and> asset app' (res_path res) \<noteq> None"
proof -
  obtain app1 found where r: "resource_asset lib files app res = Ok (app1, found)"
    and a: "app' = app1\<lparr>bodyBytes := bodyBytes app1 + of_nat (length (asset_body found))\<rparr>"
    using assms by (auto simp: add_asset_def and_then_Ok_iff Let_def split: if_splits sum.splits)
  have "extends_assets app app1 \<and> asset app1 (res_path res) \<noteq> None"
    using r by (auto simp: resource_asset_def extends_assets_def asset_def and_then_Ok_iff Let_def split: option.splits outcome.splits if_splits)
  then show ?thesis unfolding a by (auto simp: extends_assets_def asset_def)
qed

lemma add_assets_extends:
  "add_assets sha lib files rs (app, h) = Ok (app', h') \<Longrightarrow>
     extends_assets app app' \<and> list_all (\<lambda>res. asset app' (res_path res) \<noteq> None) rs"
proof (induction rs arbitrary: app h)
  case (Cons res rs)
  obtain app1 h1 where a: "add_asset sha lib files res (app, h) = Ok (app1, h1)" "add_assets sha lib files rs (app1, h1) = Ok (app', h')"
    using Cons.prems by (auto simp: and_then_Ok_iff)
  then show ?case using add_asset_extends [OF a(1)] Cons.IH [OF a(2)] by (auto simp: extends_assets_def)
qed (simp add: extends_assets_def)

text \<open>Every asset is what a reading of its file returned.\<close>

definition assets_read :: "(string \<Rightarrow> file_read) \<Rightarrow> applicationFiles \<Rightarrow> bool" where
  "assets_read files app \<longleftrightarrow>
     (\<forall>path found. asset app path = Some found \<longrightarrow> readApplicationFile files (file_name path) = Ok (asset_body found))"

lemma add_asset_read:
  assumes "add_asset sha lib files res (app, h) = Ok (app', h')" and "assets_read files app" and "res_path res \<noteq> ''/''"
  shows "assets_read files app'"
proof -
  obtain app1 found where r: "resource_asset lib files app res = Ok (app1, found)"
    and a: "app' = app1\<lparr>bodyBytes := bodyBytes app1 + of_nat (length (asset_body found))\<rparr>"
    using assms(1) by (auto simp: add_asset_def and_then_Ok_iff Let_def split: if_splits sum.splits)
  have "assets_read files app1"
  proof (cases "asset app (res_path res)")
    case None
    let ?name = "trim_prefix (res_path res) ''/''"
    have t: "readApplicationFile files ?name = Ok (asset_body found)"
      "app1 = app\<lparr>assets := AList.update (res_path res) found (assets app)\<rparr>"
      using r None by (auto simp: resource_asset_def and_then_Ok_iff Let_def)
    then show ?thesis using assms(2,3) by (simp add: assets_read_def asset_def file_name_def update_conv)
  next
    case (Some a)
    then have "app1 = app" using r by (auto simp: resource_asset_def split: outcome.splits if_splits)
    then show ?thesis using assms(2) by simp
  qed
  then show ?thesis unfolding a by (auto simp: assets_read_def asset_def)
qed

lemma add_assets_read:
  "add_assets sha lib files rs (app, h) = Ok (app', h') \<Longrightarrow> assets_read files app \<Longrightarrow> list_all (\<lambda>res. res_path res \<noteq> ''/'') rs
     \<Longrightarrow> assets_read files app'"
proof (induction rs arbitrary: app h)
  case (Cons res rs)
  obtain app1 h1 where a: "add_asset sha lib files res (app, h) = Ok (app1, h1)" "add_assets sha lib files rs (app1, h1) = Ok (app', h')"
    using Cons.prems(1) by (auto simp: and_then_Ok_iff)
  have "assets_read files app1" using add_asset_read [OF a(1) Cons.prems(2)] Cons.prems(3) by simp
  then show ?case using Cons.IH [OF a(2)] Cons.prems(3) by simp
qed simp

lemma load_ok:
  assumes "loadApplication sha lib open_root files again discover root = Ok app"
  obtains body where "discover body = Ok (resources app)" and "asset app ''/'' \<noteq> None" and "directory app"
    and "list_all (\<lambda>res. asset app (res_path res) \<noteq> None) (resources app)" and "verify_assets again (assets app) = None"
    and "list_all (\<lambda>res. res_path res \<noteq> ''/'') (resources app) \<Longrightarrow> assets_read files app"
proof -
  obtain body found app1 h where f: "discover body = Ok found" and b: "readApplicationFile files ''index.html'' = Ok body"
    and a: "add_assets sha lib files found (\<lparr>assets = [(''/'', \<lparr>asset_body = body, mime = ''text/html; charset=utf-8''\<rparr>)],
        resources = found, app_identity = [], bodyBytes = of_nat (length body), directory = True\<rparr>,
        snapshotField (snapshotField [] (to_bytes ''naivefox-site'')) (sha body)) = Ok (app1, h)"
    and v: "verify_assets again (assets app1) = None" and app: "app = app1\<lparr>app_identity := hex_encode (sha h)\<rparr>"
    using assms by (auto simp: loadApplication_def and_then_Ok_iff Let_def split: if_splits option.splits)
  have e: "extends_assets \<lparr>assets = [(''/'', \<lparr>asset_body = body, mime = ''text/html; charset=utf-8''\<rparr>)], resources = found,
      app_identity = [], bodyBytes = of_nat (length body), directory = True\<rparr> app1"
    "list_all (\<lambda>res. asset app1 (res_path res) \<noteq> None) found"
    using add_assets_extends [OF a] by auto
  have "assets_read files app1" if "list_all (\<lambda>res. res_path res \<noteq> ''/'') found"
    by (rule add_assets_read [OF a _ that]) (use b in \<open>auto simp: assets_read_def asset_def file_name_def\<close>)
  with e f v app show ?thesis
    by (intro that [of body]) (auto simp: extends_assets_def assets_read_def asset_def)
qed

section \<open>Serving what was loaded\<close>

text \<open>The routes that the entry point looks at before the assets and that discovery does not reject.\<close>

definition shadowed :: "string \<Rightarrow> bool" where
  "shadowed path \<longleftrightarrow> path = ''/api/packet'' \<or> has_prefix path ''/api/packet/'' \<or> path = ''/api/stream'' \<or> path = ''/api/upload''"

lemma ServeHTTP_asset:
  assumes "asset (application t) (Path (base r)) = Some found" and "\<not> shadowed (Path (base r))"
    and "\<not> reserved_route (Path (base r))" and "Method (base r) = ''GET'' \<or> Method (base r) = ''HEAD''"
  shows "snd (ServeHTTP w t r) = H_asset (responseCacheControl (base r) True) (mime found) (length (asset_body found))
    (if Method (base r) = ''HEAD'' then None else Some (asset_body found))"
proof -
  have n: "Path (base r) \<noteq> ''/''" "Path (base r) \<noteq> ''/api/realtime''" "\<not> has_prefix (Path (base r)) ''/__lab/''"
    "\<not> (Path (base r) = ''/api/packet'' \<or> has_prefix (Path (base r)) ''/api/packet/'')" "Path (base r) \<noteq> ''/api/stream''"
    "Path (base r) \<noteq> ''/api/upload''"
    using assms(2,3) unfolding reserved_route_def shadowed_def by blast+
  have "ServeHTTP w t r = serve_asset w (count_request t (base r)) r found"
    using assms(1) n by (simp add: ServeHTTP_def Let_def)
  then show ?thesis using assms(4) n(1) by (auto simp: serve_asset_def Let_def)
qed

lemma ServeHTTP_shadowed:
  assumes "shadowed (Path (base r))"
  shows "snd (ServeHTTP w t r) \<noteq> H_asset a b c d"
proof -
  have os: "snd (on_session w t r f) \<noteq> H_asset a b c d"
    if "\<And>u k s. snd (f u k s) \<noteq> H_asset a b c d" for f
    using that by (auto simp: on_session_def decline_def split: prod.split outcome.split option.split)
  have ad: "snd (admitted_reply u r adm ok) \<noteq> H_asset a b c d" if "ok \<noteq> H_asset a b c d" for u adm ok
    using that by (cases adm) (simp_all add: decline_def reject_def)
  have "snd (serve_stream w t r) \<noteq> H_asset a b c d" "snd (serve_upload w t r) \<noteq> H_asset a b c d"
    unfolding serve_stream_def serve_upload_def by (rule os; auto simp: Let_def ad split: prod.split)+
  moreover have "snd (serve_packet w t r) \<noteq> H_asset a b c d"
    by (auto simp: serve_packet_def packet_answer_def split: prod.split packet_route.split option.split outcome.split)
  ultimately show ?thesis using assms by (auto simp: ServeHTTP_def shadowed_def Let_def)
qed

section \<open>A provisioned handler\<close>

text \<open>A new handler that is provisioned is a start of the registry.\<close>

lemma Provision_start:
  "fst (Provision sha proxy load_pair load t) = Ok u \<Longrightarrow> packets t = [] \<Longrightarrow> packetNonces t = [] \<Longrightarrow> packetCount t = 0
     \<Longrightarrow> packetAdmission t = 0 \<Longrightarrow> registry_start u"
  by (auto simp: Provision_def provisionPacket_def registry_start_def Let_def split: if_splits outcome.splits)

section \<open>Properties\<close>

text \<open>
  C22. The site that was loaded is the site that is served. Once a handler is provisioned, the URIs of the resources that the
  initial document declares are distinct, every path is canonical and none of the routes that discovery reserves, and
  every resource has an asset, whose bytes are those that its file had when it was read and when it was verified.
  A GET or HEAD request for the resource is answered with that asset, its type and its length.
  The exception are the routes \<^verbatim>\<open>/api/stream\<close>, \<^verbatim>\<open>/api/upload\<close>, \<^verbatim>\<open>/api/packet\<close> and everything below the last one: discovery
  accepts a resource there, and the entry point never serves it.
\<close>

theorem site_served:
  assumes "fst (Provision sha proxy load_pair (loadApplication sha lib open_root files again
      (discoverApplication uv parse (applicationReference parse_url rebase request_uri))) start) = Ok provisioned"
    and "application t = application provisioned" and "res \<in> set (resources (application t))" and "Path (base r) = res_path res"
    and "Method (base r) = ''GET'' \<or> Method (base r) = ''HEAD''"
  shows "distinct (map URI (resources (application t))) \<and> resource_ok res
    \<and> (\<exists>found. asset (application t) (res_path res) = Some found
        \<and> readApplicationFile files (trim_prefix (res_path res) ''/'') = Ok (asset_body found)
        \<and> content (again (trim_prefix (res_path res) ''/'')) = asset_body found
        \<and> (if shadowed (res_path res) then \<forall>a b c d. snd (ServeHTTP w t r) \<noteq> H_asset a b c d
           else snd (ServeHTTP w t r) = H_asset (responseCacheControl (base r) True) (mime found) (length (asset_body found))
             (if Method (base r) = ''HEAD'' then None else Some (asset_body found))))"
proof -
  let ?app = "application t"
  have "loadApplication sha lib open_root files again (discoverApplication uv parse (applicationReference parse_url rebase request_uri))
      (ApplicationRoot start) = Ok ?app"
    using assms(2) by (auto intro: Provision_Ok [OF assms(1)])
  from load_ok [OF this] obtain body
    where d: "discoverApplication uv parse (applicationReference parse_url rebase request_uri) body = Ok (resources ?app)"
      and a: "list_all (\<lambda>res. asset ?app (res_path res) \<noteq> None) (resources ?app)" and v: "verify_assets again (assets ?app) = None"
      and read: "list_all (\<lambda>res. res_path res \<noteq> ''/'') (resources ?app) \<Longrightarrow> assets_read files ?app" by blast
  obtain found where f: "asset ?app (res_path res) = Some found" using a assms(3) by (auto simp: list_all_iff)
  have root: "res_path x \<noteq> ''/''" if "resource_ok x" for x using that by (auto simp: resource_ok_def reserved_route_def)
  have ok: "resource_ok res" using discover_ok(1) [OF d] assms(3) by (auto simp: list_all_iff)
  have n: "file_name (res_path res) = trim_prefix (res_path res) ''/''" using root [OF ok] by (simp add: file_name_def)
  have "list_all (\<lambda>res. res_path res \<noteq> ''/'') (resources ?app)"
    using discover_ok(1) [OF d] root by (auto simp: list_all_iff)
  from read [OF this] have "readApplicationFile files (trim_prefix (res_path res) ''/'') = Ok (asset_body found)"
    using f n by (metis assets_read_def)
  moreover have "content (again (trim_prefix (res_path res) ''/'')) = asset_body found"
    using verify_assets_content [OF v, of "res_path res" found] f n by (simp add: asset_def)
  ultimately show ?thesis
    using ok f discover_ok(2) [OF d] assms(4,5) ServeHTTP_shadowed [of r] ServeHTTP_asset [of t r found w] by (auto simp: resource_ok_def)
qed

text \<open>A site of a style sheet and of a script whose path is the upload route.\<close>

definition site_stat :: "nat \<Rightarrow> file_stat" where
  "site_stat n = \<lparr>st_symlink = False, st_regular = True, st_file = 1, st_size = int n, st_mtime = 5\<rparr>"

definition site_read :: "string \<Rightarrow> file_read" where
  "site_read name = \<lparr>f_lstat = Inr (site_stat (length name)), f_open = None, f_after = Inr (site_stat (length name)),
     f_body = Inr (to_bytes name), f_final = Inr (site_stat (length name))\<rparr>"

definition site_again :: "string \<Rightarrow> file_verify" where
  "site_again name = \<lparr>v_open = None, v_info = Inr (site_stat (length name)), v_reads = [to_bytes (take 3 name)],
     v_last = to_bytes (drop 3 name), v_err = None\<rparr>"

definition demo_media :: media_lib where
  "demo_media = \<lparr>type_by_extension = (\<lambda>e. ''image/png''), detect_content_type = (\<lambda>b. ''image/png''), parse_media_type = Inr,
     utf8_valid = (\<lambda>b. True)\<rparr>"

definition demo_document :: "bytes \<Rightarrow> (string, html_node) outcome" where
  "demo_document body = Ok (OtherNode [Element ''html'' [] [] [
     Element ''link'' [] [(''rel'', '' Stylesheet ''), (''href'', ''/a.css'')] [],
     Element ''noscript'' [] [] [Element ''iframe'' [] [] []],
     Element ''script'' [] [(''src'', ''/api/upload''), (''defer'', [])] []]])"

definition demo_url :: "string \<Rightarrow> site_url option" where
  "demo_url s = Some \<lparr>u_abs = False, u_host = [], u_user = False, u_opaque = [], u_path = s\<rparr>"

definition demo_load :: "string \<Rightarrow> (string, applicationFiles) outcome" where
  "demo_load = loadApplication (\<lambda>b. [7]) demo_media None site_read site_again
     (discoverApplication (\<lambda>b. True) demo_document (applicationReference demo_url (\<lambda>u. u) u_path))"

definition demo_site :: applicationFiles where
  "demo_site = (case demo_load ''/site'' of Ok app \<Rightarrow> app | _ \<Rightarrow> no_application)"

lemma demo_loaded: "demo_load ''/site'' = Ok demo_site"
proof -
  have "case demo_load ''/site'' of Ok app \<Rightarrow> True | _ \<Rightarrow> False" by code_simp
  then obtain app where app: "demo_load ''/site'' = Ok app" by (auto split: outcome.splits)
  show ?thesis unfolding demo_site_def app by simp
qed

definition demo_resource :: "string \<Rightarrow> string \<Rightarrow> siteResource" where
  "demo_resource path kind = \<lparr>URI = path, res_path = path, res_kind = kind\<rparr>"

lemma demo_assets:
  "resources demo_site = [demo_resource ''/a.css'' ''style'', demo_resource ''/api/upload'' ''script'']"
  "asset demo_site ''/a.css'' = Some \<lparr>asset_body = to_bytes ''a.css'', mime = ''text/css''\<rparr>"
  by code_simp+

definition demo_start :: transport where
  "demo_start = registry_demo\<lparr>ApplicationRoot := ''/site'', Access := demo_credentials\<rparr>"

lemma demo_provisioned: "\<exists>t. fst (Provision (\<lambda>b. [7]) (\<lambda>_. None) (\<lambda>_ _. True) demo_load demo_start) = Ok t \<and> application t = demo_site"
proof -
  have enc: "credential_text \<lparr>Username = ''u'', Password = ''p''\<rparr> = ''dTpw''"
    by (simp add: credential_text_def to_bytes_def base64_digit_def base64_alphabet_def)
  have "\<exists>hs tcp. provisionAccess (\<lambda>b. [7]) (\<lambda>_. None) demo_credentials = Ok (hs, tcp)"
    by (simp add: provisionAccess_def demo_credentials_def enc newTCPPolicy_def maxAuthorization_def Let_def)
  then show ?thesis
    by (auto simp: Provision_def provisionPacket_def demo_start_def registry_demo_def demo_loaded)
qed

definition demo_get :: "string \<Rightarrow> packet_request" where
  "demo_get path = begin_request\<lparr>base := demo_visit\<lparr>Path := path\<rparr>\<rparr>"

theorem site_served_witness:
  "snd (ServeHTTP demo_world (registry_demo\<lparr>application := demo_site\<rparr>) (demo_get ''/a.css''))
     = H_asset (responseCacheControl (base (demo_get ''/a.css'')) True) ''text/css'' 5 (Some (to_bytes ''a.css''))
   \<and> (\<forall>a b c d. snd (ServeHTTP demo_world (registry_demo\<lparr>application := demo_site\<rparr>) (demo_get ''/api/upload'')) \<noteq> H_asset a b c d)"
proof -
  let ?t = "registry_demo\<lparr>application := demo_site\<rparr>"
  obtain t where t: "fst (Provision (\<lambda>b. [7]) (\<lambda>_. None) (\<lambda>_ _. True) demo_load demo_start) = Ok t" "application ?t = application t"
    using demo_provisioned by auto
  note s = site_served [OF t(1) [unfolded demo_load_def] t(2)]
  have get: "Path (base (demo_get p)) = p" "Method (base (demo_get p)) = ''GET''" for p
    by (simp_all add: demo_get_def demo_visit_def)
  have path: "res_path (demo_resource p k) = p" for p k by (simp add: demo_resource_def)
  have "\<not> shadowed ''/a.css''" "shadowed ''/api/upload''" by code_simp+
  then show ?thesis
    using s [of "demo_resource ''/a.css'' ''style''" "demo_get ''/a.css''" demo_world]
      s [of "demo_resource ''/api/upload'' ''script''" "demo_get ''/api/upload''" demo_world]
    by (auto simp: demo_assets get path to_bytes_def)
qed

end
