(* ===== verification/Spec2Isabelle.thy ===== *)
theory Spec2Isabelle
  imports Stream_Decoder Mux_Properties Packet_Properties Packet_Auth Startup_Properties Carrier_Properties Policy_Properties
    Registry_Properties Packet_Requests Router_Properties Caddyfile Upstream Site_Properties
begin

text \<open>
  A verification library for \<^verbatim>\<open>naivefox-transport\<close>, a handler of the Caddy web server that hides a
  multiplexed TCP transport behind an ordinary web site. The whole handler is modelled, at the level of the
  Go functions of \<^verbatim>\<open>src/\<close>: every definition keeps the name of the function it translates where there is one, and every
  early return, error and panic is a branch of it.

  \<^bold>\<open>The program.\<close> A request enters \<^verbatim>\<open>ServeHTTP\<close>. A visitor gets the site: the assets that \<^verbatim>\<open>loadApplication\<close> took
  from the initial document and its resources, or other files of the directory. A client logs in with a POST to
  \<^verbatim>\<open>/api/sync\<close> whose body is a \<^emph>\<open>cell\<close> of fixed size with an AUTH frame, goes through forty alternating startup steps, and
  then opens a carrier: a WebSocket, an HTTP/3 stream with separate uploads, or, without these steps, a packet
  session, which is a TLS connection over numbered HTTP requests. On a carrier both sides exchange cells, whose frames
  belong to the streams of a multiplexer; a stream is dialled to its destination if the policy permits it, directly
  or through an upstream proxy.

  \<^bold>\<open>Theories and sources.\<close>

    \<^item> \<open>Prelude\<close>: widths of integers, byte strings, \<open>outcome\<close> (\<open>Ok\<close>, \<open>Fail\<close> for an error value, \<open>Panic\<close> for a run-time
      panic), slices, big-endian fields; the locales \<open>chunk_queue\<close> (a queue of bounded chunks is a queue of its bytes; interpreted
      on \<open>enqueueData\<close> and \<open>put_chunks\<close>) and \<open>step_system\<close> (an invariant that steps keep holds in reachable states; interpreted on
      the multiplexer, the packet connection, the startup phase, a WebSocket carrier and the registry). \<open>Go_Std\<close>, \<open>Net_Addr\<close>, \<open>Http\<close>: what the
      code uses of Go's \<^verbatim>\<open>strings\<close>, \<^verbatim>\<open>strconv\<close>, \<^verbatim>\<open>net\<close>, \<^verbatim>\<open>net/url\<close> and of a request.
    \<^item> \<open>Cell\<close>, \<open>Stream_Decoder\<close>: \<^verbatim>\<open>internal/cell\<close>. \<open>Decode\<close> accepts exactly the documented layout and never panics, it
      reads back what \<open>Encode\<close> wrote, and the incremental decoder gives the same frames for every split of the bytes
      (C1 to C6).
    \<^item> \<open>Mux\<close> with its operations and goroutine sections, \<open>Mux_Invariant\<close>, \<open>Mux_Steps\<close>, \<open>Mux_Goroutines\<close>, \<open>Mux_Take\<close>
      (with the locale \<open>frame_source\<close>), \<open>Mux_Progress\<close>, \<open>Mux_Properties\<close>: \<^verbatim>\<open>internal/mux/peer.go\<close>. Over every
      interleaving of calls and goroutines: bounded buffers and windows, no panic, payload neither lost nor
      reordered, frames that always encode, progress and fairness of the scheduler, ids that are never
      reused (C7 to C11 and C13 to C15).
    \<^item> \<open>Packet_Conn\<close>, \<open>Packet_Invariant\<close>, \<open>Packet_Steps\<close>, \<open>Packet_Properties\<close>, \<open>Packet_Auth\<close>: \<^verbatim>\<open>internal/packet\<close>. The bytes read
      are the bodies of the uploads in order and once, what an upload number is answered with follows from what was accepted
      before, replay is exact, limits hold, no wake-up is lost, a writer waits only without room and ends, and a tag binds its
      request (C16 to C21, C23).
    \<^item> \<open>Session\<close>, \<open>Session_Properties\<close>: \<^verbatim>\<open>receiveRealtime\<close> and \<^verbatim>\<open>writeCells\<close> of \<^verbatim>\<open>realtime.go\<close>: a cell is applied once,
      exactly when it is valid and next in sequence, and what a turn of the download loop sends (C24, C26).
    \<^item> \<open>Policy\<close>, \<open>Policy_Properties\<close>, \<open>Auth\<close>, \<open>Upstream\<close>: \<^verbatim>\<open>policy.go\<close>, \<^verbatim>\<open>auth.go\<close>, \<^verbatim>\<open>upstream.go\<close>: only what the
      policy permits is dialled, private networks are closed by default, only configured credentials are accepted,
      and a proxy connection leaks nothing when its setup fails. The callback of a tunnel's deadline is two steps, its locked
      section and the closing, so what is set in between does not stop it (C12, C27 to C29).
    \<^item> \<open>Startup\<close>, \<open>Startup_Invariant\<close>, \<open>Startup_Steps\<close>, \<open>Startup_Properties\<close>: \<^verbatim>\<open>startup.go\<close> and \<^verbatim>\<open>contract.go\<close>: the quota
      and the reference counts of journalled results are exact whatever requests, writers, expiry and
      eviction do in between, a request does the next step exactly when it may, and a retry gets the same result however much
      happened since (\<open>follows\<close> traces a session through the steps of the process; C30 to C32).
    \<^item> \<open>Carrier\<close>, \<open>Carrier_Properties\<close>: \<^verbatim>\<open>realtime.go\<close> and \<^verbatim>\<open>h3.go\<close>: uploads are applied in sequence whatever order they
      arrive in, and neither the reader nor the writer of a WebSocket carrier panics, in any interleaving of \<open>ws_step\<close> (C33, C34).
    \<^item> \<open>Registry\<close>, \<open>Registry_Properties\<close>: the state of the handler (\<^verbatim>\<open>Transport\<close> is the record \<open>transport\<close>), \<^verbatim>\<open>getSession\<close>,
      eviction, expiry and clean-up: which session a request gets, or why it gets none (C35).
    \<^item> \<open>Packet_Sessions\<close>, \<open>Packet_Handlers\<close>, \<open>Packet_Registry\<close>, \<open>Packet_Requests\<close>: \<^verbatim>\<open>packet.go\<close>: the registry of packet
      sessions is well formed in every reachable state, uploads and downloads change a session only when they are signed, an
      authentication request is recorded before it can be verified but authenticates nobody, a login succeeds exactly when it is
      verified, and the wire formats are exact (C36 to C38).
    \<^item> \<open>Static_Files\<close>, \<open>Site_Graph\<close>, \<open>Application\<close>, \<open>Provision\<close>, \<open>Site_Properties\<close>: \<^verbatim>\<open>application_static.go\<close>,
      \<^verbatim>\<open>application_graph.go\<close>, \<^verbatim>\<open>application.go\<close> and \<^verbatim>\<open>Provision\<close>: the site that was loaded is the site that is served (C22).
    \<^item> \<open>Router\<close>, \<open>Router_Properties\<close>: \<^verbatim>\<open>ServeHTTP\<close>, which composes all handlers on the whole state: the authentication gate,
      startup, WebSocket and HTTP/3 carriers that do not exist for visitors, what the packet carrier answers to them, canonical files
      and finite redirects (C39, C40).
    \<^item> \<open>Caddyfile\<close>: \<^verbatim>\<open>caddyfile.go\<close>: exactly which configurations are accepted, and that reading inverts writing (C25).

  \<^bold>\<open>State and concurrency.\<close> A struct is a record with the fields of the code, a map is an association list or a function, and
  Go's unspecified order of iteration is covered because the theorems hold for every list. What runs under one
  mutex is one function on the state. A goroutine, and a handler that waits, is the sequence of its locked
  sections; the step relations (\<open>peer_step\<close>, \<open>conn_step\<close>, \<open>sys_step\<close>, \<open>ws_step\<close>, \<open>registry_step\<close>) interleave these sections in any order. What a
  wait ends with is an argument. One call of \<^verbatim>\<open>Take\<close> is one step; readers that refill the output queue of a stream while
  it runs are steps before or after it, and sessions of \<open>step_visit\<close> change arbitrarily between the steps of the registry.

  \<^bold>\<open>Integers and termination.\<close> Sequence numbers, counters and windows are words of their width and wrap around; lengths are
  natural numbers. No definition needs fuel: loops recurse on their input, and the others have a measure (the remaining
  bytes, the number of sessions, the streams not yet visited). The retry loop of \<^verbatim>\<open>reserveStartupBytes\<close> takes the
  list of values that it loads and finds; \<open>reserve_linear\<close> shows that any contended run takes effect at one instant, and the
  handlers use that instant.

  \<^bold>\<open>Parameters.\<close> SHA-256, HMAC, the TLS exporter and handshake, random bytes, clocks, the resolver and the dialer, the parsers of
  URLs, HTML and durations, MIME tables, the file system, the configuration dispenser, the WebSocket, HTTP/2
  and SOCKS5 libraries and the HTTP response reader are arguments of the definitions that use them. What a theorem needs of them is
  a hypothesis of it: that a fresh token is not in use, that SHA-256 and HMAC do not collide on the two inputs at hand, that a
  reader returns at most what it has room for.

  \<^bold>\<open>Not modelled.\<close> Opening files (\<^verbatim>\<open>application_open_*.go\<close>), response headers other than the cache control, the JSON
  statistics and the file they are written to, log lines and the registration of the module are pure input and output. Paths of
  files are those of Unix. Tests, tools, the template and the examples are not part of the handler.
\<close>

end
